(* ===== verification/Prelude.thy ===== *)
theory Prelude
  imports Main "HOL-Library.Word"
begin

text \<open>
  Shared vocabulary of the development: byte strings and newline-delimited
  frames, \<open>std::string\<close> searches, the wrap-around subtraction of
  \<open>std::size_t\<close>, decimal printing, and the interface of a transition system
  with an invariant. Collections: \<open>split_simps\<close> rewrites frame splitting,
  \<open>conn_simps\<close> unfolds the small accessors of the components.
\<close>

named_theorems split_simps
named_theorems conn_simps

subsection \<open>Strings\<close>

abbreviation NL :: char where "NL \<equiv> CHR 0x0A"

text \<open>First position of a character, \<open>None\<close> for \<open>npos\<close>.\<close>

fun find_char :: "char \<Rightarrow> string \<Rightarrow> nat option" where
  "find_char ch [] = None"
| "find_char ch (x # xs) = (if x = ch then Some 0 else map_option Suc (find_char ch xs))"

text \<open>\<open>s.find(ch, pos)\<close>: the first position not before \<open>pos\<close>.\<close>

definition find_from :: "char \<Rightarrow> string \<Rightarrow> nat \<Rightarrow> nat option" where
  "find_from ch s pos = map_option (\<lambda>i. pos + i) (find_char ch (drop pos s))"

text \<open>\<open>s.substr(pos, n)\<close> for \<open>pos \<le> s.size()\<close>.\<close>

definition substr :: "string \<Rightarrow> nat \<Rightarrow> nat \<Rightarrow> string" where
  "substr s pos n = take n (drop pos s)"

lemma find_char_None_iff [simp]: "find_char ch s = None \<longleftrightarrow> ch \<notin> set s"
  by (induction s) auto

lemma find_char_absent [simp]: "ch \<notin> set s \<Longrightarrow> find_char ch s = None"
  by simp

lemma find_char_mem: "find_char ch s = Some i \<Longrightarrow> ch \<in> set s"
  using find_char_None_iff [of ch s] by fastforce

lemma find_char_append [simp]:
  "ch \<notin> set a \<Longrightarrow> find_char ch (a @ ch # b) = Some (length a)"
  by (induction a) auto

lemma find_char_split:
  "find_char ch s = Some i \<Longrightarrow> s = take i s @ ch # drop (Suc i) s \<and> ch \<notin> set (take i s)"
  by (induction s arbitrary: i) (auto split: if_splits)

lemma find_char_bound: "find_char ch s = Some i \<Longrightarrow> i < length s"
  by (induction s arbitrary: i) (auto split: if_splits)

lemma find_from_None_iff: "find_from ch s pos = None \<longleftrightarrow> ch \<notin> set (drop pos s)"
  by (simp add: find_from_def)

subsection \<open>Frames\<close>

text \<open>
  The reference meaning of a byte stream: the complete newline-terminated frames
  it holds and the unterminated tail. Frames are listed without their newline.
\<close>

fun split_lines :: "string \<Rightarrow> string list \<times> string" where
  "split_lines [] = ([], [])"
| "split_lines (c # cs) =
     (let (fs, t) = split_lines cs
      in if c = NL then ([] # fs, t)
         else case fs of [] \<Rightarrow> ([], c # t) | f # fs' \<Rightarrow> ((c # f) # fs', t))"

definition join_lines :: "string list \<Rightarrow> string" where
  "join_lines fs = concat (map (\<lambda>f. f @ [NL]) fs)"

lemma join_lines_simps [simp]:
  "join_lines [] = []"
  "join_lines (f # fs) = f @ NL # join_lines fs"
  "join_lines (fs @ gs) = join_lines fs @ join_lines gs"
  by (simp_all add: join_lines_def)

lemma split_lines_no_nl [split_simps]: "NL \<notin> set s \<Longrightarrow> split_lines s = ([], s)"
  by (induction s) (auto split: prod.splits)

lemma split_lines_nl [split_simps]:
  "NL \<notin> set f \<Longrightarrow>
   split_lines (f @ NL # r) = (f # fst (split_lines r), snd (split_lines r))"
  by (induction f) (auto simp: case_prod_beta)

lemma split_lines_join [split_simps]:
  "\<forall>f\<in>set fs. NL \<notin> set f \<Longrightarrow> NL \<notin> set t \<Longrightarrow> split_lines (join_lines fs @ t) = (fs, t)"
  by (induction fs) (auto simp: split_simps)

lemma split_lines_inverse: "join_lines (fst (split_lines s)) @ snd (split_lines s) = s"
  by (induction s) (auto simp: case_prod_beta split: list.splits)

lemma split_lines_clean:
  "f \<in> set (fst (split_lines s)) \<Longrightarrow> NL \<notin> set f" "NL \<notin> set (snd (split_lines s))"
  by (induction s arbitrary: f) (auto simp: case_prod_beta split: list.splits if_splits)

lemma split_lines_append:
  "split_lines (s @ t) =
     (fst (split_lines s) @ fst (split_lines (snd (split_lines s) @ t)),
      snd (split_lines (snd (split_lines s) @ t)))"
proof (induction s)
  case Nil
  show ?case by simp
next
  case (Cons c s)
  show ?case
  proof (cases "c = NL")
    case True
    then show ?thesis using Cons by (simp add: case_prod_beta)
  next
    case False
    show ?thesis
    proof (cases "fst (split_lines s)")
      case Nil
      with Cons False show ?thesis
        by (simp add: case_prod_beta split: list.splits)
    next
      case (Cons f fs)
      with Cons.IH False show ?thesis
        by (simp add: case_prod_beta)
    qed
  qed
qed

lemma split_lines_Nil_iff: "fst (split_lines s) = [] \<longleftrightarrow> NL \<notin> set s"
  by (induction s) (auto simp: case_prod_beta split: list.splits)

subsection \<open>Sizes\<close>

text \<open>
  \<open>std::size_t\<close> is 64 bits wide. Sizes are modelled as \<open>nat\<close>; subtraction,
  the one operation that can leave the range, is written out with its
  wrap-around.
\<close>

definition size_sub :: "nat \<Rightarrow> nat \<Rightarrow> nat" where
  "size_sub a b = (if b \<le> a then a - b else 2 ^ 64 + a - b)"

lemma size_sub_le [simp]: "b \<le> a \<Longrightarrow> size_sub a b = a - b"
  by (simp add: size_sub_def)

lemma size_sub_word:
  assumes "a < 2 ^ 64" and "b < 2 ^ 64"
  shows "size_sub a b = unat (word_of_nat a - word_of_nat b :: 64 word)"
proof -
  have "unat (word_of_nat a :: 64 word) = a" "unat (word_of_nat b :: 64 word) = b"
    using assms by (simp_all add: unat_of_nat take_bit_nat_eq_self)
  then show ?thesis
    by (simp add: size_sub_def unat_sub_if' word_le_nat_alt) arith
qed

subsection \<open>Decimal printing\<close>

definition digit :: "nat \<Rightarrow> char" where
  "digit d = char_of (48 + d)"

text \<open>\<open>std::to_string\<close> on an unsigned integer.\<close>

fun to_string :: "nat \<Rightarrow> string" where
  "to_string n = (if n < 10 then [digit n] else to_string (n div 10) @ [digit (n mod 10)])"

declare to_string.simps [simp del]

definition of_string :: "string \<Rightarrow> nat" where
  "of_string s = foldl (\<lambda>n c. 10 * n + (of_char c - 48)) 0 s"

lemma of_char_digit: "d < 10 \<Longrightarrow> of_char (digit d) = (48 + d :: nat)"
  by (simp add: digit_def)

lemma of_string_to_string: "of_string (to_string n) = n"
proof (induction n rule: to_string.induct)
  case (1 n)
  then show ?case
    by (subst to_string.simps) (auto simp: of_string_def of_char_digit)
qed

lemma to_string_nonempty: "to_string n \<noteq> []"
  by (subst to_string.simps) simp

lemma to_string_length: "n < 10 ^ Suc k \<Longrightarrow> length (to_string n) \<le> Suc k"
proof (induction k arbitrary: n)
  case 0
  then show ?case by (subst to_string.simps) simp
next
  case (Suc k)
  have "n div 10 < 10 ^ Suc k" using Suc.prems by (simp add: less_mult_imp_div_less)
  then have "length (to_string (n div 10)) \<le> Suc k" by (rule Suc.IH)
  then show ?case by (subst to_string.simps) simp
qed

lemma digit_not_space: "d < 10 \<Longrightarrow> of_char (digit d) \<ge> (48 :: nat)"
  by (simp add: of_char_digit)

lemma to_string_chars: "c \<in> set (to_string n) \<Longrightarrow> (48 :: nat) \<le> of_char c"
proof (induction n rule: to_string.induct)
  case (1 n)
  show ?case
  proof (cases "n < 10")
    case True
    with "1.prems" show ?thesis by (simp add: to_string.simps [of n] of_char_digit)
  next
    case False
    with "1.prems" have "c \<in> set (to_string (n div 10)) \<or> c = digit (n mod 10)"
      by (auto simp: to_string.simps [of n])
    with "1.IH" False show ?thesis by (auto simp: of_char_digit)
  qed
qed

lemma to_string_no_nl: "NL \<notin> set (to_string n)"
  using to_string_chars [of NL n] by auto

subsection \<open>Transition systems with an invariant\<close>

text \<open>
  The contract every stateful component offers to its clients: each step keeps
  the component's invariant. Runs of any length then keep it.
\<close>

locale invariant_system =
  fixes step :: "'s \<Rightarrow> 's \<Rightarrow> bool" and inv :: "'s \<Rightarrow> bool"
  assumes step_inv: "step s t \<Longrightarrow> inv s \<Longrightarrow> inv t"
begin

lemma steps_inv: "step\<^sup>*\<^sup>* s t \<Longrightarrow> inv s \<Longrightarrow> inv t"
  by (induction rule: rtranclp_induct) (auto intro: step_inv)

lemma steps_rel:
  assumes "step\<^sup>*\<^sup>* s t" and "inv s"
    and refl: "\<And>s. rel s s"
    and trans: "\<And>s t u. rel s t \<Longrightarrow> rel t u \<Longrightarrow> rel s u"
    and one: "\<And>s t. step s t \<Longrightarrow> inv s \<Longrightarrow> rel s t"
  shows "rel s t"
  using assms(1,2)
proof (induction rule: rtranclp_induct)
  case base
  show ?case by (rule refl)
next
  case (step t u)
  then have "inv t" using steps_inv by blast
  with step one trans show ?case by blast
qed

end

end
