(* ===== verification/Parser.thy ===== *)
theory Parser
  imports Prelude
begin

text \<open>
  \<open>parse_command\<close> (\<open>include/tcp/protocol/command.hpp\<close>,
  \<open>include/tcp/protocol/parser.hpp\<close>, \<open>src/protocol/parser.cpp\<close>). The stream
  \<open>std::istringstream\<close> is its unread characters and its fail bit; \<open>extract_word\<close> is
  \<open>operator>>\<close> on a string. \<open>tokens\<close> is the reference tokenizer and
  \<open>parse_spec\<close> the grammar over tokens.
\<close>

datatype CommandType = Set | Get | Erase | Exists | Count

record Command =
  cmd_type :: CommandType
  cmd_key :: string
  cmd_value :: string

subsection \<open>Formatted input\<close>

text \<open>White space of the classic locale: space and the controls 9 to 13.\<close>

definition is_space :: "char \<Rightarrow> bool" where
  "is_space c \<longleftrightarrow> c = CHR 0x20 \<or> c = CHR 0x09 \<or> c = CHR 0x0A \<or> c = CHR 0x0B \<or>
     c = CHR 0x0C \<or> c = CHR 0x0D"

record istringstream =
  unread :: string
  failbit :: bool

definition open_stream :: "string \<Rightarrow> istringstream" where
  "open_stream input = \<lparr>unread = input, failbit = False\<rparr>"

text \<open>
  \<open>stream >> word\<close>: on a good stream, skip white space and take the maximal run
  of other characters; an empty run sets the fail bit, and a failed stream
  extracts nothing.
\<close>

definition extract_word :: "istringstream \<Rightarrow> istringstream \<times> string" where
  "extract_word st =
     (if failbit st then (st, [])
      else let r = dropWhile is_space (unread st);
               w = takeWhile (\<lambda>c. \<not> is_space c) r
           in (\<lparr>unread = dropWhile (\<lambda>c. \<not> is_space c) r, failbit = (w = [])\<rparr>, w))"

subsection \<open>The parser\<close>

definition parse_command :: "string \<Rightarrow> Command option" where
  "parse_command input =
     (let (st, operation) = extract_word (open_stream input) in
      if failbit st then None
      else if operation = ''SET'' then
        (let (st1, key) = extract_word st; (st2, val) = extract_word st1 in
         if failbit st2 then None
         else let (st3, extra) = extract_word st2 in
           if \<not> failbit st3 then None
           else Some \<lparr>cmd_type = Set, cmd_key = key, cmd_value = val\<rparr>)
      else if operation = ''GET'' then
        (let (st1, key) = extract_word st in
         if failbit st1 then None
         else let (st2, extra) = extract_word st1 in
           if \<not> failbit st2 then None
           else Some \<lparr>cmd_type = Get, cmd_key = key, cmd_value = []\<rparr>)
      else if operation = ''DELETE'' then
        (let (st1, key) = extract_word st in
         if failbit st1 then None
         else let (st2, extra) = extract_word st1 in
           if \<not> failbit st2 then None
           else Some \<lparr>cmd_type = Erase, cmd_key = key, cmd_value = []\<rparr>)
      else if operation = ''EXISTS'' then
        (let (st1, key) = extract_word st in
         if failbit st1 then None
         else let (st2, extra) = extract_word st1 in
           if \<not> failbit st2 then None
           else Some \<lparr>cmd_type = Exists, cmd_key = key, cmd_value = []\<rparr>)
      else if operation = ''COUNT'' then
        (let (st1, extra) = extract_word st in
         if \<not> failbit st1 then None
         else Some \<lparr>cmd_type = Count, cmd_key = [], cmd_value = []\<rparr>)
      else None)"

subsection \<open>The reference tokenizer and grammar\<close>

function tokens :: "string \<Rightarrow> string list" where
  "tokens s =
     (let r = dropWhile is_space s
      in if r = [] then []
         else takeWhile (\<lambda>c. \<not> is_space c) r # tokens (dropWhile (\<lambda>c. \<not> is_space c) r))"
  by pat_completeness auto

lemma dropWhile_shorter:
  assumes "dropWhile is_space s \<noteq> []"
  shows "length (dropWhile (\<lambda>c. \<not> is_space c) (dropWhile is_space s)) < length s"
proof -
  obtain c r where r: "dropWhile is_space s = c # r"
    using assms by (cases "dropWhile is_space s") auto
  have "length (c # r) \<le> length s"
    using length_dropWhile_le [of is_space s] r by simp
  moreover have "\<not> is_space c"
    using hd_dropWhile [OF assms] r by simp
  moreover have "length (dropWhile (\<lambda>c. \<not> is_space c) r) \<le> length r"
    by (rule length_dropWhile_le)
  ultimately show ?thesis using r by simp
qed

termination tokens
  by (relation "measure length") (simp_all add: dropWhile_shorter)

declare tokens.simps [simp del]

fun parse_spec :: "string list \<Rightarrow> Command option" where
  "parse_spec [op, k, v] =
     (if op = ''SET'' then Some \<lparr>cmd_type = Set, cmd_key = k, cmd_value = v\<rparr> else None)"
| "parse_spec [op, k] =
     (if op = ''GET'' then Some \<lparr>cmd_type = Get, cmd_key = k, cmd_value = []\<rparr>
      else if op = ''DELETE'' then Some \<lparr>cmd_type = Erase, cmd_key = k, cmd_value = []\<rparr>
      else if op = ''EXISTS'' then Some \<lparr>cmd_type = Exists, cmd_key = k, cmd_value = []\<rparr>
      else None)"
| "parse_spec [op] =
     (if op = ''COUNT'' then Some \<lparr>cmd_type = Count, cmd_key = [], cmd_value = []\<rparr> else None)"
| "parse_spec _ = None"

text \<open>Extraction in terms of the tokens left in the stream.\<close>

lemma extract_word_tokens:
  assumes "\<not> failbit st"
  shows "failbit (fst (extract_word st)) \<longleftrightarrow> tokens (unread st) = []"
    "tokens (unread st) = t # ts \<Longrightarrow> snd (extract_word st) = t"
    "tokens (unread st) = t # ts \<Longrightarrow> tokens (unread (fst (extract_word st))) = ts"
proof -
  let ?r = "dropWhile is_space (unread st)"
  have ne: "takeWhile (\<lambda>c. \<not> is_space c) ?r = [] \<longleftrightarrow> ?r = []"
    using hd_dropWhile [of is_space "unread st"]
    by (cases ?r) (auto simp del: dropWhile_eq_Nil_conv)
  show "failbit (fst (extract_word st)) \<longleftrightarrow> tokens (unread st) = []"
    using assms ne by (subst tokens.simps) (simp add: extract_word_def Let_def)
  assume "tokens (unread st) = t # ts"
  then have "?r \<noteq> []" "t = takeWhile (\<lambda>c. \<not> is_space c) ?r"
    "ts = tokens (dropWhile (\<lambda>c. \<not> is_space c) ?r)"
    by (subst (asm) tokens.simps; simp add: Let_def split: if_splits)+
  then show "snd (extract_word st) = t" "tokens (unread (fst (extract_word st))) = ts"
    using assms by (simp_all add: extract_word_def Let_def)
qed

lemma extract_word_failed: "failbit st \<Longrightarrow> extract_word st = (st, [])"
  by (simp add: extract_word_def)

lemma extract_word_cases:
  assumes "\<not> failbit st"
  obtains (empty) r where "tokens (unread st) = []" "extract_word st = (\<lparr>unread = r, failbit = True\<rparr>, [])"
  | (word) t ts r where "tokens (unread st) = t # ts"
      "extract_word st = (\<lparr>unread = r, failbit = False\<rparr>, t)" "tokens r = ts"
proof (cases "tokens (unread st)")
  case Nil
  then have "failbit (fst (extract_word st))"
    using extract_word_tokens(1) [OF assms] by simp
  then have "extract_word st = (\<lparr>unread = unread (fst (extract_word st)), failbit = True\<rparr>, [])"
    using assms by (auto simp: extract_word_def Let_def)
  with Nil that(1) show ?thesis by blast
next
  case (Cons t ts)
  then have "\<not> failbit (fst (extract_word st))"
    using extract_word_tokens(1) [OF assms] by simp
  then have "extract_word st = (\<lparr>unread = unread (fst (extract_word st)), failbit = False\<rparr>, t)"
    using extract_word_tokens(2) [OF assms Cons] by (cases "extract_word st") auto
  with Cons extract_word_tokens(3) [OF assms Cons] that(2) show ?thesis by blast
qed

lemma extract_word_step:
  "tokens r = [] \<Longrightarrow> \<exists>r'. extract_word \<lparr>unread = r, failbit = False\<rparr> = (\<lparr>unread = r', failbit = True\<rparr>, [])"
  "tokens r = t # ts \<Longrightarrow>
   \<exists>r'. extract_word \<lparr>unread = r, failbit = False\<rparr> = (\<lparr>unread = r', failbit = False\<rparr>, t) \<and> tokens r' = ts"
  by (rule extract_word_cases [of "\<lparr>unread = r, failbit = False\<rparr>"]; force)+

text \<open>A fourth token makes every command malformed.\<close>

lemma parse_spec_long: "parse_spec (a # b # c # d # ts) = None"
  by (cases ts) simp_all

lemma parse_command_eq_spec: "parse_command input = parse_spec (tokens input)"
proof -
  consider "tokens input = []" | a where "tokens input = [a]" | a b where "tokens input = [a, b]"
    | a b c where "tokens input = [a, b, c]" | a b c d ts where "tokens input = a # b # c # d # ts"
    by (metis list.exhaust)
  then show ?thesis
  proof cases
    case 1
    with extract_word_step(1) [OF this] show ?thesis
      by (auto simp: parse_command_def open_stream_def)
  next
    case (2 a)
    obtain r1 r2 where "extract_word (open_stream input) = (\<lparr>unread = r1, failbit = False\<rparr>, a)"
      and "extract_word \<lparr>unread = r1, failbit = False\<rparr> = (\<lparr>unread = r2, failbit = True\<rparr>, [])"
      using extract_word_step [of input] extract_word_step(1) 2 unfolding open_stream_def by metis
    with 2 show ?thesis by (simp add: parse_command_def extract_word_failed)
  next
    case (3 a b)
    obtain r1 r2 r3 where "extract_word (open_stream input) = (\<lparr>unread = r1, failbit = False\<rparr>, a)"
      and "extract_word \<lparr>unread = r1, failbit = False\<rparr> = (\<lparr>unread = r2, failbit = False\<rparr>, b)"
      and "extract_word \<lparr>unread = r2, failbit = False\<rparr> = (\<lparr>unread = r3, failbit = True\<rparr>, [])"
      using extract_word_step [of input] extract_word_step 3 unfolding open_stream_def by metis
    with 3 show ?thesis by (simp add: parse_command_def)
  next
    case (4 a b c)
    obtain r1 r2 r3 r4 where "extract_word (open_stream input) = (\<lparr>unread = r1, failbit = False\<rparr>, a)"
      and "extract_word \<lparr>unread = r1, failbit = False\<rparr> = (\<lparr>unread = r2, failbit = False\<rparr>, b)"
      and "extract_word \<lparr>unread = r2, failbit = False\<rparr> = (\<lparr>unread = r3, failbit = False\<rparr>, c)"
      and "extract_word \<lparr>unread = r3, failbit = False\<rparr> = (\<lparr>unread = r4, failbit = True\<rparr>, [])"
      using extract_word_step [of input] extract_word_step 4 unfolding open_stream_def by metis
    with 4 show ?thesis by (simp add: parse_command_def)
  next
    case (5 a b c d ts)
    obtain r1 r2 r3 r4 where "extract_word (open_stream input) = (\<lparr>unread = r1, failbit = False\<rparr>, a)"
      and "extract_word \<lparr>unread = r1, failbit = False\<rparr> = (\<lparr>unread = r2, failbit = False\<rparr>, b)"
      and "extract_word \<lparr>unread = r2, failbit = False\<rparr> = (\<lparr>unread = r3, failbit = False\<rparr>, c)"
      and "extract_word \<lparr>unread = r3, failbit = False\<rparr> = (\<lparr>unread = r4, failbit = False\<rparr>, d)"
      using extract_word_step [of input] extract_word_step 5 unfolding open_stream_def by metis
    with 5 show ?thesis by (simp add: parse_command_def parse_spec_long)
  qed
qed

subsection \<open>Tokens\<close>

definition is_token :: "string \<Rightarrow> bool" where
  "is_token t \<longleftrightarrow> t \<noteq> [] \<and> list_all (\<lambda>c. \<not> is_space c) t"

lemma tokens_are_tokens: "t \<in> set (tokens s) \<Longrightarrow> is_token t"
proof (induction s rule: tokens.induct)
  case (1 s)
  let ?r = "dropWhile is_space s"
  show ?case
  proof (cases "?r = []")
    case True
    with "1.prems" show ?thesis by (subst (asm) tokens.simps) (simp add: Let_def)
  next
    case False
    have "is_token (takeWhile (\<lambda>c. \<not> is_space c) ?r)"
      using hd_dropWhile [OF False] False
      by (cases ?r) (auto simp: is_token_def list_all_iff dest: set_takeWhileD
          simp del: dropWhile_eq_Nil_conv)
    with False "1.prems" "1.IH" [OF refl False] show ?thesis
      by (subst (asm) tokens.simps) (auto simp add: Let_def simp del: dropWhile_eq_Nil_conv)
  qed
qed

lemma tokens_space: "is_space c \<Longrightarrow> tokens (c # s) = tokens s"
  by (subst (1 2) tokens.simps) simp

lemma tokens_word:
  assumes "is_token t" and "s = [] \<or> is_space (hd s)"
  shows "tokens (t @ s) = t # tokens s"
proof -
  obtain c r where t: "t = c # r" "\<not> is_space c" "\<forall>x\<in>set t. \<not> is_space x"
    using assms(1) by (cases t) (auto simp: is_token_def list_all_iff)
  have "takeWhile (\<lambda>c. \<not> is_space c) (t @ s) = t" "dropWhile (\<lambda>c. \<not> is_space c) (t @ s) = s"
    using t(3) assms(2) by (cases s; auto simp: takeWhile_append dropWhile_append)+
  with t(1,2) show ?thesis by (subst tokens.simps) (simp add: Let_def)
qed

text \<open>What a frame of a given length can carry: tokens and the white space between them.\<close>

lemma tokens_length_strong:
  "sum_list (map length (tokens s)) + length (tokens s) \<le>
     (if s = [] \<or> is_space (hd s) then length s else Suc (length s))"
proof (induction s rule: tokens.induct)
  case (1 s)
  let ?r = "dropWhile is_space s" and ?p = "\<lambda>c. \<not> is_space c"
  show ?case
  proof (cases "?r = []")
    case True
    then show ?thesis by (subst (1 2) tokens.simps) (simp add: Let_def)
  next
    case False
    have tail: "dropWhile ?p ?r = [] \<or> is_space (hd (dropWhile ?p ?r))"
      using hd_dropWhile [of ?p ?r] by auto
    have eq: "tokens s = takeWhile ?p ?r # tokens (dropWhile ?p ?r)"
      using False by (subst tokens.simps) (simp add: Let_def del: dropWhile_eq_Nil_conv)
    have len: "length ?r = length (takeWhile ?p ?r) + length (dropWhile ?p ?r)"
      by (metis length_append takeWhile_dropWhile_id)
    have "length ?r \<le> length s"
      by (rule length_dropWhile_le)
    moreover have "length ?r < length s" if "is_space (hd s)" "s \<noteq> []"
      using that length_dropWhile_le [of is_space "tl s"] by (cases s) auto
    moreover have "s \<noteq> []"
      using False by auto
    moreover have "sum_list (map length (tokens (dropWhile ?p ?r))) + length (tokens (dropWhile ?p ?r))
        \<le> length (dropWhile ?p ?r)"
      using "1.IH" [OF refl False] tail by (simp split: if_splits)
    ultimately show ?thesis
      using len by (auto simp add: eq simp del: dropWhile_eq_Nil_conv)
  qed
qed

lemma tokens_length:
  "sum_list (map length (tokens s)) + length (tokens s) \<le> Suc (length s)"
  using tokens_length_strong [of s] by (simp split: if_splits)

subsection \<open>Printing commands\<close>

text \<open>The line a client writes for a command.\<close>

definition format_command :: "Command \<Rightarrow> string" where
  "format_command c =
     (case cmd_type c of
        Set \<Rightarrow> ''SET '' @ cmd_key c @ '' '' @ cmd_value c
      | Get \<Rightarrow> ''GET '' @ cmd_key c
      | Erase \<Rightarrow> ''DELETE '' @ cmd_key c
      | Exists \<Rightarrow> ''EXISTS '' @ cmd_key c
      | Count \<Rightarrow> ''COUNT'')"

definition wf_command :: "Command \<Rightarrow> bool" where
  "wf_command c \<longleftrightarrow>
     (if cmd_type c = Count then cmd_key c = [] else is_token (cmd_key c)) \<and>
     (if cmd_type c = Set then is_token (cmd_value c) else cmd_value c = [])"

lemma parse_spec_cases:
  assumes "parse_spec ts = Some c"
  obtains k v where "ts = [''SET'', k, v]" "c = \<lparr>cmd_type = Set, cmd_key = k, cmd_value = v\<rparr>"
  | k where "ts = [''GET'', k]" "c = \<lparr>cmd_type = Get, cmd_key = k, cmd_value = []\<rparr>"
  | k where "ts = [''DELETE'', k]" "c = \<lparr>cmd_type = Erase, cmd_key = k, cmd_value = []\<rparr>"
  | k where "ts = [''EXISTS'', k]" "c = \<lparr>cmd_type = Exists, cmd_key = k, cmd_value = []\<rparr>"
  | "ts = [''COUNT'']" "c = \<lparr>cmd_type = Count, cmd_key = [], cmd_value = []\<rparr>"
  using assms by (cases ts rule: parse_spec.cases) (auto split: if_splits)

lemma parse_command_cases:
  assumes "parse_command s = Some c"
  shows "wf_command c"
    and "length (cmd_key c) + length (cmd_value c) + 4 \<le> length s \<or> cmd_type c = Count"
    and "cmd_type c = Set \<Longrightarrow> length (cmd_key c) + length (cmd_value c) + 5 \<le> length s"
proof -
  have spec: "parse_spec (tokens s) = Some c"
    using assms by (simp add: parse_command_eq_spec)
  have tok: "t \<in> set (tokens s) \<Longrightarrow> is_token t" for t
    by (rule tokens_are_tokens)
  show "wf_command c" using spec tok
    by (cases rule: parse_spec_cases) (auto simp: wf_command_def)
  show "length (cmd_key c) + length (cmd_value c) + 4 \<le> length s \<or> cmd_type c = Count"
    using spec tokens_length [of s] by (cases rule: parse_spec_cases) auto
  show "cmd_type c = Set \<Longrightarrow> length (cmd_key c) + length (cmd_value c) + 5 \<le> length s"
    using spec tokens_length [of s] by (cases rule: parse_spec_cases) auto
qed

lemma tokens_Nil: "tokens [] = []"
  by (subst tokens.simps) simp

lemma tokens_single: "is_token t \<Longrightarrow> tokens t = [t]"
  using tokens_word [of t "[]"] by (simp add: tokens_Nil)

lemma tokens_pair: "is_token t \<Longrightarrow> tokens (t @ CHR 0x20 # s) = t # tokens s"
  using tokens_word [of t "CHR 0x20 # s"] by (simp add: is_space_def tokens_space)

lemma keyword_tokens [simp]:
  "is_token ''SET''" "is_token ''GET''" "is_token ''DELETE''" "is_token ''EXISTS''"
  "is_token ''COUNT''"
  by (simp_all add: is_token_def is_space_def)

lemma wf_command_tokens:
  assumes "wf_command c"
  shows "parse_spec (tokens (format_command c)) = Some c"
proof (cases "cmd_type c")
  case Set
  with assms tokens_pair [of "''SET''" "cmd_key c @ '' '' @ cmd_value c"]
    tokens_pair [of "cmd_key c" "cmd_value c"] show ?thesis
    by (simp add: wf_command_def format_command_def tokens_single)
next
  case Get
  with assms tokens_pair [of "''GET''" "cmd_key c"] show ?thesis
    by (simp add: wf_command_def format_command_def tokens_single)
next
  case Erase
  with assms tokens_pair [of "''DELETE''" "cmd_key c"] show ?thesis
    by (simp add: wf_command_def format_command_def tokens_single)
next
  case Exists
  with assms tokens_pair [of "''EXISTS''" "cmd_key c"] show ?thesis
    by (simp add: wf_command_def format_command_def tokens_single)
next
  case Count
  with assms show ?thesis
    by (simp add: wf_command_def format_command_def tokens_single)
qed

subsection \<open>Properties\<close>

text \<open>
  Property C12. The stream-based parser is the grammar on white-space-separated
  tokens: it accepts exactly the five command shapes with their exact number of
  arguments and rejects every other line.
\<close>

theorem parse_command_grammar: "parse_command input = parse_spec (tokens input)"
  by (rule parse_command_eq_spec)

text \<open>
  Property C29. Round trip: the line written for a well-formed command parses back
  to that command, and whatever line parses, its command is well formed, so
  printing and parsing again gives the same command.
\<close>

theorem parse_format_roundtrip:
  "(wf_command c \<longrightarrow> parse_command (format_command c) = Some c) \<and>
   (\<forall>s. parse_command s = Some c \<longrightarrow> parse_command (format_command c) = parse_command s)"
  using wf_command_tokens [of c] parse_command_cases(1)
  by (auto simp: parse_command_eq_spec)


theorem parse_format_roundtrip_witness:
  "parse_command (format_command \<lparr>cmd_type = Set, cmd_key = ''k'', cmd_value = ''v''\<rparr>) =
     Some \<lparr>cmd_type = Set, cmd_key = ''k'', cmd_value = ''v''\<rparr>"
  using parse_format_roundtrip [of "\<lparr>cmd_type = Set, cmd_key = ''k'', cmd_value = ''v''\<rparr>"]
  by (simp add: wf_command_def is_token_def is_space_def)

text \<open>
  Property C30. Every command the parser yields is well typed: the fields its
  variant uses are non-empty words without white space (no newline in
  particular), the unused fields are empty, and key and value together with the
  keyword and the separators fit in the line, so the fields of a command are
  bounded by the frame they came from.
\<close>

theorem parse_command_well_typed:
  assumes "parse_command s = Some c"
  shows "wf_command c \<and> NL \<notin> set (cmd_key c @ cmd_value c) \<and>
     (cmd_type c \<noteq> Count \<longrightarrow> length (cmd_key c) + length (cmd_value c) + 4 \<le> length s) \<and>
     (cmd_type c = Set \<longrightarrow> length (cmd_key c) + length (cmd_value c) + 5 \<le> length s)"
proof -
  have "NL \<notin> set t" if "t = [] \<or> is_token t" for t
    using that by (auto simp: is_token_def is_space_def list_all_iff)
  then have "NL \<notin> set (cmd_key c @ cmd_value c)"
    using parse_command_cases(1) [OF assms] by (auto simp: wf_command_def split: if_splits)
  then show ?thesis using parse_command_cases [OF assms] by blast
qed

theorem parse_command_well_typed_witness:
  "wf_command \<lparr>cmd_type = Set, cmd_key = ''k'', cmd_value = ''v''\<rparr> \<and> (1 :: nat) + 1 + 5 \<le> length ''SET k v''"
proof -
  have "parse_command ''SET k v'' = Some \<lparr>cmd_type = Set, cmd_key = ''k'', cmd_value = ''v''\<rparr>"
    by (simp add: parse_command_def open_stream_def extract_word_def is_space_def)
  from parse_command_well_typed [OF this] show ?thesis by simp
qed

end
