(* ===== verification/Store.thy ===== *)
theory Store
  imports Prelude "HOL-Library.AList"
begin

text \<open>
  \<open>KeyValueStore\<close> (\<open>include/tcp/store.hpp\<close>, \<open>src/store.cpp\<close>). The
  \<open>std::unordered_map\<close> is a list of entries with distinct keys, so that its
  \<open>size()\<close> computes; the mathematical map it stands for is \<open>store_abs\<close>. The
  interface other components rely on is the locale \<open>kv_interface\<close>.
\<close>

record KeyValueStore =
  data_ref :: "(string \<times> string) list"

definition empty_store :: KeyValueStore where
  "empty_store = \<lparr>data_ref = []\<rparr>"

text \<open>\<open>data_[key] = value\<close> inserts a missing key and overwrites a present one.\<close>

definition store_set :: "string \<Rightarrow> string \<Rightarrow> KeyValueStore \<Rightarrow> KeyValueStore" where
  "store_set key value s = s\<lparr>data_ref := AList.update key value (data_ref s)\<rparr>"

definition store_get :: "string \<Rightarrow> KeyValueStore \<Rightarrow> string option" where
  "store_get key s =
     (case map_of (data_ref s) key of
        None \<Rightarrow> None
      | Some value \<Rightarrow> Some value)"

text \<open>\<open>data_.erase(key) > 0\<close>: whether an entry was erased, and the store after.\<close>

definition store_erase :: "string \<Rightarrow> KeyValueStore \<Rightarrow> bool \<times> KeyValueStore" where
  "store_erase key s =
     (let erased = length (filter (\<lambda>(k, v). k = key) (data_ref s))
      in (erased > 0, s\<lparr>data_ref := AList.delete key (data_ref s)\<rparr>))"

definition store_exists :: "string \<Rightarrow> KeyValueStore \<Rightarrow> bool" where
  "store_exists key s \<longleftrightarrow> map_of (data_ref s) key \<noteq> None"

text \<open>\<open>size()\<close> has type \<open>std::size_t\<close>.\<close>

definition store_count :: "KeyValueStore \<Rightarrow> 64 word" where
  "store_count s = word_of_nat (length (data_ref s))"

lemmas store_defs = empty_store_def store_set_def store_get_def store_erase_def
  store_exists_def store_count_def

subsection \<open>The map a store stands for\<close>

definition store_abs :: "KeyValueStore \<Rightarrow> string \<Rightarrow> string option" where
  "store_abs s = map_of (data_ref s)"

definition store_inv :: "KeyValueStore \<Rightarrow> bool" where
  "store_inv s \<longleftrightarrow> distinct (map fst (data_ref s))"

subsection \<open>The interface\<close>

text \<open>
  What the store promises the command executor: each operation is the expected
  operation on the map \<open>abs\<close>.
\<close>

locale kv_interface =
  fixes empty :: 's
    and set_op :: "string \<Rightarrow> string \<Rightarrow> 's \<Rightarrow> 's"
    and get_op :: "string \<Rightarrow> 's \<Rightarrow> string option"
    and erase_op :: "string \<Rightarrow> 's \<Rightarrow> bool \<times> 's"
    and exists_op :: "string \<Rightarrow> 's \<Rightarrow> bool"
    and count_op :: "'s \<Rightarrow> 64 word"
    and abs :: "'s \<Rightarrow> string \<Rightarrow> string option"
    and inv :: "'s \<Rightarrow> bool"
  assumes abs_empty: "abs empty = Map.empty"
    and abs_set: "inv s \<Longrightarrow> abs (set_op k v s) = (abs s)(k \<mapsto> v)"
    and abs_get: "inv s \<Longrightarrow> get_op k s = abs s k"
    and abs_erase: "inv s \<Longrightarrow> abs (snd (erase_op k s)) = (abs s)(k := None)"
    and erase_result: "inv s \<Longrightarrow> fst (erase_op k s) \<longleftrightarrow> k \<in> dom (abs s)"
    and abs_exists: "inv s \<Longrightarrow> exists_op k s \<longleftrightarrow> k \<in> dom (abs s)"
    and abs_count: "inv s \<Longrightarrow> count_op s = word_of_nat (card (dom (abs s)))"
    and abs_finite: "inv s \<Longrightarrow> finite (dom (abs s))"
    and inv_empty: "inv empty"
    and inv_set: "inv s \<Longrightarrow> inv (set_op k v s)"
    and inv_erase: "inv s \<Longrightarrow> inv (snd (erase_op k s))"
begin

lemmas kv_simps = abs_empty abs_set abs_get abs_erase erase_result abs_exists abs_count
lemmas kv_inv = inv_empty inv_set inv_erase

lemma get_set: "inv s \<Longrightarrow> get_op k (set_op k' v s) = (if k = k' then Some v else get_op k s)"
  by (simp add: kv_simps kv_inv)

lemma get_erase: "inv s \<Longrightarrow> get_op k (snd (erase_op k' s)) = (if k = k' then None else get_op k s)"
  by (simp add: kv_simps kv_inv)

lemma erase_twice: "inv s \<Longrightarrow> \<not> fst (erase_op k (snd (erase_op k s)))"
  by (simp add: kv_simps kv_inv)

lemma exists_get: "inv s \<Longrightarrow> exists_op k s \<longleftrightarrow> get_op k s \<noteq> None"
  by (auto simp: kv_simps)

lemma count_set:
  assumes "inv s"
  shows "count_op (set_op k v s) = (if exists_op k s then count_op s else count_op s + 1)"
  using assms abs_finite [OF assms]
  by (auto simp: kv_simps kv_inv insert_absorb)

lemma count_erase:
  assumes "inv s"
  shows "count_op (snd (erase_op k s)) = (if exists_op k s then count_op s - 1 else count_op s)"
proof (cases "k \<in> dom (abs s)")
  case True
  then have "card (dom (abs s)) = Suc (card (dom (abs s) - {k}))"
    using abs_finite [OF assms] by (metis card_Suc_Diff1)
  with True assms show ?thesis by (auto simp: kv_simps kv_inv)
next
  case False
  then have "(abs s)(k := None) = abs s" by auto
  with False assms show ?thesis by (simp add: kv_simps kv_inv)
qed

end

subsection \<open>The store implements it\<close>

lemma erase_result_dom:
  "length (filter (\<lambda>(k, v). k = key) xs) > 0 \<longleftrightarrow> key \<in> dom (map_of xs)"
  by (force simp: dom_map_of_conv_image_fst filter_empty_conv)

interpretation kv: kv_interface empty_store store_set store_get store_erase store_exists
  store_count store_abs store_inv
proof unfold_locales
  fix s :: KeyValueStore and k v
  show "store_abs empty_store = Map.empty" and "store_inv empty_store"
    by (simp_all add: store_abs_def store_inv_def store_defs)
  assume inv: "store_inv s"
  show "store_abs (store_set k v s) = (store_abs s)(k \<mapsto> v)"
    by (simp add: store_abs_def store_defs update_conv')
  show "store_get k s = store_abs s k"
    by (simp add: store_abs_def store_defs split: option.splits)
  show "store_abs (snd (store_erase k s)) = (store_abs s)(k := None)"
    by (simp add: store_abs_def store_defs delete_conv' Let_def)
  show "fst (store_erase k s) \<longleftrightarrow> k \<in> dom (store_abs s)"
    using erase_result_dom [of k "data_ref s"] by (simp add: store_abs_def store_defs Let_def)
  show "store_exists k s \<longleftrightarrow> k \<in> dom (store_abs s)"
    by (auto simp: store_abs_def store_defs)
  show "store_count s = word_of_nat (card (dom (store_abs s)))"
    using inv distinct_card [of "map fst (data_ref s)"]
    by (simp add: store_abs_def store_inv_def store_defs dom_map_of_conv_image_fst)
  show "finite (dom (store_abs s))"
    by (simp add: store_abs_def finite_dom_map_of)
  show "store_inv (store_set k v s)"
    using inv by (simp add: store_inv_def store_defs distinct_update)
  show "store_inv (snd (store_erase k s))"
    using inv by (simp add: store_inv_def store_defs distinct_delete Let_def)
qed

subsection \<open>Properties\<close>

text \<open>Sequences of mutations, and the value a key was last given.\<close>

datatype update = Put string string | Del string

fun apply_update :: "update \<Rightarrow> KeyValueStore \<Rightarrow> KeyValueStore" where
  "apply_update (Put k v) s = store_set k v s"
| "apply_update (Del k) s = snd (store_erase k s)"

fun last_write :: "string \<Rightarrow> update list \<Rightarrow> string option" where
  "last_write k [] = None"
| "last_write k (Put k' v # older) = (if k' = k then Some v else last_write k older)"
| "last_write k (Del k' # older) = (if k' = k then None else last_write k older)"

lemma store_run:
  "store_inv (foldr apply_update us empty_store) \<and>
   store_abs (foldr apply_update us empty_store) = (\<lambda>k. last_write k us)"
proof (induction us)
  case Nil
  show ?case by (simp add: kv.kv_inv kv.kv_simps)
next
  case (Cons u us)
  then show ?case by (cases u) (auto simp: kv.kv_inv kv.kv_simps)
qed

text \<open>
  Property C32. Last write wins: after any sequence of \<open>set\<close> and \<open>erase\<close> on an
  empty store (newest first), \<open>get\<close> returns the value the newest update of the key
  left, \<open>exists\<close> says whether there is one, \<open>count\<close> is the number of keys that
  have one (modulo the width of \<open>std::size_t\<close>), and \<open>erase\<close> reports whether it
  removed one.
\<close>

theorem store_last_write_wins:
  "let s = foldr apply_update us empty_store in
     store_get k s = last_write k us \<and>
     store_exists k s = (last_write k us \<noteq> None) \<and>
     store_count s = word_of_nat (card {k. last_write k us \<noteq> None}) \<and>
     fst (store_erase k s) = (last_write k us \<noteq> None)"
proof -
  let ?s = "foldr apply_update us empty_store"
  have inv: "store_inv ?s" and abs: "store_abs ?s = (\<lambda>k. last_write k us)"
    using store_run [of us] by simp_all
  show ?thesis
    using kv.abs_get [OF inv] kv.abs_exists [OF inv] kv.abs_count [OF inv] kv.erase_result [OF inv]
    by (auto simp: abs dom_def)
qed

end
