(* ===== verification/Executor.thy ===== *)
theory Executor
  imports Parser Store
begin

text \<open>
  \<open>execute_command\<close> (\<open>include/tcp/protocol/executor.hpp\<close>,
  \<open>src/protocol/executor.cpp\<close>), its specification \<open>exec_spec\<close> on mathematical
  maps, and the interface \<open>command_service\<close> through which the connection and the
  blocking handler use it. The final \<open>return "ERROR"\<close> of the code is reached by
  no enumerator and has no counterpart.
\<close>

fun execute_command :: "Command \<Rightarrow> KeyValueStore \<Rightarrow> string \<times> KeyValueStore" where
  "execute_command cmd store =
     (case cmd_type cmd of
        Set \<Rightarrow> (''OK'', store_set (cmd_key cmd) (cmd_value cmd) store)
      | Get \<Rightarrow>
          (case store_get (cmd_key cmd) store of
             None \<Rightarrow> (''NOT_FOUND'', store)
           | Some val \<Rightarrow> (val, store))
      | Erase \<Rightarrow>
          (let (erased, store') = store_erase (cmd_key cmd) store
           in if erased then (''OK'', store') else (''NOT_FOUND'', store'))
      | Exists \<Rightarrow> (if store_exists (cmd_key cmd) store then ''1'' else ''0'', store)
      | Count \<Rightarrow> (to_string (unat (store_count store)), store))"

declare execute_command.simps [simp del]

subsection \<open>Specification\<close>

type_synonym kv_map = "string \<Rightarrow> string option"

definition exec_spec :: "Command \<Rightarrow> kv_map \<Rightarrow> string \<times> kv_map" where
  "exec_spec cmd m =
     (case cmd_type cmd of
        Set \<Rightarrow> (''OK'', m(cmd_key cmd \<mapsto> cmd_value cmd))
      | Get \<Rightarrow> (case m (cmd_key cmd) of None \<Rightarrow> ''NOT_FOUND'' | Some v \<Rightarrow> v, m)
      | Erase \<Rightarrow> (if cmd_key cmd \<in> dom m then ''OK'' else ''NOT_FOUND'', m(cmd_key cmd := None))
      | Exists \<Rightarrow> (if cmd_key cmd \<in> dom m then ''1'' else ''0'', m)
      | Count \<Rightarrow> (to_string (card (dom m) mod 2 ^ 64), m))"

text \<open>
  The contract of a command service on states with an abstraction to maps:
  every command answers and acts as \<open>exec_spec\<close>.
\<close>

locale command_service =
  fixes exec :: "Command \<Rightarrow> 's \<Rightarrow> string \<times> 's"
    and abs :: "'s \<Rightarrow> kv_map"
    and inv :: "'s \<Rightarrow> bool"
  assumes exec_refines: "inv s \<Longrightarrow> (fst (exec c s), abs (snd (exec c s))) = exec_spec c (abs s)"
    and exec_inv: "inv s \<Longrightarrow> inv (snd (exec c s))"
    and inv_finite: "inv s \<Longrightarrow> finite (dom (abs s))"
begin

lemma exec_fst: "inv s \<Longrightarrow> fst (exec c s) = fst (exec_spec c (abs s))"
  using exec_refines [of s c] by (metis fst_conv)

lemma exec_snd: "inv s \<Longrightarrow> abs (snd (exec c s)) = snd (exec_spec c (abs s))"
  using exec_refines [of s c] by (metis snd_conv)

text \<open>Only \<open>Set\<close> and \<open>Erase\<close> change the state, and only at their key.\<close>

lemma exec_frame:
  assumes "inv s" and "k \<noteq> cmd_key c \<or> cmd_type c \<in> {Get, Exists, Count}"
  shows "abs (snd (exec c s)) k = abs s k"
  using assms by (auto simp: exec_snd exec_spec_def split: CommandType.splits)

text \<open>A reply is a fixed word, a count, or a stored value.\<close>

lemma exec_reply_cases:
  assumes "inv s"
  obtains (word) "fst (exec c s) \<in> {''OK'', ''NOT_FOUND'', ''1'', ''0''}"
  | (val) v where "cmd_type c = Get" "abs s (cmd_key c) = Some v" "fst (exec c s) = v"
  | (count) n where "fst (exec c s) = to_string n" "n < 2 ^ 64"
  using assms
  by (cases "cmd_type c"; cases "abs s (cmd_key c)")
     (auto simp: exec_fst exec_spec_def)

text \<open>A property of all stored values survives when the values set have it.\<close>

lemma exec_values:
  assumes "inv s" and "\<forall>v\<in>ran (abs s). P v" and "cmd_type c = Set \<Longrightarrow> P (cmd_value c)"
  shows "\<forall>v\<in>ran (abs (snd (exec c s))). P v"
  using assms
  by (auto simp: exec_snd exec_spec_def ran_def split: CommandType.splits if_splits)

end

interpretation svc: command_service execute_command store_abs store_inv
proof unfold_locales
  fix s :: KeyValueStore and c
  assume inv: "store_inv s"
  show "(fst (execute_command c s), store_abs (snd (execute_command c s))) = exec_spec c (store_abs s)"
    using inv kv.erase_result [OF inv, of "cmd_key c"] kv.abs_erase [OF inv, of "cmd_key c"]
    by (auto simp: execute_command.simps exec_spec_def kv.kv_simps case_prod_beta unat_of_nat
        split: CommandType.splits option.splits)
  show "store_inv (snd (execute_command c s))"
    using inv
    by (auto simp: execute_command.simps kv.kv_inv case_prod_beta
        split: CommandType.splits option.splits)
  show "finite (dom (store_abs s))"
    using inv by (rule kv.abs_finite)
qed

subsection \<open>Serving frames\<close>

text \<open>
  The reference behaviour of the protocol, one frame at a time: the reply line
  of a frame with its newline, and a run of frames with the concatenated reply
  lines.
\<close>

definition invalid_reply :: string where
  "invalid_reply = ''INVALID COMMAND MESSAGE''"

definition respond :: "string \<Rightarrow> KeyValueStore \<Rightarrow> string \<times> KeyValueStore" where
  "respond frame store =
     (case parse_command frame of
        None \<Rightarrow> (invalid_reply @ [NL], store)
      | Some cmd \<Rightarrow> (let (r, store') = execute_command cmd store in (r @ [NL], store')))"

fun serve :: "string list \<Rightarrow> KeyValueStore \<Rightarrow> string \<times> KeyValueStore" where
  "serve [] store = ([], store)"
| "serve (f # fs) store =
     (let (r, store1) = respond f store; (out, store2) = serve fs store1 in (r @ out, store2))"

lemma serve_append:
  "serve (fs @ gs) st =
     (let (o1, s1) = serve fs st; (o2, s2) = serve gs s1 in (o1 @ o2, s2))"
  by (induction fs arbitrary: st) (simp_all add: case_prod_beta Let_def)

lemma serve_snoc:
  "serve (fs @ [f]) st =
     (fst (serve fs st) @ fst (respond f (snd (serve fs st))), snd (respond f (snd (serve fs st))))"
  by (simp add: serve_append case_prod_beta Let_def)

subsection \<open>Bounds on stored values and replies\<close>

text \<open>
  Stores whose values fit a frame: every value is shorter than 64 KiB and holds
  no newline.
\<close>

definition store_ok :: "KeyValueStore \<Rightarrow> bool" where
  "store_ok s \<longleftrightarrow> store_inv s \<and> (\<forall>v\<in>ran (store_abs s). length v < 65536 \<and> NL \<notin> set v)"

lemma store_ok_empty: "store_ok empty_store"
  by (simp add: store_ok_def kv.kv_inv kv.kv_simps)

lemma is_token_no_nl: "is_token t \<Longrightarrow> NL \<notin> set t"
  by (auto simp: is_token_def list_all_iff is_space_def)

lemma count_reply_length:
  assumes "n < 2 ^ 64"
  shows "length (to_string n) \<le> 20"
proof -
  have "(2 :: nat) ^ 64 \<le> 10 ^ Suc 19" by simp
  with assms have "n < 10 ^ Suc 19" by (rule less_le_trans)
  then have "length (to_string n) \<le> Suc 19" by (rule to_string_length)
  then show ?thesis by simp
qed

lemma execute_ok:
  assumes "store_ok s" and "wf_command c" and "cmd_type c = Set \<Longrightarrow> length (cmd_value c) < 65536"
  shows "store_ok (snd (execute_command c s))"
    and "length (fst (execute_command c s)) < 65536"
    and "NL \<notin> set (fst (execute_command c s))"
proof -
  have inv: "store_inv s" and vals: "\<forall>v\<in>ran (store_abs s). length v < 65536 \<and> NL \<notin> set v"
    using assms(1) by (auto simp: store_ok_def)
  have "cmd_type c = Set \<Longrightarrow> length (cmd_value c) < 65536 \<and> NL \<notin> set (cmd_value c)"
    using assms(2,3) is_token_no_nl by (auto simp: wf_command_def split: if_splits)
  with svc.exec_values [OF inv vals]
  have "\<forall>v\<in>ran (store_abs (snd (execute_command c s))). length v < 65536 \<and> NL \<notin> set v"
    by blast
  then show "store_ok (snd (execute_command c s))"
    using svc.exec_inv [OF inv] by (simp add: store_ok_def)
  have "length (fst (execute_command c s)) < 65536 \<and> NL \<notin> set (fst (execute_command c s))"
  proof (cases rule: svc.exec_reply_cases [OF inv, of c, case_names word val count])
    case word
    then show ?thesis by auto
  next
    case (val v)
    with vals show ?thesis by (auto simp: ran_def)
  next
    case (count n)
    with count_reply_length [of n] to_string_no_nl [of n] show ?thesis by simp
  qed
  then show "length (fst (execute_command c s)) < 65536" "NL \<notin> set (fst (execute_command c s))"
    by simp_all
qed

lemma respond_ok:
  assumes "store_ok s" and "length f < 65536"
  shows "store_ok (snd (respond f s))"
    and "\<exists>line. fst (respond f s) = line @ [NL] \<and> NL \<notin> set line \<and> length line < 65536"
proof -
  have "store_ok (snd (respond f s)) \<and>
    (\<exists>line. fst (respond f s) = line @ [NL] \<and> NL \<notin> set line \<and> length line < 65536)"
  proof (cases "parse_command f")
    case None
    with assms show ?thesis by (simp add: respond_def invalid_reply_def)
  next
    case (Some c)
    note c = parse_command_cases [OF Some]
    have "cmd_type c = Set \<Longrightarrow> length (cmd_value c) < 65536"
      using c(3) assms(2) by simp
    from execute_ok [OF assms(1) c(1) this] Some show ?thesis
      by (simp add: respond_def case_prod_beta)
  qed
  then show "store_ok (snd (respond f s))"
    and "\<exists>line. fst (respond f s) = line @ [NL] \<and> NL \<notin> set line \<and> length line < 65536"
    by simp_all
qed

lemma respond_length:
  "store_ok s \<Longrightarrow> length f < 65536 \<Longrightarrow> length (fst (respond f s)) \<le> 65536"
  using respond_ok(2) [of s f] by auto

lemma serve_ok:
  assumes "store_ok s" and "\<forall>f\<in>set fs. length f < 65536"
  shows "store_ok (snd (serve fs s))"
    and "\<exists>ls. fst (serve fs s) = join_lines ls \<and> length ls = length fs \<and> (\<forall>l\<in>set ls. NL \<notin> set l \<and> length l < 65536)"
proof -
  have "store_ok (snd (serve fs s)) \<and>
    (\<exists>ls. fst (serve fs s) = join_lines ls \<and> length ls = length fs \<and> (\<forall>l\<in>set ls. NL \<notin> set l \<and> length l < 65536))"
    using assms
  proof (induction fs arbitrary: s)
    case Nil
    then show ?case by simp
  next
    case (Cons f fs)
    let ?s1 = "snd (respond f s)"
    obtain line where line: "fst (respond f s) = line @ [NL]" "NL \<notin> set line" "length line < 65536"
      using respond_ok(2) [of s f] Cons.prems by auto
    have s1: "store_ok ?s1"
      using respond_ok(1) [of s f] Cons.prems by simp
    then obtain ls where ls: "fst (serve fs ?s1) = join_lines ls" "length ls = length fs"
      "\<forall>l\<in>set ls. NL \<notin> set l \<and> length l < 65536"
      using Cons.IH [OF s1] Cons.prems by auto
    have "fst (serve (f # fs) s) = join_lines (line # ls)"
      using line ls by (simp add: case_prod_beta)
    moreover have "store_ok (snd (serve (f # fs) s))"
      using Cons.IH [OF s1] Cons.prems by (simp add: case_prod_beta)
    ultimately show ?case
      using line(2,3) ls by (auto intro!: exI [of _ "line # ls"])
  qed
  then show "store_ok (snd (serve fs s))"
    and "\<exists>ls. fst (serve fs s) = join_lines ls \<and> length ls = length fs \<and> (\<forall>l\<in>set ls. NL \<notin> set l \<and> length l < 65536)"
    by simp_all
qed


subsection \<open>Sequences of commands\<close>

fun run_commands :: "Command list \<Rightarrow> KeyValueStore \<Rightarrow> string list \<times> KeyValueStore" where
  "run_commands [] store = ([], store)"
| "run_commands (c # cs) store =
     (let (reply, store1) = execute_command c store; (replies, store2) = run_commands cs store1
      in (reply # replies, store2))"

fun spec_commands :: "Command list \<Rightarrow> kv_map \<Rightarrow> string list \<times> kv_map" where
  "spec_commands [] m = ([], m)"
| "spec_commands (c # cs) m =
     (let (reply, m1) = exec_spec c m; (replies, m2) = spec_commands cs m1 in (reply # replies, m2))"

lemma run_commands_refines:
  "store_inv s \<Longrightarrow>
   (fst (run_commands cs s), store_abs (snd (run_commands cs s))) = spec_commands cs (store_abs s)"
proof (induction cs arbitrary: s)
  case Nil
  then show ?case by simp
next
  case (Cons c cs)
  show ?case
    using Cons.IH [OF svc.exec_inv [OF Cons.prems, of c]] svc.exec_refines [OF Cons.prems, of c]
    by (simp add: case_prod_beta prod_eq_iff)
qed

subsection \<open>Properties\<close>

text \<open>
  Property C11. Refinement: from the empty store every sequence of commands gives
  the replies, and ends in the map, of the specification on mathematical maps.
\<close>

theorem executor_refines_map:
  "(fst (run_commands cs empty_store), store_abs (snd (run_commands cs empty_store))) =
     spec_commands cs Map.empty"
  using run_commands_refines [of empty_store cs] store_ok_empty
  by (simp add: store_ok_def kv.kv_simps)

text \<open>
  Property C31. One reply line per frame: serving frames that fit the input bound
  from the empty store produces exactly as many newline-free lines, each short
  enough for the response bound, so a client can match replies to requests by
  counting lines.
\<close>

theorem serve_one_line_each:
  assumes "\<forall>f\<in>set fs. length f < 65536"
  shows "\<exists>ls. fst (serve fs empty_store) = join_lines ls \<and> length ls = length fs \<and>
     (\<forall>l\<in>set ls. NL \<notin> set l \<and> length l < 65536)"
  using serve_ok(2) [OF store_ok_empty assms] .

theorem serve_one_line_each_witness:
  "\<exists>ls. fst (serve [''SET k v'', ''nonsense'', ''GET k''] empty_store) = join_lines ls \<and> length ls = 3"
  using serve_one_line_each [of "[''SET k v'', ''nonsense'', ''GET k'']"] by auto

end
