(* ===== verification/Kernel.thy ===== *)
theory Kernel
  imports Prelude
begin

unbundle bit_operations_syntax

text \<open>
  The system-call interface. The operating system is not part of the
  repository: it is the parameter \<open>K :: kernel\<close> of every definition that
  performs a call. A run is recorded as a \<open>history\<close>, the list of the calls
  made with their answers; the answer to a call is an arbitrary function of the
  history before it, so \<open>K\<close> ranges over all operating systems, peers and
  schedules. What the calls did to the outside world (bytes sent, descriptors
  closed, interest registered) is read off the history. Each call answers
  \<open>Inl errno\<close> for the return value -1 and \<open>Inr r\<close> otherwise.
\<close>

type_synonym errno = int
type_synonym fd = int
type_synonym time = int

abbreviation (input) EINTR :: errno where "EINTR \<equiv> 4"
abbreviation (input) EIO :: errno where "EIO \<equiv> 5"
abbreviation (input) EAGAIN :: errno where "EAGAIN \<equiv> 11"
abbreviation (input) EWOULDBLOCK :: errno where "EWOULDBLOCK \<equiv> 11"
abbreviation (input) ENONET :: errno where "ENONET \<equiv> 64"
abbreviation (input) EPROTO :: errno where "EPROTO \<equiv> 71"
abbreviation (input) ENOPROTOOPT :: errno where "ENOPROTOOPT \<equiv> 92"
abbreviation (input) EOPNOTSUPP :: errno where "EOPNOTSUPP \<equiv> 95"
abbreviation (input) ENETDOWN :: errno where "ENETDOWN \<equiv> 100"
abbreviation (input) ENETUNREACH :: errno where "ENETUNREACH \<equiv> 101"
abbreviation (input) ECONNABORTED :: errno where "ECONNABORTED \<equiv> 103"
abbreviation (input) EHOSTDOWN :: errno where "EHOSTDOWN \<equiv> 112"
abbreviation (input) EHOSTUNREACH :: errno where "EHOSTUNREACH \<equiv> 113"

abbreviation (input) O_NONBLOCK :: "32 word" where "O_NONBLOCK \<equiv> 0x800"

abbreviation (input) EPOLLIN :: "32 word" where "EPOLLIN \<equiv> 0x001"
abbreviation (input) EPOLLOUT :: "32 word" where "EPOLLOUT \<equiv> 0x004"
abbreviation (input) EPOLLERR :: "32 word" where "EPOLLERR \<equiv> 0x008"
abbreviation (input) EPOLLHUP :: "32 word" where "EPOLLHUP \<equiv> 0x010"
abbreviation (input) EPOLLRDHUP :: "32 word" where "EPOLLRDHUP \<equiv> 0x2000"

datatype ctl_op = EPOLL_CTL_ADD | EPOLL_CTL_MOD | EPOLL_CTL_DEL

text \<open>\<open>struct epoll_event\<close>: the event mask and \<open>data.fd\<close>.\<close>

record epoll_event =
  events :: "32 word"
  data_fd :: fd

subsection \<open>Calls, answers, histories\<close>

datatype sys_event =
    Socket int int int "errno + fd"
  | Setsockopt_Reuse fd "errno + unit"
  | Bind_Port fd nat "errno + unit"
  | Listen fd nat "errno + unit"
  | Connect fd nat "errno + unit"
  | Accept fd "errno + fd"
  | Getfl fd "errno + 32 word"
  | Setfl fd "32 word" "errno + unit"
  | Close fd
  | Recv fd nat "errno + string"
  | Send fd string "errno + nat"
  | Getsockopt_Error fd "errno + int"
  | Epoll_Create "errno + fd"
  | Epoll_Ctl fd ctl_op fd "epoll_event option" "errno + unit"
  | Epoll_Wait fd int "errno + epoll_event option"
  | Now time
  | Report string errno
  | Stderr string
  | Stdout string
  | Getline "string option"

type_synonym history = "sys_event list"

record kernel =
  k_socket :: "history \<Rightarrow> int \<Rightarrow> int \<Rightarrow> int \<Rightarrow> errno + fd"
  k_setsockopt :: "history \<Rightarrow> fd \<Rightarrow> errno + unit"
  k_bind :: "history \<Rightarrow> fd \<Rightarrow> nat \<Rightarrow> errno + unit"
  k_listen :: "history \<Rightarrow> fd \<Rightarrow> nat \<Rightarrow> errno + unit"
  k_connect :: "history \<Rightarrow> fd \<Rightarrow> nat \<Rightarrow> errno + unit"
  k_accept :: "history \<Rightarrow> fd \<Rightarrow> errno + fd"
  k_getfl :: "history \<Rightarrow> fd \<Rightarrow> errno + 32 word"
  k_setfl :: "history \<Rightarrow> fd \<Rightarrow> 32 word \<Rightarrow> errno + unit"
  k_recv :: "history \<Rightarrow> fd \<Rightarrow> nat \<Rightarrow> errno + string"
  k_send :: "history \<Rightarrow> fd \<Rightarrow> string \<Rightarrow> errno + nat"
  k_sockerr :: "history \<Rightarrow> fd \<Rightarrow> errno + int"
  k_epoll_create :: "history \<Rightarrow> errno + fd"
  k_epoll_ctl :: "history \<Rightarrow> fd \<Rightarrow> ctl_op \<Rightarrow> fd \<Rightarrow> epoll_event option \<Rightarrow> errno + unit"
  k_epoll_wait :: "history \<Rightarrow> fd \<Rightarrow> int \<Rightarrow> errno + epoll_event option"
  k_now :: "history \<Rightarrow> time"
  k_getline :: "history \<Rightarrow> string option"

definition sys_socket :: "kernel \<Rightarrow> int \<Rightarrow> int \<Rightarrow> int \<Rightarrow> history \<Rightarrow> (errno + fd) \<times> history" where
  "sys_socket K family ty pr h =
     (let r = k_socket K h family ty pr in (r, h @ [Socket family ty pr r]))"

definition sys_setsockopt :: "kernel \<Rightarrow> fd \<Rightarrow> history \<Rightarrow> (errno + unit) \<times> history" where
  "sys_setsockopt K fd h = (let r = k_setsockopt K h fd in (r, h @ [Setsockopt_Reuse fd r]))"

definition sys_bind :: "kernel \<Rightarrow> fd \<Rightarrow> nat \<Rightarrow> history \<Rightarrow> (errno + unit) \<times> history" where
  "sys_bind K fd port h = (let r = k_bind K h fd port in (r, h @ [Bind_Port fd port r]))"

definition sys_listen :: "kernel \<Rightarrow> fd \<Rightarrow> nat \<Rightarrow> history \<Rightarrow> (errno + unit) \<times> history" where
  "sys_listen K fd backlog h =
     (let r = k_listen K h fd backlog in (r, h @ [Listen fd backlog r]))"

definition sys_connect :: "kernel \<Rightarrow> fd \<Rightarrow> nat \<Rightarrow> history \<Rightarrow> (errno + unit) \<times> history" where
  "sys_connect K fd addr h = (let r = k_connect K h fd addr in (r, h @ [Connect fd addr r]))"

definition sys_accept :: "kernel \<Rightarrow> fd \<Rightarrow> history \<Rightarrow> (errno + fd) \<times> history" where
  "sys_accept K fd h = (let r = k_accept K h fd in (r, h @ [Accept fd r]))"

definition sys_getfl :: "kernel \<Rightarrow> fd \<Rightarrow> history \<Rightarrow> (errno + 32 word) \<times> history" where
  "sys_getfl K fd h = (let r = k_getfl K h fd in (r, h @ [Getfl fd r]))"

definition sys_setfl :: "kernel \<Rightarrow> fd \<Rightarrow> 32 word \<Rightarrow> history \<Rightarrow> (errno + unit) \<times> history" where
  "sys_setfl K fd flags h = (let r = k_setfl K h fd flags in (r, h @ [Setfl fd flags r]))"

definition sys_close :: "fd \<Rightarrow> history \<Rightarrow> history" where
  "sys_close fd h = h @ [Close fd]"

definition sys_recv :: "kernel \<Rightarrow> fd \<Rightarrow> nat \<Rightarrow> history \<Rightarrow> (errno + string) \<times> history" where
  "sys_recv K fd n h = (let r = k_recv K h fd n in (r, h @ [Recv fd n r]))"

definition sys_send :: "kernel \<Rightarrow> fd \<Rightarrow> string \<Rightarrow> history \<Rightarrow> (errno + nat) \<times> history" where
  "sys_send K fd bs h = (let r = k_send K h fd bs in (r, h @ [Send fd bs r]))"

definition sys_sockerr :: "kernel \<Rightarrow> fd \<Rightarrow> history \<Rightarrow> (errno + int) \<times> history" where
  "sys_sockerr K fd h = (let r = k_sockerr K h fd in (r, h @ [Getsockopt_Error fd r]))"

definition sys_epoll_create :: "kernel \<Rightarrow> history \<Rightarrow> (errno + fd) \<times> history" where
  "sys_epoll_create K h = (let r = k_epoll_create K h in (r, h @ [Epoll_Create r]))"

definition sys_epoll_ctl ::
  "kernel \<Rightarrow> fd \<Rightarrow> ctl_op \<Rightarrow> fd \<Rightarrow> epoll_event option \<Rightarrow> history \<Rightarrow> (errno + unit) \<times> history" where
  "sys_epoll_ctl K ep op fd ev h =
     (let r = k_epoll_ctl K h ep op fd ev in (r, h @ [Epoll_Ctl ep op fd ev r]))"

definition sys_epoll_wait ::
  "kernel \<Rightarrow> fd \<Rightarrow> int \<Rightarrow> history \<Rightarrow> (errno + epoll_event option) \<times> history" where
  "sys_epoll_wait K ep timeout h =
     (let r = k_epoll_wait K h ep timeout in (r, h @ [Epoll_Wait ep timeout r]))"

definition sys_now :: "kernel \<Rightarrow> history \<Rightarrow> time \<times> history" where
  "sys_now K h = (let t = k_now K h in (t, h @ [Now t]))"

definition sys_getline :: "kernel \<Rightarrow> history \<Rightarrow> string option \<times> history" where
  "sys_getline K h = (let r = k_getline K h in (r, h @ [Getline r]))"

lemmas sys_defs = sys_socket_def sys_setsockopt_def sys_bind_def sys_listen_def
  sys_connect_def sys_accept_def sys_getfl_def sys_setfl_def sys_close_def sys_recv_def
  sys_send_def sys_sockerr_def sys_epoll_create_def sys_epoll_ctl_def sys_epoll_wait_def
  sys_now_def sys_getline_def

lemmas sys_eqs = sys_defs [unfolded Let_def]

subsection \<open>What a history says about the outside world\<close>

text \<open>
  \<open>tx fd h\<close> and \<open>rx fd h\<close>: the bytes the kernel accepted from, and delivered
  to, the program on a descriptor. \<open>closed h\<close>: the descriptors closed, in
  order. \<open>accepted h\<close>: those handed out by \<open>accept\<close>.
\<close>

fun tx1 :: "fd \<Rightarrow> sys_event \<Rightarrow> string" where
  "tx1 fd (Send fd' bs (Inr n)) = (if fd' = fd then take n bs else [])"
| "tx1 fd _ = []"

fun rx1 :: "fd \<Rightarrow> sys_event \<Rightarrow> string" where
  "rx1 fd (Recv fd' n (Inr bs)) = (if fd' = fd then bs else [])"
| "rx1 fd _ = []"

fun closed1 :: "sys_event \<Rightarrow> fd list" where
  "closed1 (Close fd) = [fd]"
| "closed1 _ = []"

fun accepted1 :: "sys_event \<Rightarrow> fd list" where
  "accepted1 (Accept _ (Inr fd)) = [fd]"
| "accepted1 _ = []"

definition tx :: "fd \<Rightarrow> history \<Rightarrow> string" where
  "tx fd h = concat (map (tx1 fd) h)"

definition rx :: "fd \<Rightarrow> history \<Rightarrow> string" where
  "rx fd h = concat (map (rx1 fd) h)"

definition closed :: "history \<Rightarrow> fd list" where
  "closed h = concat (map closed1 h)"

definition accepted :: "history \<Rightarrow> fd list" where
  "accepted h = concat (map accepted1 h)"

text \<open>
  The interest registered with epoll instance \<open>ep\<close>: \<open>EPOLL_CTL_ADD\<close> and
  \<open>EPOLL_CTL_MOD\<close> set the mask, \<open>EPOLL_CTL_DEL\<close> and closing the (never
  duplicated) descriptor remove the registration.
\<close>

fun interest1 :: "fd \<Rightarrow> (fd \<Rightarrow> 32 word option) \<Rightarrow> sys_event \<Rightarrow> (fd \<Rightarrow> 32 word option)" where
  "interest1 ep m (Epoll_Ctl ep' op fd ev (Inr _)) =
     (if ep' = ep
      then m(fd := (case op of EPOLL_CTL_DEL \<Rightarrow> None | _ \<Rightarrow> map_option events ev))
      else m)"
| "interest1 ep m (Close fd) = m(fd := None)"
| "interest1 ep m _ = m"

definition interest :: "fd \<Rightarrow> history \<Rightarrow> fd \<Rightarrow> 32 word option" where
  "interest ep h = foldl (interest1 ep) (\<lambda>_. None) h"

text \<open>The descriptors handed out and not closed since.\<close>

fun open1 :: "fd set \<Rightarrow> sys_event \<Rightarrow> fd set" where
  "open1 A (Socket _ _ _ (Inr fd)) = insert fd A"
| "open1 A (Accept _ (Inr fd)) = insert fd A"
| "open1 A (Epoll_Create (Inr fd)) = insert fd A"
| "open1 A (Close fd) = A - {fd}"
| "open1 A _ = A"

definition open_fds :: "history \<Rightarrow> fd set" where
  "open_fds h = foldl open1 {} h"

lemma open_fds_append [simp]: "open_fds (h @ es) = foldl open1 (open_fds h) es"
  by (simp add: open_fds_def)

lemma open_fds_Nil [simp]: "open_fds [] = {}"
  by (simp add: open_fds_def)

text \<open>The observations of a call whose answer is not known.\<close>

lemma observe_answer:
  "tx1 fd (Send fd' bs r) = (case r of Inl _ \<Rightarrow> [] | Inr n \<Rightarrow> if fd' = fd then take n bs else [])"
  "rx1 fd (Recv fd' k q) = (case q of Inl _ \<Rightarrow> [] | Inr b \<Rightarrow> if fd' = fd then b else [])"
  "interest1 ep m (Epoll_Ctl ep' op fd' ev u) =
     (case u of Inl _ \<Rightarrow> m | Inr _ \<Rightarrow> if ep' = ep
        then m(fd' := (case op of EPOLL_CTL_DEL \<Rightarrow> None | _ \<Rightarrow> map_option events ev)) else m)"
  by (cases r; cases q; cases u; simp)+

lemma history_Nil [simp]:
  "tx fd [] = []" "rx fd [] = []" "closed [] = []" "accepted [] = []" "interest ep [] = (\<lambda>_. None)"
  by (simp_all add: tx_def rx_def closed_def accepted_def interest_def)

lemma history_append [simp]:
  "tx fd (h @ h') = tx fd h @ tx fd h'"
  "rx fd (h @ h') = rx fd h @ rx fd h'"
  "closed (h @ h') = closed h @ closed h'"
  "accepted (h @ h') = accepted h @ accepted h'"
  by (simp_all add: tx_def rx_def closed_def accepted_def)

lemma history_Cons [simp]:
  "tx fd (e # h) = tx1 fd e @ tx fd h"
  "rx fd (e # h) = rx1 fd e @ rx fd h"
  "closed (e # h) = closed1 e @ closed h"
  "accepted (e # h) = accepted1 e @ accepted h"
  by (simp_all add: tx_def rx_def closed_def accepted_def)

lemma interest_append [simp]:
  "interest ep (h @ es) = foldl (interest1 ep) (interest ep h) es"
  by (simp add: interest_def)

subsection \<open>Frames: histories that leave an observation alone\<close>

text \<open>
  \<open>grows P h h'\<close>: \<open>h'\<close> extends \<open>h\<close> by events that all satisfy \<open>P\<close>.
\<close>

definition grows :: "(sys_event \<Rightarrow> bool) \<Rightarrow> history \<Rightarrow> history \<Rightarrow> bool" where
  "grows P h h' \<longleftrightarrow> (\<exists>es. h' = h @ es \<and> list_all P es)"

lemma grows_refl [simp, intro]: "grows P h h"
  by (simp add: grows_def)

lemma grows_snoc [intro]: "grows P h h' \<Longrightarrow> P e \<Longrightarrow> grows P h (h' @ [e])"
  by (auto simp: grows_def)

lemma grows_trans [trans]: "grows P h h' \<Longrightarrow> grows P h' h'' \<Longrightarrow> grows P h h''"
  by (auto simp: grows_def)

lemma grows_mono: "grows P h h' \<Longrightarrow> (\<And>e. P e \<Longrightarrow> Q e) \<Longrightarrow> grows Q h h'"
  by (auto simp: grows_def list.pred_mono_strong)

lemma grows_tx: "grows (\<lambda>e. tx1 fd e = []) h h' \<Longrightarrow> tx fd h' = tx fd h"
  by (auto simp: grows_def tx_def list_all_iff)

lemma grows_rx: "grows (\<lambda>e. rx1 fd e = []) h h' \<Longrightarrow> rx fd h' = rx fd h"
  by (auto simp: grows_def rx_def list_all_iff)

lemma grows_closed: "grows (\<lambda>e. closed1 e = []) h h' \<Longrightarrow> closed h' = closed h"
  by (auto simp: grows_def closed_def list_all_iff)

lemma grows_accepted: "grows (\<lambda>e. accepted1 e = []) h h' \<Longrightarrow> accepted h' = accepted h"
  by (auto simp: grows_def accepted_def list_all_iff)

lemma grows_interest:
  assumes "grows (\<lambda>e. \<forall>m. interest1 ep m e fd = m fd) h h'"
  shows "interest ep h' fd = interest ep h fd"
proof -
  from assms obtain es where h': "h' = h @ es"
    and es: "\<forall>e\<in>set es. \<forall>m. interest1 ep m e fd = m fd"
    by (auto simp: grows_def list_all_iff)
  have "foldl (interest1 ep) m es fd = m fd" for m
    using es by (induction es arbitrary: m) auto
  then show ?thesis by (simp add: h' interest_def)
qed

lemma grows_open:
  assumes "grows (\<lambda>e. \<forall>A. open1 A e = A) h h'"
  shows "open_fds h' = open_fds h"
proof -
  from assms obtain es where h': "h' = h @ es" and es: "\<forall>e\<in>set es. \<forall>A. open1 A e = A"
    by (auto simp: grows_def list_all_iff)
  have "foldl open1 A es = A" for A
    using es by (induction es arbitrary: A) auto
  then show ?thesis by (simp add: h')
qed

subsection \<open>Documented behaviour the program relies on\<close>

text \<open>
  \<open>recv(fd, buf, n)\<close> delivers at most \<open>n\<close> bytes; \<open>send(fd, buf, n)\<close> accepts
  at most \<open>n\<close>.
\<close>

definition recv_bounded :: "kernel \<Rightarrow> bool" where
  "recv_bounded K \<longleftrightarrow> (\<forall>h fd n bs. k_recv K h fd n = Inr bs \<longrightarrow> length bs \<le> n)"

definition send_bounded :: "kernel \<Rightarrow> bool" where
  "send_bounded K \<longleftrightarrow> (\<forall>h fd bs n. k_send K h fd bs = Inr n \<longrightarrow> n \<le> length bs)"

text \<open>A new descriptor is non-negative and not one that is still open.\<close>

definition fresh_fds :: "kernel \<Rightarrow> bool" where
  "fresh_fds K \<longleftrightarrow>
     (\<forall>h fd lfd. k_accept K h lfd = Inr fd \<longrightarrow> 0 \<le> fd \<and> fd \<notin> open_fds h) \<and>
     (\<forall>h fd a b c. k_socket K h a b c = Inr fd \<longrightarrow> 0 \<le> fd \<and> fd \<notin> open_fds h) \<and>
     (\<forall>h fd. k_epoll_create K h = Inr fd \<longrightarrow> 0 \<le> fd \<and> fd \<notin> open_fds h)"

lemma recv_boundedD: "recv_bounded K \<Longrightarrow> k_recv K h fd n = Inr bs \<Longrightarrow> length bs \<le> n"
  by (simp add: recv_bounded_def)

lemma send_boundedD: "send_bounded K \<Longrightarrow> k_send K h fd bs = Inr n \<Longrightarrow> n \<le> length bs"
  by (simp add: send_bounded_def)

text \<open>
  A kernel on which nothing happens: configuration calls succeed, nobody
  connects, sends or accepts data. Scenarios are updates of it.
\<close>

definition quiet_kernel :: kernel where
  "quiet_kernel = \<lparr>
     k_socket = \<lambda>_ _ _ _. Inr 3, k_setsockopt = \<lambda>_ _. Inr (), k_bind = \<lambda>_ _ _. Inr (),
     k_listen = \<lambda>_ _ _. Inr (), k_connect = \<lambda>_ _ _. Inr (), k_accept = \<lambda>_ _. Inl EAGAIN,
     k_getfl = \<lambda>_ _. Inr 2, k_setfl = \<lambda>_ _ _. Inr (), k_recv = \<lambda>_ _ _. Inl EAGAIN,
     k_send = \<lambda>_ _ _. Inl EAGAIN, k_sockerr = \<lambda>_ _. Inr 0, k_epoll_create = \<lambda>_. Inr 4,
     k_epoll_ctl = \<lambda>_ _ _ _ _. Inr (), k_epoll_wait = \<lambda>_ _ _. Inr None, k_now = \<lambda>_. 0,
     k_getline = \<lambda>_. None\<rparr>"

end
