(* ===== verification/Unique_Fd.thy ===== *)
theory Unique_Fd
  imports Kernel "HOL-Library.Multiset"
begin

text \<open>
  \<open>UniqueFd\<close> (\<open>include/tcp/net/unique_fd.hpp\<close>, \<open>src/net/unique_fd.cpp\<close>): the
  move-only owner of one descriptor. The value-level operations return the
  updated objects; on top of them, objects live at addresses, so that a move
  whose source is its own target can be told apart, and every sequence of
  constructions, moves and destructions is a run of \<open>ufd_step\<close>.
\<close>

subsection \<open>The class\<close>

record unique_fd =
  fd_ref :: fd

definition UniqueFd_default :: unique_fd where
  "UniqueFd_default = \<lparr>fd_ref = -1\<rparr>"

definition UniqueFd :: "fd \<Rightarrow> unique_fd" where
  "UniqueFd fd = \<lparr>fd_ref = fd\<rparr>"

definition ufd_destroy :: "unique_fd \<Rightarrow> history \<Rightarrow> history" where
  "ufd_destroy u h = (if fd_ref u \<noteq> -1 then sys_close (fd_ref u) h else h)"

text \<open>Move construction returns the new object and the moved-from one.\<close>

definition ufd_move :: "unique_fd \<Rightarrow> unique_fd \<times> unique_fd" where
  "ufd_move other = (\<lparr>fd_ref = fd_ref other\<rparr>, other\<lparr>fd_ref := -1\<rparr>)"

text \<open>Move assignment from a different object: the target, the source, the history.\<close>

definition ufd_assign ::
  "unique_fd \<Rightarrow> unique_fd \<Rightarrow> history \<Rightarrow> unique_fd \<times> unique_fd \<times> history" where
  "ufd_assign this other h =
     (let h' = (if fd_ref this \<noteq> -1 then sys_close (fd_ref this) h else h)
      in (this\<lparr>fd_ref := fd_ref other\<rparr>, other\<lparr>fd_ref := -1\<rparr>, h'))"

definition ufd_get :: "unique_fd \<Rightarrow> fd" where
  "ufd_get u = fd_ref u"

definition ufd_valid :: "unique_fd \<Rightarrow> bool" where
  "ufd_valid u \<longleftrightarrow> fd_ref u \<noteq> -1"

lemmas ufd_defs = UniqueFd_default_def UniqueFd_def ufd_destroy_def ufd_move_def
  ufd_assign_def ufd_get_def ufd_valid_def

lemma fd_ref_update [simp]: "u\<lparr>fd_ref := fd\<rparr> = \<lparr>fd_ref = fd\<rparr>" for u :: unique_fd
  by (cases u) simp

lemma ufd_get_UniqueFd [simp]: "ufd_get (UniqueFd fd) = fd"
  by (simp add: ufd_defs)

lemma ufd_destroy_UniqueFd: "fd \<noteq> -1 \<Longrightarrow> ufd_destroy (UniqueFd fd) h = h @ [Close fd]"
  by (simp add: ufd_defs sys_close_def)

subsection \<open>Objects at addresses\<close>

type_synonym addr = nat

record fd_heap =
  cells :: "addr \<Rightarrow> unique_fd option"
  trail :: history
  adopted :: "fd list" \<comment> \<open>the descriptors ever given to a constructor\<close>

datatype ufd_op =
    Default addr
  | Construct addr fd
  | Move_Construct addr addr
  | Move_Assign addr addr
  | Destroy addr

text \<open>
  One operation; \<open>None\<close> when it does not apply (constructing over a live
  object, using a dead one). \<open>Move_Assign a a\<close> is the self-assignment that
  \<open>this != &other\<close> guards.
\<close>

fun ufd_exec :: "ufd_op \<Rightarrow> fd_heap \<Rightarrow> fd_heap option" where
  "ufd_exec (Default a) s =
     (case cells s a of
        Some _ \<Rightarrow> None
      | None \<Rightarrow> Some (s\<lparr>cells := (cells s)(a \<mapsto> UniqueFd_default)\<rparr>))"
| "ufd_exec (Construct a fd) s =
     (case cells s a of
        Some _ \<Rightarrow> None
      | None \<Rightarrow> Some (s\<lparr>cells := (cells s)(a \<mapsto> UniqueFd fd), adopted := adopted s @ [fd]\<rparr>))"
| "ufd_exec (Move_Construct a b) s =
     (case (cells s a, cells s b) of
        (None, Some other) \<Rightarrow>
          (let (new, old) = ufd_move other
           in Some (s\<lparr>cells := (cells s)(a \<mapsto> new, b \<mapsto> old)\<rparr>))
      | _ \<Rightarrow> None)"
| "ufd_exec (Move_Assign a b) s =
     (case (cells s a, cells s b) of
        (Some this, Some other) \<Rightarrow>
          (if a \<noteq> b
           then (let (this', other', h') = ufd_assign this other (trail s)
                 in Some (s\<lparr>cells := (cells s)(a \<mapsto> this', b \<mapsto> other'), trail := h'\<rparr>))
           else Some s)
      | _ \<Rightarrow> None)"
| "ufd_exec (Destroy a) s =
     (case cells s a of
        None \<Rightarrow> None
      | Some u \<Rightarrow> Some (s\<lparr>cells := (cells s)(a := None), trail := ufd_destroy u (trail s)\<rparr>))"

inductive ufd_step :: "fd_heap \<Rightarrow> fd_heap \<Rightarrow> bool" where
  exec: "ufd_exec op s = Some t \<Longrightarrow> ufd_step s t"

text \<open>Each operation's guard and effect.\<close>

lemma ufd_exec_Default: "ufd_exec (Default a) s = Some t \<longleftrightarrow>
     cells s a = None \<and> t = s\<lparr>cells := (cells s)(a \<mapsto> \<lparr>fd_ref = -1\<rparr>)\<rparr>"
  by (auto simp: UniqueFd_default_def split: option.splits)

lemma ufd_exec_Construct: "ufd_exec (Construct a fd) s = Some t \<longleftrightarrow>
     cells s a = None \<and>
     t = s\<lparr>cells := (cells s)(a \<mapsto> \<lparr>fd_ref = fd\<rparr>), adopted := adopted s @ [fd]\<rparr>"
  by (auto simp: UniqueFd_def split: option.splits)

lemma ufd_exec_Move_Construct: "ufd_exec (Move_Construct a b) s = Some t \<longleftrightarrow>
     (\<exists>v. cells s a = None \<and> cells s b = Some v \<and>
       t = s\<lparr>cells := (cells s)(a \<mapsto> \<lparr>fd_ref = fd_ref v\<rparr>, b \<mapsto> \<lparr>fd_ref = -1\<rparr>)\<rparr>)"
  by (cases "cells s a"; cases "cells s b") (simp_all add: ufd_move_def eq_commute [of t])

lemma ufd_exec_Move_Assign: "ufd_exec (Move_Assign a b) s = Some t \<longleftrightarrow>
     (\<exists>u v. cells s a = Some u \<and> cells s b = Some v \<and>
       (if a = b then t = s
        else t = s\<lparr>cells := (cells s)(a \<mapsto> \<lparr>fd_ref = fd_ref v\<rparr>, b \<mapsto> \<lparr>fd_ref = -1\<rparr>),
                   trail := ufd_destroy u (trail s)\<rparr>))"
  by (cases "cells s a"; cases "cells s b"; cases "a = b")
     (simp_all add: ufd_assign_def ufd_destroy_def eq_commute [of t])

lemma ufd_exec_Destroy: "ufd_exec (Destroy a) s = Some t \<longleftrightarrow>
     (\<exists>u. cells s a = Some u \<and>
       t = s\<lparr>cells := (cells s)(a := None), trail := ufd_destroy u (trail s)\<rparr>)"
  by (auto split: option.splits)

lemmas ufd_exec_iff = ufd_exec_Default ufd_exec_Construct ufd_exec_Move_Construct
  ufd_exec_Move_Assign ufd_exec_Destroy

declare ufd_exec.simps [simp del]

lemma closed_ufd_destroy [simp]:
  "closed (ufd_destroy u h) = closed h @ (if fd_ref u = -1 then [] else [fd_ref u])"
  by (simp add: ufd_destroy_def sys_close_def)

subsection \<open>Ownership\<close>

definition owners :: "(addr \<Rightarrow> unique_fd option) \<Rightarrow> fd \<Rightarrow> addr set" where
  "owners m fd = {a. \<exists>u. m a = Some u \<and> fd_ref u = fd}"

text \<open>
  The books balance: a descriptor handed to a constructor \<open>n\<close> times has been
  closed, or is still owned by a live object, \<open>n\<close> times in total.
\<close>

definition ufd_inv :: "fd_heap \<Rightarrow> bool" where
  "ufd_inv s \<longleftrightarrow> finite (dom (cells s)) \<and>
     (\<forall>fd. fd \<noteq> -1 \<longrightarrow>
        count_list (closed (trail s)) fd + card (owners (cells s) fd) =
        count_list (adopted s) fd)"

definition ufd_start :: fd_heap where
  "ufd_start = \<lparr>cells = (\<lambda>_. None), trail = [], adopted = []\<rparr>"

lemma owners_upd [simp]:
  "owners (m(a \<mapsto> u)) fd =
     (if fd_ref u = fd then insert a (owners m fd) else owners m fd - {a})"
  by (auto simp: owners_def)

lemma owners_del [simp]: "owners (m(a := None)) fd = owners m fd - {a}"
  by (auto simp: owners_def)

lemma finite_owners [simp]: "finite (dom m) \<Longrightarrow> finite (owners m fd)"
  by (rule finite_subset [of _ "dom m"]) (auto simp: owners_def)

lemma owners_member: "m a = Some u \<Longrightarrow> a \<in> owners m fd \<longleftrightarrow> fd_ref u = fd"
  by (simp add: owners_def)

lemma owners_fresh: "m a = None \<Longrightarrow> a \<notin> owners m fd"
  by (simp add: owners_def)

lemma card_split1:
  assumes "finite A"
  shows "card A = card (A - {a}) + of_bool (a \<in> A)"
proof (cases "a \<in> A")
  case True
  with assms show ?thesis using card_Suc_Diff1 [of A a] by simp
qed simp

lemma card_split2:
  assumes "finite A" and "a \<noteq> b"
  shows "card A = card (A - {a, b}) + of_bool (a \<in> A) + of_bool (b \<in> A)"
  using card_split1 [of A a] card_split1 [of "A - {a}" b] assms
  by (simp add: Diff_insert [symmetric] insert_commute)

text \<open>How each operation moves a descriptor between the owners and the closed.\<close>

lemma owners_move:
  assumes "finite (dom m)" and "a \<noteq> b" and "m b = Some v" and "fd \<noteq> -1"
  shows "card (owners (m(a \<mapsto> \<lparr>fd_ref = fd_ref v\<rparr>, b \<mapsto> \<lparr>fd_ref = -1\<rparr>)) fd)
           + of_bool (a \<in> owners m fd) = card (owners m fd)"
proof -
  have "owners (m(a \<mapsto> \<lparr>fd_ref = fd_ref v\<rparr>, b \<mapsto> \<lparr>fd_ref = -1\<rparr>)) fd =
      (if fd_ref v = fd then insert a (owners m fd - {a, b}) else owners m fd - {a, b})"
    using assms by auto
  with assms show ?thesis
    using card_split2 [of "owners m fd" a b] owners_member [of m b v fd] by simp
qed

lemma owners_destroy:
  assumes "finite (dom m)" and "m a = Some u"
  shows "card (owners (m(a := None)) fd) + of_bool (fd_ref u = fd) = card (owners m fd)"
  using card_split1 [of "owners m fd" a] owners_member [of m a u fd] assms by simp

lemma ufd_exec_inv:
  assumes "ufd_exec op s = Some t" and "ufd_inv s"
  shows "ufd_inv t"
proof -
  have fin: "finite (dom (cells s))" and
    bal: "\<And>fd. fd \<noteq> -1 \<Longrightarrow>
      count_list (closed (trail s)) fd + card (owners (cells s) fd) = count_list (adopted s) fd"
    using assms(2) by (auto simp: ufd_inv_def)
  show ?thesis
  proof (cases op)
    case (Default a)
    with assms(1) show ?thesis
      using fin bal by (auto simp: ufd_inv_def ufd_exec_iff owners_fresh)
  next
    case (Construct a fd)
    with assms(1) show ?thesis
      using fin bal by (auto simp: ufd_inv_def ufd_exec_iff owners_fresh)
  next
    case (Move_Construct a b)
    with assms(1) obtain v where "cells s a = None" "cells s b = Some v" and
      t: "t = s\<lparr>cells := (cells s)(a \<mapsto> \<lparr>fd_ref = fd_ref v\<rparr>, b \<mapsto> \<lparr>fd_ref = -1\<rparr>)\<rparr>"
      by (auto simp: ufd_exec_iff)
    moreover from this have "a \<noteq> b" by auto
    ultimately show ?thesis
      using fin bal owners_move [of "cells s" a b v]
      by (auto simp: ufd_inv_def owners_fresh simp del: owners_upd)
  next
    case (Move_Assign a b)
    with assms(1) obtain u v where uv: "cells s a = Some u" "cells s b = Some v" and
      t: "if a = b then t = s
          else t = s\<lparr>cells := (cells s)(a \<mapsto> \<lparr>fd_ref = fd_ref v\<rparr>, b \<mapsto> \<lparr>fd_ref = -1\<rparr>),
                    trail := ufd_destroy u (trail s)\<rparr>"
      by (auto simp: ufd_exec_iff)
    show ?thesis
    proof (cases "a = b")
      case True
      with t assms(2) show ?thesis by simp
    next
      case False
      have "count_list (closed (trail t)) fd + card (owners (cells t) fd) = count_list (adopted t) fd"
        if "fd \<noteq> -1" for fd
        using owners_move [OF fin False uv(2) that] bal [OF that] False that
          owners_member [of "cells s" a u fd] uv(1) t
        by (auto simp del: owners_upd split: if_splits)
      with fin False t show ?thesis by (simp add: ufd_inv_def)
    qed
  next
    case (Destroy a)
    with assms(1) obtain u where u: "cells s a = Some u" and
      t: "t = s\<lparr>cells := (cells s)(a := None), trail := ufd_destroy u (trail s)\<rparr>"
      by (auto simp: ufd_exec_iff)
    have "count_list (closed (trail t)) fd + card (owners (cells t) fd) = count_list (adopted t) fd"
      if "fd \<noteq> -1" for fd
      using bal [OF that] owners_destroy [OF fin u, of fd] that
      by (auto simp: t simp del: owners_del split: if_splits)
    with fin show ?thesis by (simp add: ufd_inv_def t)
  qed
qed

lemma ufd_inv_start: "ufd_inv ufd_start"
  by (simp add: ufd_inv_def ufd_start_def owners_def)

interpretation ufd: invariant_system ufd_step ufd_inv
  by unfold_locales (auto elim!: ufd_step.cases intro: ufd_exec_inv)

lemma count_filter_distinct: "distinct xs \<Longrightarrow> count_list xs x \<le> 1"
  by (induction xs) (auto simp: count_list_0_iff)

lemma count_list_filter: "P x \<Longrightarrow> count_list (filter P xs) x = count_list xs x"
  by (induction xs) auto

subsection \<open>Properties\<close>

text \<open>
  Property C23. Single ownership: when no descriptor is handed to two
  constructors, then after any sequence of constructions, moves (self-moves
  included) and destructions every descriptor is either owned by at most one
  live object and not closed, or closed exactly once and owned by none.
\<close>

theorem unique_fd_single_owner:
  assumes "ufd_step\<^sup>*\<^sup>* ufd_start s" and "distinct (filter (\<lambda>fd. fd \<noteq> -1) (adopted s))"
    and "fd \<noteq> -1"
  shows "count_list (closed (trail s)) fd + card (owners (cells s) fd) \<le> 1"
proof -
  have "ufd_inv s"
    using ufd.steps_inv [OF assms(1) ufd_inv_start] .
  moreover have "count_list (adopted s) fd \<le> 1"
    using count_filter_distinct [OF assms(2), of fd] count_list_filter [of "\<lambda>fd. fd \<noteq> -1" fd "adopted s"] assms(3)
    by simp
  ultimately show ?thesis
    using assms(3) by (simp add: ufd_inv_def)
qed

text \<open>The heap after adopting descriptor 5 at address 0 and moving it to address 1.\<close>

definition moved_heap :: fd_heap where
  "moved_heap = \<lparr>cells = [0 \<mapsto> \<lparr>fd_ref = -1\<rparr>, 1 \<mapsto> \<lparr>fd_ref = 5\<rparr>], trail = [], adopted = [5]\<rparr>"

lemma moved_heap_reachable: "ufd_step\<^sup>*\<^sup>* ufd_start moved_heap"
proof -
  let ?s = "ufd_start\<lparr>cells := [0 \<mapsto> \<lparr>fd_ref = 5\<rparr>], adopted := [5]\<rparr>"
  have "ufd_exec (Construct 0 5) ufd_start = Some ?s"
    by (simp add: ufd_exec_iff ufd_start_def)
  moreover have "ufd_exec (Move_Construct 1 0) ?s = Some moved_heap"
    by (simp add: ufd_exec_iff ufd_start_def moved_heap_def fun_upd_twist)
  ultimately show ?thesis
    by (meson ufd_step.exec converse_rtranclp_into_rtranclp rtranclp.rtrancl_refl)
qed

theorem unique_fd_single_owner_witness:
  "count_list (closed (trail moved_heap)) 5 + card (owners (cells moved_heap) 5) \<le> 1"
  by (rule unique_fd_single_owner [OF moved_heap_reachable]) (simp_all add: moved_heap_def)

text \<open>
  Property C24. No leak: once every object is destroyed, each descriptor has been
  closed exactly as often as it was handed to a constructor.
\<close>

theorem unique_fd_no_leak:
  assumes "ufd_step\<^sup>*\<^sup>* ufd_start s" and "cells s = (\<lambda>_. None)" and "fd \<noteq> -1"
  shows "count_list (closed (trail s)) fd = count_list (adopted s) fd"
  using ufd.steps_inv [OF assms(1) ufd_inv_start] assms(2,3)
  by (simp add: ufd_inv_def owners_def)

theorem unique_fd_no_leak_witness:
  "count_list (closed [Close 5]) 5 = count_list [5 :: fd] 5"
proof -
  let ?s = "ufd_start\<lparr>cells := [0 \<mapsto> \<lparr>fd_ref = 5\<rparr>], adopted := [5]\<rparr>"
  let ?t = "\<lparr>cells = (\<lambda>_. None), trail = [Close 5], adopted = [5]\<rparr> :: fd_heap"
  have "ufd_exec (Construct 0 5) ufd_start = Some ?s"
    by (simp add: ufd_exec_iff ufd_start_def)
  moreover have "ufd_exec (Destroy 0) ?s = Some ?t"
    by (simp add: ufd_exec_iff ufd_start_def ufd_destroy_def sys_close_def)
  ultimately have "ufd_step\<^sup>*\<^sup>* ufd_start ?t"
    by (meson ufd_step.exec converse_rtranclp_into_rtranclp rtranclp.rtrancl_refl)
  from unique_fd_no_leak [OF this, of 5] show ?thesis by simp
qed

end
