(* ===== verification/Connection.thy ===== *)
theory Connection
  imports Executor Unique_Fd
begin

text \<open>
  \<open>tcp::server::Connection\<close> (\<open>include/tcp/server/connection.hpp\<close>,
  \<open>src/server/connection.cpp\<close>): the buffered, bounded state of one client. The
  record has the struct's fields. \<open>pending_in\<close> and \<open>pending_out\<close> are the
  suffixes behind the two cursors, the only part of the buffers that matters;
  \<open>ran\<close> says that a visit served some complete frames in order, and every
  operation is related to it.
\<close>

datatype InputResult = Ok | InputLimit | OutputLimit

record Connection =
  socket :: unique_fd
  input_buffer :: string
  input_cursor :: nat
  output_buffer :: string
  output_cursor :: nat
  read_eof :: bool
  output_paused :: bool
  last_progress :: time

definition kMaxInputBytes :: nat where "kMaxInputBytes = 64 * 1024"
definition kMaxResponseBytes :: nat where "kMaxResponseBytes = 64 * 1024"
definition kMaxOutputBytes :: nat where "kMaxOutputBytes = 128 * 1024"
definition kOutputHighWater :: nat where "kOutputHighWater = 64 * 1024"
definition kOutputLowWater :: nat where "kOutputLowWater = 32 * 1024"
definition kCommandBudget :: nat where "kCommandBudget = 32"
definition kWriteCallBudget :: nat where "kWriteCallBudget = 8"
definition kWriteChunkBytes :: nat where "kWriteChunkBytes = 4096"

lemmas k_defs = kMaxInputBytes_def kMaxResponseBytes_def kMaxOutputBytes_def
  kOutputHighWater_def kOutputLowWater_def kCommandBudget_def kWriteCallBudget_def
  kWriteChunkBytes_def

subsection \<open>Accessors\<close>

text \<open>The constructor; \<open>last_progress\<close> is initialised from the clock.\<close>

definition Connection_make :: "kernel \<Rightarrow> unique_fd \<Rightarrow> history \<Rightarrow> Connection \<times> history" where
  "Connection_make K u h =
     (let (t, h1) = sys_now K h
      in (\<lparr>socket = fst (ufd_move u), input_buffer = [], input_cursor = 0, output_buffer = [],
           output_cursor = 0, read_eof = False, output_paused = False, last_progress = t\<rparr>, h1))"

definition pending_input_bytes :: "Connection \<Rightarrow> nat" where
  "pending_input_bytes c = size_sub (length (input_buffer c)) (input_cursor c)"

definition pending_output_bytes :: "Connection \<Rightarrow> nat" where
  "pending_output_bytes c = size_sub (length (output_buffer c)) (output_cursor c)"

definition has_pending_output :: "Connection \<Rightarrow> bool" where
  "has_pending_output c \<longleftrightarrow> pending_output_bytes c \<noteq> 0"

definition has_complete_frame :: "Connection \<Rightarrow> bool" where
  "has_complete_frame c \<longleftrightarrow> find_from NL (input_buffer c) (input_cursor c) \<noteq> None"

definition has_runnable_input :: "Connection \<Rightarrow> bool" where
  "has_runnable_input c \<longleftrightarrow> \<not> output_paused c \<and> has_complete_frame c"

definition can_read :: "Connection \<Rightarrow> bool" where
  "can_read c \<longleftrightarrow> \<not> read_eof c \<and> \<not> output_paused c \<and> \<not> has_complete_frame c \<and>
     pending_input_bytes c < kMaxInputBytes"

definition update_backpressure :: "Connection \<Rightarrow> Connection" where
  "update_backpressure c =
     (let pending = pending_output_bytes c
      in if pending \<ge> kOutputHighWater then c\<lparr>output_paused := True\<rparr>
         else if pending \<le> kOutputLowWater then c\<lparr>output_paused := False\<rparr>
         else c)"

subsection \<open>Input\<close>

text \<open>Dropping the prefix before a cursor; the guards are the code's.\<close>

definition compact_input :: "Connection \<Rightarrow> Connection" where
  "compact_input c =
     (if input_cursor c \<noteq> 0
      then c\<lparr>input_buffer := drop (input_cursor c) (input_buffer c), input_cursor := 0\<rparr>
      else c)"

definition compact_output :: "Connection \<Rightarrow> Connection" where
  "compact_output c =
     (if output_cursor c \<noteq> 0
      then c\<lparr>output_buffer := drop (output_cursor c) (output_buffer c), output_cursor := 0\<rparr>
      else c)"

definition reset_drained_input :: "Connection \<Rightarrow> Connection" where
  "reset_drained_input c =
     (if input_cursor c = length (input_buffer c)
      then c\<lparr>input_buffer := [], input_cursor := 0\<rparr>
      else c)"

definition append_input :: "string \<Rightarrow> Connection \<Rightarrow> InputResult \<times> Connection" where
  "append_input bytes c =
     (let c1 = compact_input c
      in if length bytes > size_sub kMaxInputBytes (length (input_buffer c1)) then (InputLimit, c1)
         else if bytes \<noteq> [] then (Ok, c1\<lparr>input_buffer := input_buffer c1 @ bytes\<rparr>)
         else (Ok, c1))"

text \<open>
  The command loop with its remaining budget; the first component is \<open>True\<close> when
  it returned \<open>OutputLimit\<close>.
\<close>

fun process_loop ::
  "nat \<Rightarrow> Connection \<Rightarrow> KeyValueStore \<Rightarrow> bool \<times> Connection \<times> KeyValueStore" where
  "process_loop 0 c store = (False, c, store)"
| "process_loop (Suc budget) c store =
     (if output_paused c then (False, c, store)
      else case find_from NL (input_buffer c) (input_cursor c) of
        None \<Rightarrow> (False, c, store)
      | Some newline \<Rightarrow>
          (let frame = substr (input_buffer c) (input_cursor c) (newline - input_cursor c);
               c1 = c\<lparr>input_cursor := newline + 1\<rparr>;
               (reply, store1) =
                 (case parse_command frame of
                    Some command \<Rightarrow> execute_command command store
                  | None \<Rightarrow> (''INVALID COMMAND MESSAGE'', store));
               response = reply @ [NL]
           in if length response > kMaxResponseBytes \<or>
                 length response > size_sub kMaxOutputBytes (length (output_buffer c1))
              then (True, c1, store1)
              else process_loop budget
                     (update_backpressure (c1\<lparr>output_buffer := output_buffer c1 @ response\<rparr>))
                     store1))"

definition process_input ::
  "string \<Rightarrow> Connection \<Rightarrow> KeyValueStore \<Rightarrow> InputResult \<times> Connection \<times> KeyValueStore" where
  "process_input bytes c store =
     (let (admitted, c0) = append_input bytes c
      in if admitted \<noteq> Ok then (admitted, c0, store)
         else
           let c1 = update_backpressure (compact_output c0);
               (limit, c2, store') = process_loop kCommandBudget c1 store
           in if limit then (OutputLimit, c2, store')
              else
                let c3 = reset_drained_input c2
                in if pending_input_bytes c3 = kMaxInputBytes \<and> \<not> has_complete_frame c3
                   then (InputLimit, c3, store')
                   else (Ok, c3, store'))"

subsection \<open>Output\<close>

text \<open>
  The send loop with its remaining attempts; \<open>Some r\<close> is an early return of \<open>r\<close>.
\<close>

fun flush_loop ::
  "kernel \<Rightarrow> nat \<Rightarrow> Connection \<Rightarrow> history \<Rightarrow> (errno + bool) option \<times> Connection \<times> history" where
  "flush_loop K 0 c h = (None, c, h)"
| "flush_loop K (Suc attempts) c h =
     (if \<not> has_pending_output c then (None, c, h)
      else
        let remaining = pending_output_bytes c;
            requested = min remaining kWriteChunkBytes;
            (sent, h1) = sys_send K (ufd_get (socket c))
                           (take requested (drop (output_cursor c) (output_buffer c))) h
        in case sent of
             Inr n \<Rightarrow>
               (if n > 0
                then let c1 = c\<lparr>output_cursor := output_cursor c + n\<rparr>;
                         (t, h2) = sys_now K h1
                     in flush_loop K attempts (c1\<lparr>last_progress := t\<rparr>) h2
                else (Some (Inl EIO), c, h1))
           | Inl e \<Rightarrow>
               (if e = EINTR then flush_loop K attempts c h1
                else if e = EAGAIN \<or> e = EWOULDBLOCK then (Some (Inr False), c, h1)
                else (Some (Inl e), c, h1)))"

definition flush_output :: "kernel \<Rightarrow> Connection \<Rightarrow> history \<Rightarrow> (errno + bool) \<times> Connection \<times> history" where
  "flush_output K c h =
     (case flush_loop K kWriteCallBudget c h of
        (Some r, c1, h1) \<Rightarrow> (r, c1, h1)
      | (None, c1, h1) \<Rightarrow>
          (if has_pending_output c1 then (Inr False, c1, h1)
           else (Inr True, c1\<lparr>output_buffer := [], output_cursor := 0\<rparr>, h1)))"

text \<open>The loops on a positive budget that is not written as a successor.\<close>

lemma buffer_loop_unfold:
  "0 < n \<Longrightarrow> process_loop n c store = process_loop (Suc (n - 1)) c store"
  "0 < n \<Longrightarrow> flush_loop K n c h = flush_loop K (Suc (n - 1)) c h"
  by simp_all

lemmas buffer_loop_numeral = buffer_loop_unfold [unfolded process_loop.simps flush_loop.simps]

subsection \<open>Observations and invariant\<close>

definition pending_in :: "Connection \<Rightarrow> string" where
  "pending_in c = drop (input_cursor c) (input_buffer c)"

definition pending_out :: "Connection \<Rightarrow> string" where
  "pending_out c = drop (output_cursor c) (output_buffer c)"

text \<open>The two stated cursor invariants and the two buffer bounds.\<close>

definition conn_inv :: "Connection \<Rightarrow> bool" where
  "conn_inv c \<longleftrightarrow>
     input_cursor c \<le> length (input_buffer c) \<and> length (input_buffer c) \<le> kMaxInputBytes \<and>
     output_cursor c \<le> length (output_buffer c) \<and> length (output_buffer c) \<le> kMaxOutputBytes"

text \<open>The hysteresis of backpressure: what \<open>update_backpressure\<close> establishes.\<close>

definition pressure_ok :: "Connection \<Rightarrow> bool" where
  "pressure_ok c \<longleftrightarrow>
     (if output_paused c then kOutputLowWater < pending_output_bytes c
      else pending_output_bytes c < kOutputHighWater)"

lemma pending_bytes [conn_simps]:
  "conn_inv c \<Longrightarrow> pending_input_bytes c = length (pending_in c)"
  "conn_inv c \<Longrightarrow> pending_output_bytes c = length (pending_out c)"
  by (simp_all add: conn_inv_def pending_input_bytes_def pending_output_bytes_def pending_in_def
      pending_out_def)

lemma has_pending_output_iff [conn_simps]:
  "conn_inv c \<Longrightarrow> has_pending_output c \<longleftrightarrow> pending_out c \<noteq> []"
  by (simp add: has_pending_output_def pending_bytes)

lemma has_complete_frame_iff [conn_simps]:
  "has_complete_frame c \<longleftrightarrow> NL \<in> set (pending_in c)"
  by (simp add: has_complete_frame_def find_from_None_iff pending_in_def)

lemma update_backpressure_fields [simp]:
  "input_buffer (update_backpressure c) = input_buffer c"
  "input_cursor (update_backpressure c) = input_cursor c"
  "output_buffer (update_backpressure c) = output_buffer c"
  "output_cursor (update_backpressure c) = output_cursor c"
  "socket (update_backpressure c) = socket c"
  "read_eof (update_backpressure c) = read_eof c"
  "last_progress (update_backpressure c) = last_progress c"
  by (simp_all add: update_backpressure_def Let_def)

lemma pending_update_backpressure [simp]:
  "pending_in (update_backpressure c) = pending_in c"
  "pending_out (update_backpressure c) = pending_out c"
  "conn_inv (update_backpressure c) = conn_inv c"
  "pending_output_bytes (update_backpressure c) = pending_output_bytes c"
  "pending_input_bytes (update_backpressure c) = pending_input_bytes c"
  by (simp_all add: pending_in_def pending_out_def conn_inv_def pending_output_bytes_def
      pending_input_bytes_def)

lemma update_backpressure_ok [simp]: "pressure_ok (update_backpressure c)"
  by (simp add: pressure_ok_def update_backpressure_def Let_def pending_output_bytes_def k_defs)

subsection \<open>Serving complete frames in order\<close>

definition frames_in :: "Connection \<Rightarrow> string list" where
  "frames_in c = fst (split_lines (pending_in c))"

definition tail_in :: "Connection \<Rightarrow> string" where
  "tail_in c = snd (split_lines (pending_in c))"

text \<open>
  \<open>ran k c s c' s'\<close>: the first \<open>k\<close> pending frames were taken off the input and
  served against the store, in order, and their reply lines appended to the
  pending output; everything behind them is still pending.
\<close>

definition ran ::
  "nat \<Rightarrow> Connection \<Rightarrow> KeyValueStore \<Rightarrow> Connection \<Rightarrow> KeyValueStore \<Rightarrow> bool" where
  "ran k c s c' s' \<longleftrightarrow>
     k \<le> length (frames_in c) \<and> frames_in c' = drop k (frames_in c) \<and> tail_in c' = tail_in c \<and>
     pending_out c' = pending_out c @ fst (serve (take k (frames_in c)) s) \<and>
     s' = snd (serve (take k (frames_in c)) s)"

lemma pending_in_frames: "pending_in c = join_lines (frames_in c) @ tail_in c"
  by (simp add: frames_in_def tail_in_def split_lines_inverse)

lemma frames_in_Nil: "frames_in c = [] \<longleftrightarrow> NL \<notin> set (pending_in c)"
  by (simp add: frames_in_def split_lines_Nil_iff)

lemma ran_0 [simp]: "ran 0 c s c s"
  by (simp add: ran_def)

lemma ran_cong:
  assumes "ran k c s c' s'" and "pending_in d = pending_in c'" and "pending_out d = pending_out c'"
  shows "ran k c s d s'"
  using assms by (simp add: ran_def frames_in_def tail_in_def)

lemma ran_cong_left:
  assumes "ran k c s c' s'" and "pending_in c = pending_in d" and "pending_out c = pending_out d"
  shows "ran k d s c' s'"
  using assms by (simp add: ran_def frames_in_def tail_in_def)

lemma ran_trans:
  assumes "ran j c s c1 s1" and "ran k c1 s1 c2 s2"
  shows "ran (j + k) c s c2 s2"
proof -
  let ?fs = "frames_in c"
  have "serve (take (j + k) ?fs) s =
      (fst (serve (take j ?fs) s) @ fst (serve (take k (drop j ?fs)) (snd (serve (take j ?fs) s))),
       snd (serve (take k (drop j ?fs)) (snd (serve (take j ?fs) s))))"
    by (simp add: take_add serve_append case_prod_beta Let_def)
  with assms show ?thesis
    by (auto simp: ran_def add.commute)
qed

lemma split_lines_unique:
  "\<forall>f\<in>set fs. NL \<notin> set f \<Longrightarrow> NL \<notin> set t \<Longrightarrow> split_lines (join_lines fs @ t) = (fs, t)"
  by (rule split_lines_join)

lemma ran_frames:
  assumes "ran k c s c' s'"
  obtains fs where "pending_in c = join_lines fs @ pending_in c'" "\<forall>f\<in>set fs. NL \<notin> set f"
    "length fs = k" "s' = snd (serve fs s)" "pending_out c' = pending_out c @ fst (serve fs s)"
proof
  let ?fs = "take k (frames_in c)"
  have "join_lines (frames_in c) = join_lines ?fs @ join_lines (drop k (frames_in c))"
    by (metis append_take_drop_id join_lines_simps(3))
  then show "pending_in c = join_lines ?fs @ pending_in c'"
    using assms pending_in_frames [of c] pending_in_frames [of c'] by (simp add: ran_def)
  show "\<forall>f\<in>set ?fs. NL \<notin> set f"
    using split_lines_clean(1) [of _ "pending_in c"] by (auto simp: frames_in_def dest: in_set_takeD)
qed (use assms in \<open>auto simp: ran_def\<close>)

subsection \<open>The command loop\<close>

text \<open>Fields the loop leaves alone.\<close>

definition same_link :: "Connection \<Rightarrow> Connection \<Rightarrow> bool" where
  "same_link c c' \<longleftrightarrow>
     socket c' = socket c \<and> read_eof c' = read_eof c \<and> last_progress c' = last_progress c"

lemma same_link_refl [simp]: "same_link c c"
  by (simp add: same_link_def)

lemma same_link_trans: "same_link a b \<Longrightarrow> same_link b c \<Longrightarrow> same_link a c"
  by (simp add: same_link_def)

text \<open>The state inside the loop: output compacted, backpressure up to date.\<close>

definition loop_inv :: "Connection \<Rightarrow> bool" where
  "loop_inv c \<longleftrightarrow> conn_inv c \<and> output_cursor c = 0 \<and> pressure_ok c"

text \<open>One iteration, in terms of \<open>respond\<close>.\<close>

definition take_frame :: "Connection \<Rightarrow> nat \<Rightarrow> string \<Rightarrow> Connection" where
  "take_frame c newline response =
     update_backpressure
       (c\<lparr>input_cursor := newline + 1, output_buffer := output_buffer c @ response\<rparr>)"

lemma process_loop_frame:
  assumes "\<not> output_paused c" and "find_from NL (input_buffer c) (input_cursor c) = Some newline"
  shows "process_loop (Suc n) c s =
    (let frame = substr (input_buffer c) (input_cursor c) (newline - input_cursor c)
     in if length (fst (respond frame s)) > kMaxResponseBytes \<or>
           length (fst (respond frame s)) > size_sub kMaxOutputBytes (length (output_buffer c))
        then (True, c\<lparr>input_cursor := newline + 1\<rparr>, snd (respond frame s))
        else process_loop n (take_frame c newline (fst (respond frame s))) (snd (respond frame s)))"
  using assms
  by (simp add: respond_def invalid_reply_def take_frame_def case_prod_beta Let_def
      split: option.splits)

lemma find_frame:
  assumes "conn_inv c" and "find_from NL (input_buffer c) (input_cursor c) = Some newline"
  defines "frame \<equiv> substr (input_buffer c) (input_cursor c) (newline - input_cursor c)"
  shows "pending_in c = frame @ NL # drop (newline + 1) (input_buffer c)"
    and "NL \<notin> set frame" and "input_cursor c \<le> newline" and "newline < length (input_buffer c)"
    and "length frame < kMaxInputBytes"
proof -
  obtain i where i: "find_char NL (pending_in c) = Some i" "newline = input_cursor c + i"
    using assms(2) by (auto simp: find_from_def pending_in_def)
  note split = find_char_split [OF i(1)] and bound = find_char_bound [OF i(1)]
  have frame: "frame = take i (pending_in c)"
    by (simp add: frame_def substr_def i(2) pending_in_def)
  moreover have "drop (Suc i) (pending_in c) = drop (newline + 1) (input_buffer c)"
    by (simp add: pending_in_def i(2) add.commute)
  ultimately show "pending_in c = frame @ NL # drop (newline + 1) (input_buffer c)"
    and "NL \<notin> set frame"
    using split by simp_all
  show "input_cursor c \<le> newline" "newline < length (input_buffer c)"
    using bound assms(1) by (auto simp: i(2) pending_in_def conn_inv_def)
  show "length frame < kMaxInputBytes"
    using bound assms(1) by (auto simp: frame pending_in_def conn_inv_def)
qed

lemma take_frame_ran:
  fixes c :: Connection and newline :: nat
  defines "frame \<equiv> substr (input_buffer c) (input_cursor c) (newline - input_cursor c)"
  assumes inv: "loop_inv c" and free: "\<not> output_paused c"
    and found: "find_from NL (input_buffer c) (input_cursor c) = Some newline"
    and small: "length (fst (respond frame s)) \<le> kMaxResponseBytes"
  defines "c' \<equiv> take_frame c newline (fst (respond frame s))"
  shows "ran 1 c s c' (snd (respond frame s))" and "loop_inv c'" and "same_link c c'"
proof -
  have cinv: "conn_inv c" using inv by (simp add: loop_inv_def)
  note f = find_frame [OF cinv found, folded frame_def]
  have rest: "pending_in c' = drop (newline + 1) (input_buffer c)"
    by (simp add: c'_def take_frame_def pending_in_def)
  have out: "pending_out c' = pending_out c @ fst (respond frame s)"
    using inv by (simp add: c'_def take_frame_def pending_out_def loop_inv_def)
  show "ran 1 c s c' (snd (respond frame s))"
    using f(1,2) rest out
    by (simp add: ran_def frames_in_def tail_in_def split_simps case_prod_beta)
  have "length (output_buffer c) < kOutputHighWater"
    using inv free by (auto simp: loop_inv_def pressure_ok_def pending_output_bytes_def)
  then show "loop_inv c'"
    using inv f(4) small
    by (simp add: loop_inv_def c'_def take_frame_def conn_inv_def k_defs)
  show "same_link c c'"
    by (simp add: c'_def take_frame_def same_link_def)
qed

text \<open>
  The whole loop, from a store whose values fit: it never meets the output
  limit, serves a number of frames within its budget, and stops early only
  because output is paused or no complete frame is left.
\<close>

lemma process_loop_spec:
  assumes "loop_inv c" and "store_ok s"
  obtains k c' s' where "process_loop n c s = (False, c', s')" "ran k c s c' s'" "k \<le> n"
    "k < n \<longrightarrow> output_paused c' \<or> frames_in c' = []"
    "loop_inv c'" "store_ok s'" "same_link c c'"
    "0 < n \<and> \<not> output_paused c \<and> frames_in c \<noteq> [] \<longrightarrow> 0 < k"
proof -
  have "\<exists>k c' s'. process_loop n c s = (False, c', s') \<and> ran k c s c' s' \<and> k \<le> n \<and>
      (k < n \<longrightarrow> output_paused c' \<or> frames_in c' = []) \<and>
      loop_inv c' \<and> store_ok s' \<and> same_link c c' \<and>
      (0 < n \<and> \<not> output_paused c \<and> frames_in c \<noteq> [] \<longrightarrow> 0 < k)"
    using assms
  proof (induction n arbitrary: c s)
    case 0
    then show ?case by (intro exI [of _ 0] exI [of _ c] exI [of _ s]) simp
  next
    case (Suc n)
    show ?case
    proof (cases "output_paused c \<or> find_from NL (input_buffer c) (input_cursor c) = None")
      case True
      then have "process_loop (Suc n) c s = (False, c, s)" by auto
      moreover have "output_paused c \<or> frames_in c = []"
        using True by (simp add: find_from_None_iff frames_in_Nil pending_in_def)
      ultimately show ?thesis
        using Suc.prems by (intro exI [of _ 0] exI [of _ c] exI [of _ s]) simp
    next
      case False
      then obtain newline where free: "\<not> output_paused c"
        and found: "find_from NL (input_buffer c) (input_cursor c) = Some newline" by auto
      let ?frame = "substr (input_buffer c) (input_cursor c) (newline - input_cursor c)"
      let ?c1 = "take_frame c newline (fst (respond ?frame s))" and ?s1 = "snd (respond ?frame s)"
      have cinv: "conn_inv c" using Suc.prems(1) by (simp add: loop_inv_def)
      have short: "length ?frame < 65536"
        using find_frame(5) [OF cinv found] by (simp add: k_defs)
      have small: "length (fst (respond ?frame s)) \<le> kMaxResponseBytes"
        using respond_length [OF Suc.prems(2) short] by (simp add: k_defs)
      have room: "length (output_buffer c) < 65536"
        using Suc.prems(1) free
        by (auto simp: loop_inv_def pressure_ok_def pending_output_bytes_def k_defs)
      have within: "\<not> (length (fst (respond ?frame s)) > kMaxResponseBytes \<or>
          length (fst (respond ?frame s)) > size_sub kMaxOutputBytes (length (output_buffer c)))"
        using small room by (simp add: k_defs not_less)
      have step: "process_loop (Suc n) c s = process_loop n ?c1 ?s1"
        using within by (simp add: process_loop_frame [OF free found] Let_def del: process_loop.simps)
      note one = take_frame_ran [OF Suc.prems(1) free found small]
      obtain k c' s' where k: "process_loop n ?c1 ?s1 = (False, c', s')" "ran k ?c1 ?s1 c' s'"
        "k \<le> n" "k < n \<longrightarrow> output_paused c' \<or> frames_in c' = []"
        "loop_inv c'" "store_ok s'" "same_link ?c1 c'"
        using Suc.IH [OF one(2) respond_ok(1) [OF Suc.prems(2) short]] by blast
      have "ran (Suc k) c s c' s'"
        using ran_trans [OF one(1) k(2)] by simp
      moreover have "same_link c c'"
        by (rule same_link_trans [OF one(3) k(7)])
      ultimately show ?thesis
        using k step by (intro exI [of _ "Suc k"] exI [of _ c'] exI [of _ s']) simp
    qed
  qed
  with that show ?thesis by blast
qed

text \<open>
  A batch at the front of the input whose replies leave the output below the
  high-water mark is served whole, without a pause; the loop goes on behind it.
\<close>

lemma process_loop_one:
  assumes inv: "loop_inv c" and free: "\<not> output_paused c"
    and front: "pending_in c = f @ NL # rest" and clean: "NL \<notin> set f"
    and low: "length (pending_out c) + length (fst (respond f s)) < kOutputHighWater"
  obtains c' where "process_loop (Suc n) c s = process_loop n c' (snd (respond f s))"
    "pending_in c' = rest" "pending_out c' = pending_out c @ fst (respond f s)"
    "loop_inv c'" "\<not> output_paused c'"
proof -
  let ?nl = "input_cursor c + length f" and ?r = "fst (respond f s)"
  let ?c' = "take_frame c ?nl ?r"
  have found: "find_from NL (input_buffer c) (input_cursor c) = Some ?nl"
    using front clean by (simp add: find_from_def pending_in_def)
  have frame: "substr (input_buffer c) (input_cursor c) (?nl - input_cursor c) = f"
    using front by (simp add: substr_def pending_in_def)
  have out: "output_buffer c = pending_out c"
    using inv by (simp add: loop_inv_def pending_out_def)
  have small: "length ?r \<le> kMaxResponseBytes"
    using low by (simp add: k_defs)
  have within: "\<not> (length ?r > kMaxResponseBytes \<or>
      length ?r > size_sub kMaxOutputBytes (length (output_buffer c)))"
    using low by (simp add: out k_defs)
  show thesis
  proof (rule that [of ?c'])
    show "process_loop (Suc n) c s = process_loop n ?c' (snd (respond f s))"
      using within frame
      by (simp add: process_loop_frame [OF free found] Let_def del: process_loop.simps)
    have "drop (?nl + 1) (input_buffer c) = drop (length f + 1) (pending_in c)"
      by (simp add: pending_in_def add.commute)
    then show "pending_in ?c' = rest"
      unfolding front by (simp add: take_frame_def pending_in_def)
    show "pending_out ?c' = pending_out c @ ?r"
      using out inv by (simp add: take_frame_def pending_out_def loop_inv_def)
    show "loop_inv ?c'"
      using take_frame_ran(2) [OF inv free found, of s] small frame by simp
    show "\<not> output_paused ?c'"
      using free low inv out
      by (simp add: take_frame_def update_backpressure_def pending_output_bytes_def loop_inv_def Let_def)
  qed
qed

lemma process_loop_batch:
  assumes "loop_inv c" and "\<not> output_paused c"
    and "pending_in c = join_lines fs @ rest" and "\<forall>f\<in>set fs. NL \<notin> set f"
    and "length (pending_out c) + length (fst (serve fs s)) < kOutputHighWater"
  shows "\<exists>c'. process_loop (length fs + n) c s = process_loop n c' (snd (serve fs s)) \<and>
     pending_in c' = rest \<and> pending_out c' = pending_out c @ fst (serve fs s) \<and>
     loop_inv c' \<and> \<not> output_paused c'"
  using assms
proof (induction fs arbitrary: c s)
  case Nil
  then show ?case by (intro exI [of _ c]) simp
next
  case (Cons f fs)
  obtain c1 where c1: "process_loop (Suc (length fs + n)) c s = process_loop (length fs + n) c1 (snd (respond f s))"
    "pending_in c1 = join_lines fs @ rest" "pending_out c1 = pending_out c @ fst (respond f s)"
    "loop_inv c1" "\<not> output_paused c1"
    by (rule process_loop_one [of c f "join_lines fs @ rest" s "length fs + n"])
       (use Cons.prems in \<open>simp_all add: case_prod_beta\<close>)
  have "length (pending_out c1) + length (fst (serve fs (snd (respond f s)))) < kOutputHighWater"
    using Cons.prems(5) by (simp add: c1(3) case_prod_beta)
  from Cons.IH [OF c1(4,5,2) _ this] Cons.prems(4) obtain c' where
    "process_loop (length fs + n) c1 (snd (respond f s)) =
       process_loop n c' (snd (serve fs (snd (respond f s))))"
    "pending_in c' = rest" "pending_out c' = pending_out c1 @ fst (serve fs (snd (respond f s)))"
    "loop_inv c'" "\<not> output_paused c'"
    by auto
  with c1 show ?case
    by (intro exI [of _ c']) (simp add: case_prod_beta del: process_loop.simps)
qed

subsection \<open>\<open>append_input\<close> and \<open>process_input\<close>\<close>

lemma append_input_spec:
  assumes "conn_inv c"
  shows "append_input bytes c =
    (let c1 = c\<lparr>input_buffer := pending_in c, input_cursor := 0\<rparr>
     in if length (pending_in c) + length bytes > kMaxInputBytes then (InputLimit, c1)
        else (Ok, c1\<lparr>input_buffer := pending_in c @ bytes\<rparr>))"
proof -
  have "length (pending_in c) \<le> kMaxInputBytes" "input_cursor c = 0 \<longrightarrow> input_buffer c = pending_in c"
    using assms by (auto simp: conn_inv_def pending_in_def)
  then show ?thesis
    by (auto simp: append_input_def compact_input_def Let_def pending_in_def)
qed

lemma append_input_Ok:
  assumes "conn_inv c" and "length (pending_in c) + length bytes \<le> kMaxInputBytes"
  obtains c' where "append_input bytes c = (Ok, c')" "pending_in c' = pending_in c @ bytes"
    "conn_inv c'" "same_link c c'" "output_buffer c' = output_buffer c"
    "output_cursor c' = output_cursor c" "output_paused c' = output_paused c"
proof
  let ?c = "c\<lparr>input_buffer := pending_in c @ bytes, input_cursor := 0\<rparr>"
  show "append_input bytes c = (Ok, ?c)"
    using assms by (simp add: append_input_spec)
  show "pending_in ?c = pending_in c @ bytes"
    by (simp add: pending_in_def)
  show "conn_inv ?c"
    using assms by (simp add: conn_inv_def)
qed (simp_all add: same_link_def)

lemma append_input_limit:
  "conn_inv c \<Longrightarrow> length (pending_in c) + length bytes > kMaxInputBytes \<Longrightarrow>
   append_input bytes c = (InputLimit, c\<lparr>input_buffer := pending_in c, input_cursor := 0\<rparr>)"
  by (simp add: append_input_spec)

text \<open>
  One visit, from an admissible chunk and a store whose values fit. The result
  is \<open>InputLimit\<close> exactly when the remaining input is a full buffer without a
  newline, and \<open>Ok\<close> otherwise.
\<close>

lemma process_input_spec:
  assumes inv: "conn_inv c" and store: "store_ok s"
    and fits: "length (pending_in c) + length bytes \<le> kMaxInputBytes"
  obtains r k c0 c' s' where "process_input bytes c s = (r, c', s')"
    "pending_in c0 = pending_in c @ bytes" "pending_out c0 = pending_out c"
    "ran k c0 s c' s'" "k \<le> kCommandBudget"
    "k < kCommandBudget \<longrightarrow> output_paused c' \<or> frames_in c' = []"
    "conn_inv c'" "pressure_ok c'" "output_cursor c' = 0" "store_ok s'" "same_link c c'"
    "r = (if length (pending_in c') = kMaxInputBytes \<and> frames_in c' = [] then InputLimit else Ok)"
    "\<not> output_paused c \<and> pressure_ok c \<and> frames_in c0 \<noteq> [] \<longrightarrow> 0 < k"
proof -
  obtain c0 where c0: "append_input bytes c = (Ok, c0)" "pending_in c0 = pending_in c @ bytes"
    "conn_inv c0" "same_link c c0" "output_buffer c0 = output_buffer c"
    "output_cursor c0 = output_cursor c" "output_paused c0 = output_paused c"
    using append_input_Ok [OF inv fits] by metis
  define c1 where "c1 = compact_output c0"
  have c1: "pending_in c1 = pending_in c0" "pending_out c1 = pending_out c0" "conn_inv c1"
    "output_cursor c1 = 0" "same_link c0 c1"
    using c0(3)
    by (auto simp: c1_def compact_output_def pending_in_def pending_out_def conn_inv_def same_link_def)
  have linv: "loop_inv (update_backpressure c1)"
    using c1(3,4) by (simp add: loop_inv_def)
  obtain k c2 s' where loop: "process_loop kCommandBudget (update_backpressure c1) s = (False, c2, s')"
    "ran k (update_backpressure c1) s c2 s'" "k \<le> kCommandBudget"
    "k < kCommandBudget \<longrightarrow> output_paused c2 \<or> frames_in c2 = []"
    "loop_inv c2" "store_ok s'" "same_link (update_backpressure c1) c2"
    "0 < kCommandBudget \<and> \<not> output_paused (update_backpressure c1) \<and>
     frames_in (update_backpressure c1) \<noteq> [] \<longrightarrow> 0 < k"
    using process_loop_spec [OF linv store] by metis
  have "output_paused c1 = output_paused c"
    using c0(7) by (simp add: c1_def compact_output_def)
  moreover have "pending_output_bytes c1 = pending_output_bytes c"
    using c0(5,6) inv c1(2,3) by (simp add: pending_bytes pending_out_def)
  ultimately have free: "\<not> output_paused c \<and> pressure_ok c \<longrightarrow> \<not> output_paused (update_backpressure c1)"
    by (auto simp: update_backpressure_def pressure_ok_def Let_def)
  have "frames_in (update_backpressure c1) = frames_in c0"
    using c1(1) by (simp add: frames_in_def)
  with free loop(8) have progress: "\<not> output_paused c \<and> pressure_ok c \<and> frames_in c0 \<noteq> [] \<longrightarrow> 0 < k"
    by (simp add: kCommandBudget_def)
  define c3 where "c3 = reset_drained_input c2"
  have c3: "pending_in c3 = pending_in c2" "pending_out c3 = pending_out c2" "conn_inv c3"
    "output_paused c3 = output_paused c2" "output_cursor c3 = 0" "pressure_ok c3" "same_link c2 c3"
    using loop(5)
    by (auto simp: c3_def reset_drained_input_def pending_in_def pending_out_def conn_inv_def loop_inv_def pressure_ok_def
        pending_output_bytes_def same_link_def)
  let ?r = "if length (pending_in c3) = kMaxInputBytes \<and> frames_in c3 = [] then InputLimit else Ok"
  have "process_input bytes c s = (?r, c3, s')"
    using c0(1) loop(1) c3(3)
    by (simp add: process_input_def Let_def conn_simps frames_in_Nil c1_def [symmetric]
        c3_def [symmetric])
  moreover have "ran k c0 s c3 s'"
    by (rule ran_cong_left [OF ran_cong [OF loop(2) c3(1,2)]]) (simp_all add: c1)
  moreover have "same_link (update_backpressure c1) c2 \<Longrightarrow> same_link c1 c2"
    by (simp add: same_link_def)
  with c0(4) c1(5) loop(7) c3(7) have "same_link c c3"
    by (blast intro: same_link_trans)
  moreover have "frames_in c3 = frames_in c2" by (simp add: frames_in_def c3(1))
  moreover have "pending_out c0 = pending_out c"
    using c0(5,6) by (simp add: pending_out_def)
  ultimately show ?thesis
    using that c0(2) loop(3,4,6) c3 progress by simp
qed

subsection \<open>\<open>flush_output\<close>\<close>

text \<open>Fields a flush leaves alone, and the calls it makes.\<close>

definition same_input :: "Connection \<Rightarrow> Connection \<Rightarrow> bool" where
  "same_input c c' \<longleftrightarrow>
     socket c' = socket c \<and> input_buffer c' = input_buffer c \<and> input_cursor c' = input_cursor c \<and>
     read_eof c' = read_eof c \<and> output_paused c' = output_paused c"

lemma same_input_pending: "same_input c c' \<Longrightarrow> pending_in c' = pending_in c"
  by (simp add: same_input_def pending_in_def)

fun is_flush :: "fd \<Rightarrow> sys_event \<Rightarrow> bool" where
  "is_flush fd (Send fd' _ _) = (fd' = fd)"
| "is_flush fd (Now _) = True"
| "is_flush fd _ = False"

text \<open>
  \<open>flushed n fd c h r c' h'\<close>: the bytes the kernel accepted are a prefix of the
  pending output, what is left is still pending, at most \<open>n\<close> chunks moved, and
  progress is recorded only if a byte moved.
\<close>

definition flushed :: "nat \<Rightarrow> fd \<Rightarrow> Connection \<Rightarrow> history \<Rightarrow> Connection \<Rightarrow> history \<Rightarrow> bool" where
  "flushed n fd c h c' h' \<longleftrightarrow>
     (\<exists>d. tx fd h' = tx fd h @ d \<and> pending_out c = d @ pending_out c' \<and>
        length d \<le> n * kWriteChunkBytes \<and> (d = [] \<longrightarrow> last_progress c' = last_progress c)) \<and>
     conn_inv c' \<and> same_input c c' \<and> grows (is_flush fd) h h'"

lemma flushed_refl: "conn_inv c \<Longrightarrow> flushed n fd c h c h"
  by (auto simp: flushed_def same_input_def)

lemma flushed_failed:
  "conn_inv c \<Longrightarrow> flushed n fd c h c (h @ [Send fd bs (Inl e)])"
  "conn_inv c \<Longrightarrow> flushed n fd c h c (h @ [Send fd bs (Inr 0)])"
  by (auto simp: flushed_def same_input_def grows_def)

lemma flushed_trans:
  assumes "flushed m fd a h b h1" and "flushed n fd b h1 c h2"
  shows "flushed (m + n) fd a h c h2"
proof -
  obtain d where d: "tx fd h1 = tx fd h @ d" "pending_out a = d @ pending_out b"
    "length d \<le> m * kWriteChunkBytes" "d = [] \<longrightarrow> last_progress b = last_progress a"
    using assms(1) by (auto simp: flushed_def)
  obtain e where e: "tx fd h2 = tx fd h1 @ e" "pending_out b = e @ pending_out c"
    "length e \<le> n * kWriteChunkBytes" "e = [] \<longrightarrow> last_progress c = last_progress b"
    using assms(2) by (auto simp: flushed_def)
  have "\<exists>x. tx fd h2 = tx fd h @ x \<and> pending_out a = x @ pending_out c \<and>
      length x \<le> (m + n) * kWriteChunkBytes \<and> (x = [] \<longrightarrow> last_progress c = last_progress a)"
    using d e by (intro exI [of _ "d @ e"]) (simp add: add_mult_distrib)
  then show ?thesis
    using assms grows_trans by (auto simp: flushed_def same_input_def)
qed

lemma flushed_mono: "flushed m fd c h c' h' \<Longrightarrow> m \<le> n \<Longrightarrow> flushed n fd c h c' h'"
  unfolding flushed_def by (meson le_trans mult_le_mono1)

text \<open>One successful call.\<close>

lemma flushed_chunk:
  assumes "conn_inv c" and "bs = take (min (length (pending_out c)) kWriteChunkBytes) (pending_out c)"
    and "n \<le> length bs" and "0 < n"
  shows "flushed 1 fd c h (c\<lparr>output_cursor := output_cursor c + n, last_progress := t\<rparr>)
           (h @ [Send fd bs (Inr n), Now t])"
proof -
  let ?c = "c\<lparr>output_cursor := output_cursor c + n, last_progress := t\<rparr>"
  have n: "n \<le> length (pending_out c)" "n \<le> kWriteChunkBytes"
    using assms(2,3) by auto
  have "take n bs = take n (pending_out c)"
    using assms(2) n by (simp add: min_absorb1)
  moreover have "pending_out c = take n (pending_out c) @ pending_out ?c"
    by (metis append_take_drop_id drop_drop pending_out_def add.commute Connection.select_convs(4,5)
        Connection.surjective Connection.update_convs(5,8))
  moreover have "conn_inv ?c"
    using assms(1) n(1) by (auto simp: conn_inv_def pending_out_def)
  ultimately show ?thesis
    using n assms(4)
    by (auto simp: flushed_def same_input_def grows_def intro!: exI [of _ "take n (pending_out c)"])
qed

lemma flush_loop_spec:
  assumes "conn_inv c" and "send_bounded K" and "flush_loop K n c h = (r, c', h')"
  shows "flushed n (ufd_get (socket c)) c h c' h' \<and>
     (\<forall>b. r = Some (Inr b) \<longrightarrow> \<not> b \<and> pending_out c' \<noteq> [])"
  using assms
proof (induction n arbitrary: c h)
  case 0
  then show ?case by (simp add: flushed_refl)
next
  case (Suc n)
  let ?fd = "ufd_get (socket c)"
  let ?bs = "take (min (length (pending_out c)) kWriteChunkBytes) (pending_out c)"
  note inv = Suc.prems(1)
  show ?case
  proof (cases "pending_out c = []")
    case True
    with Suc.prems show ?thesis by (simp add: conn_simps flushed_refl)
  next
    case False
    have bs: "take (min (pending_output_bytes c) kWriteChunkBytes)
        (drop (output_cursor c) (output_buffer c)) = ?bs"
      using inv by (simp add: conn_simps pending_out_def)
    show ?thesis
    proof (cases "k_send K h ?fd ?bs")
      case (Inl e)
      show ?thesis
      proof (cases "e = EINTR")
        case True
        with Suc.prems False Inl bs
        have "flush_loop K n c (h @ [Send ?fd ?bs (Inl e)]) = (r, c', h')"
          by (simp add: conn_simps sys_eqs Let_def)
        from Suc.IH [OF inv Suc.prems(2) this]
        show ?thesis
          using flushed_trans [OF flushed_failed(1) [OF inv, where n = 1]] by fastforce
      next
        case False
        with Suc.prems \<open>pending_out c \<noteq> []\<close> Inl bs show ?thesis
          by (auto simp: conn_simps sys_eqs Let_def flushed_failed split: if_splits)
      qed
    next
      case (Inr m)
      show ?thesis
      proof (cases "m = 0")
        case True
        with Suc.prems False Inr bs show ?thesis
          by (auto simp: conn_simps sys_eqs Let_def flushed_failed)
      next
        case False
        let ?h1 = "h @ [Send ?fd ?bs (Inr m)]"
        let ?t = "k_now K ?h1"
        let ?c1 = "c\<lparr>output_cursor := output_cursor c + m, last_progress := ?t\<rparr>"
        have m: "m \<le> length ?bs"
          using send_boundedD [OF Suc.prems(2) Inr] .
        have chunk: "flushed 1 ?fd c h ?c1 (h @ [Send ?fd ?bs (Inr m), Now ?t])"
          using flushed_chunk [OF inv refl m] False by simp
        have run: "flush_loop K n ?c1 (h @ [Send ?fd ?bs (Inr m), Now ?t]) = (r, c', h')"
          using Suc.prems \<open>pending_out c \<noteq> []\<close> Inr bs False
          by (simp add: conn_simps sys_eqs Let_def)
        have inv1: "conn_inv ?c1"
          using chunk by (simp add: flushed_def)
        have sock: "socket ?c1 = socket c" by simp
        note IH = Suc.IH [OF inv1 Suc.prems(2) run]
        have rest: "flushed n ?fd ?c1 (h @ [Send ?fd ?bs (Inr m), Now ?t]) c' h'"
          by (rule IH [unfolded sock, THEN conjunct1])
        have res: "\<forall>b. r = Some (Inr b) \<longrightarrow> \<not> b \<and> pending_out c' \<noteq> []"
          using IH by blast
        have "flushed (1 + n) ?fd c h c' h'"
          by (rule flushed_trans [OF chunk rest])
        then have "flushed (Suc n) ?fd c h c' h'" by simp
        with res show ?thesis by blast
      qed
    qed
  qed
qed

lemma flush_output_spec:
  assumes "conn_inv c" and "send_bounded K" and "flush_output K c h = (r, c', h')"
  shows "flushed kWriteCallBudget (ufd_get (socket c)) c h c' h'"
    and "\<forall>b. r = Inr b \<longrightarrow> b = (pending_out c' = [])"
    and "r = Inr True \<longrightarrow> output_buffer c' = [] \<and> output_cursor c' = 0"
proof -
  let ?fd = "ufd_get (socket c)"
  obtain q c1 h1 where loop: "flush_loop K kWriteCallBudget c h = (q, c1, h1)"
    by (metis prod_cases3)
  note spec = flush_loop_spec [OF assms(1,2) loop]
  have inv1: "conn_inv c1" using spec by (simp add: flushed_def)
  have "flushed kWriteCallBudget ?fd c h c' h' \<and> (\<forall>b. r = Inr b \<longrightarrow> b = (pending_out c' = [])) \<and>
      (r = Inr True \<longrightarrow> output_buffer c' = [] \<and> output_cursor c' = 0)"
  proof (cases q)
    case (Some x)
    with assms(3) loop spec show ?thesis by (auto simp: flush_output_def)
  next
    case None
    show ?thesis
    proof (cases "pending_out c1 = []")
      case True
      with None assms(3) loop have res: "r = Inr True" "h' = h1"
        "c' = c1\<lparr>output_buffer := [], output_cursor := 0\<rparr>"
        by (auto simp: flush_output_def has_pending_output_iff [OF inv1])
      have "flushed 0 ?fd c1 h1 c' h1"
        using inv1 True by (auto simp: flushed_def same_input_def conn_inv_def pending_out_def res)
      with spec have "flushed (kWriteCallBudget + 0) ?fd c h c' h1"
        by (blast intro: flushed_trans)
      with res show ?thesis by (simp add: pending_out_def)
    next
      case False
      with None assms(3) loop spec show ?thesis
        by (auto simp: flush_output_def has_pending_output_iff [OF inv1])
    qed
  qed
  then show "flushed kWriteCallBudget ?fd c h c' h'"
    and "\<forall>b. r = Inr b \<longrightarrow> b = (pending_out c' = [])"
    and "r = Inr True \<longrightarrow> output_buffer c' = [] \<and> output_cursor c' = 0"
    by simp_all
qed


subsection \<open>Properties\<close>

text \<open>
  Property C5. One \<open>process_input\<close> call on an admissible chunk serves a prefix of
  the complete frames, at most the command budget, in order against the shared
  store, appends their reply lines to the pending output and keeps the rest of
  the input; it stops before the budget only because output is paused or no
  complete frame is left. It never reports the output limit, and reports the
  input limit exactly for a full buffer without a newline.
\<close>

theorem process_input_serves:
  assumes "conn_inv c" and "store_ok s"
    and "length (pending_in c) + length bytes \<le> kMaxInputBytes"
    and "process_input bytes c s = (r, c', s')"
  shows "(\<exists>fs. pending_in c @ bytes = join_lines fs @ pending_in c' \<and> (\<forall>f\<in>set fs. NL \<notin> set f) \<and>
       length fs \<le> kCommandBudget \<and>
       pending_out c' = pending_out c @ fst (serve fs s) \<and> s' = snd (serve fs s) \<and>
       (length fs < kCommandBudget \<longrightarrow> output_paused c' \<or> NL \<notin> set (pending_in c'))) \<and>
     r = (if length (pending_in c') = kMaxInputBytes \<and> NL \<notin> set (pending_in c') then InputLimit else Ok) \<and>
     conn_inv c' \<and> store_ok s' \<and> socket c' = socket c"
proof -
  obtain k c0 where spec: "pending_in c0 = pending_in c @ bytes" "pending_out c0 = pending_out c"
    "ran k c0 s c' s'" "k \<le> kCommandBudget"
    "k < kCommandBudget \<longrightarrow> output_paused c' \<or> frames_in c' = []"
    "conn_inv c'" "store_ok s'" "same_link c c'"
    "r = (if length (pending_in c') = kMaxInputBytes \<and> frames_in c' = [] then InputLimit else Ok)"
    using process_input_spec [OF assms(1-3)] assms(4) by (metis prod.inject)
  obtain fs where fs: "pending_in c0 = join_lines fs @ pending_in c'" "\<forall>f\<in>set fs. NL \<notin> set f"
    "length fs = k" "s' = snd (serve fs s)" "pending_out c' = pending_out c0 @ fst (serve fs s)"
    by (rule ran_frames [OF spec(3)])
  show ?thesis
    using spec fs by (auto simp: frames_in_Nil same_link_def intro!: exI [of _ fs])
qed

text \<open>A fresh connection with descriptor 5.\<close>

definition fresh_conn :: Connection where
  "fresh_conn = fst (Connection_make quiet_kernel (UniqueFd 5) [])"

lemma fresh_conn_ok: "conn_inv fresh_conn" "pending_in fresh_conn = []" "pending_out fresh_conn = []"
  "\<not> output_paused fresh_conn" "pressure_ok fresh_conn"
  by (simp_all add: fresh_conn_def Connection_make_def case_prod_beta conn_inv_def pending_in_def
      pending_out_def pressure_ok_def pending_output_bytes_def k_defs)

theorem process_input_serves_witness:
  "\<exists>fs rest. ''COUNT'' @ [NL] @ ''tail'' = join_lines fs @ rest \<and> length fs \<le> kCommandBudget \<and>
     store_ok (snd (serve fs empty_store))"
proof -
  have "length (pending_in fresh_conn) + length (''COUNT'' @ [NL] @ ''tail'') \<le> kMaxInputBytes"
    by (simp add: fresh_conn_ok k_defs)
  moreover obtain r c' s' where "process_input (''COUNT'' @ [NL] @ ''tail'') fresh_conn empty_store = (r, c', s')"
    by (metis prod_cases3)
  ultimately show ?thesis
    using process_input_serves [OF fresh_conn_ok(1) store_ok_empty, of "''COUNT'' @ [NL] @ ''tail''" r c' s']
    unfolding fresh_conn_ok by auto
qed

text \<open>
  Property C20. How the stream is cut into chunks does not matter: admitting two
  chunks one after the other gives the same connection, and processing then the
  same result, as admitting their concatenation.
\<close>

theorem chunking_irrelevant:
  assumes "conn_inv c" and "length (pending_in c) + length a + length b \<le> kMaxInputBytes"
  shows "fst (append_input a c) = Ok \<and>
     append_input b (snd (append_input a c)) = append_input (a @ b) c \<and>
     process_input b (snd (append_input a c)) s = process_input (a @ b) c s"
proof -
  define c1 where "c1 = c\<lparr>input_buffer := pending_in c @ a, input_cursor := 0\<rparr>"
  have c1: "append_input a c = (Ok, c1)" "pending_in c1 = pending_in c @ a" "conn_inv c1"
    using assms append_input_spec [OF assms(1), of a]
    by (simp_all add: c1_def Let_def pending_in_def conn_inv_def)
  have "append_input b c1 = append_input (a @ b) c"
    using assms(2) c1(2) append_input_spec [OF c1(3), of b] append_input_spec [OF assms(1), of "a @ b"]
    by (simp add: Let_def) (simp add: c1_def)
  then show ?thesis
    using c1(1) by (simp add: process_input_def)
qed

theorem chunking_irrelevant_witness:
  "append_input ''NT'' (snd (append_input ''COU'' fresh_conn)) = append_input ''COUNT'' fresh_conn"
  using chunking_irrelevant [OF fresh_conn_ok(1), of "''COU''" "''NT''"]
  by (simp add: fresh_conn_ok k_defs)

text \<open>
  Property C21. Admission is all or nothing: a chunk is admitted exactly when the
  pending input stays within 64 KiB, a rejected one leaves the pending input as
  it was, and \<open>process_input\<close> then runs no command.
\<close>

theorem append_input_bounded:
  assumes "conn_inv c"
  shows "(fst (append_input bytes c) = Ok \<longleftrightarrow> length (pending_in c) + length bytes \<le> kMaxInputBytes) \<and>
     pending_in (snd (append_input bytes c)) =
       (if length (pending_in c) + length bytes \<le> kMaxInputBytes then pending_in c @ bytes
        else pending_in c) \<and>
     conn_inv (snd (append_input bytes c)) \<and>
     (length (pending_in c) + length bytes > kMaxInputBytes \<longrightarrow>
        fst (process_input bytes c s) = InputLimit \<and> snd (snd (process_input bytes c s)) = s \<and>
        pending_in (fst (snd (process_input bytes c s))) = pending_in c \<and>
        pending_out (fst (snd (process_input bytes c s))) = pending_out c)"
proof -
  have "length (pending_in c) \<le> kMaxInputBytes"
    using assms by (auto simp: conn_inv_def pending_in_def)
  then show ?thesis
    using assms append_input_spec [OF assms, of bytes]
    by (auto simp: process_input_def Let_def conn_inv_def pending_in_def pending_out_def)
qed

theorem append_input_bounded_witness:
  "fst (append_input (replicate 65537 CHR ''x'') fresh_conn) \<noteq> Ok"
  using append_input_bounded [OF fresh_conn_ok(1), of "replicate 65537 CHR ''x''"]
  by (simp add: fresh_conn_ok k_defs)

text \<open>
  Property C22. The defensive output limit inside a batch: when the replies to a
  first part of the batch keep the output below the high-water mark and the reply
  to the frame behind it exceeds the response bound, \<open>process_input\<close> returns
  \<open>OutputLimit\<close>. The frames before are executed and their replies are pending, the
  effects of all of them on the shared store are kept, the offending frame is
  consumed without a reply, and the frames behind it stay pending, not executed.
\<close>

theorem oversized_reply_stops:
  assumes "conn_inv c" and "pressure_ok c" and "\<not> output_paused c"
    and "pending_in c = join_lines fs @ frame @ NL # rest"
    and "\<forall>f\<in>set fs. NL \<notin> set f" and "NL \<notin> set frame" and "length fs < kCommandBudget"
    and "length (pending_out c) + length (fst (serve fs s)) < kOutputHighWater"
    and "length (fst (respond frame (snd (serve fs s)))) > kMaxResponseBytes"
  shows "\<exists>c'. process_input [] c s = (OutputLimit, c', snd (serve (fs @ [frame]) s)) \<and>
     pending_in c' = rest \<and> pending_out c' = pending_out c @ fst (serve fs s)"
proof -
  define c0 where "c0 = c\<lparr>input_buffer := pending_in c, input_cursor := 0\<rparr>"
  define c1 where "c1 = update_backpressure (compact_output c0)"
  define n where "n = kCommandBudget - length fs - 1"
  let ?s = "snd (serve fs s)"
  have "length (pending_in c) \<le> kMaxInputBytes"
    using assms(1) by (auto simp: conn_inv_def pending_in_def)
  then have c0: "append_input [] c = (Ok, c0)"
    using append_input_spec [OF assms(1), of "[]"] by (simp add: c0_def Let_def)
  have c1: "pending_in c1 = pending_in c" "pending_out c1 = pending_out c" "loop_inv c1"
    "pending_output_bytes (compact_output c0) = pending_output_bytes c"
    using assms(1) \<open>length (pending_in c) \<le> kMaxInputBytes\<close>
    by (auto simp: c1_def compact_output_def c0_def pending_out_def pending_in_def
        pending_output_bytes_def conn_inv_def loop_inv_def)
  have free: "\<not> output_paused c1"
    using assms(2,3) c1(4)
    by (auto simp: c1_def update_backpressure_def pressure_ok_def Let_def compact_output_def c0_def)
  obtain c2 where c2: "process_loop (length fs + Suc n) c1 s = process_loop (Suc n) c2 ?s"
    "pending_in c2 = frame @ NL # rest" "pending_out c2 = pending_out c @ fst (serve fs s)"
    "\<not> output_paused c2"
    using process_loop_batch [OF c1(3) free, of fs "frame @ NL # rest" s "Suc n"] assms(4,5,8) c1(1,2)
    by auto
  let ?nl = "input_cursor c2 + length frame"
  have found: "find_from NL (input_buffer c2) (input_cursor c2) = Some ?nl"
    using c2(2) assms(6) by (simp add: find_from_def pending_in_def)
  have frame: "substr (input_buffer c2) (input_cursor c2) (?nl - input_cursor c2) = frame"
    using c2(2) by (simp add: substr_def pending_in_def)
  define c3 where "c3 = c2\<lparr>input_cursor := ?nl + 1\<rparr>"
  have "process_loop (Suc n) c2 ?s = (True, c3, snd (respond frame ?s))"
    using assms(9) frame
    by (simp add: process_loop_frame [OF c2(4) found] Let_def c3_def del: process_loop.simps)
  moreover have "length fs + Suc n = kCommandBudget"
    using assms(7) by (simp add: n_def)
  ultimately have "process_input [] c s = (OutputLimit, c3, snd (respond frame ?s))"
    using c0 c2(1) by (simp add: process_input_def c1_def [symmetric])
  moreover have "drop (?nl + 1) (input_buffer c2) = drop (length frame + 1) (pending_in c2)"
    by (simp add: pending_in_def add.commute)
  then have "pending_in c3 = rest"
    unfolding c2(2) by (simp add: c3_def pending_in_def)
  moreover have "pending_out c3 = pending_out c @ fst (serve fs s)"
    using c2(3) by (simp add: c3_def pending_out_def)
  ultimately show ?thesis
    by (intro exI [of _ c3]) (simp add: serve_append case_prod_beta)
qed

text \<open>A \<open>SET\<close> before the oversized \<open>GET\<close>, and a command behind it.\<close>

theorem oversized_reply_stops_witness:
  "\<exists>c'. process_input [] (fresh_conn\<lparr>input_buffer := ''SET a b'' @ [NL] @ ''GET k'' @ [NL] @ ''COUNT'' @ [NL]\<rparr>)
       \<lparr>data_ref = [(''k'', replicate 65536 CHR ''v'')]\<rparr> =
     (OutputLimit, c', \<lparr>data_ref = [(''k'', replicate 65536 CHR ''v''), (''a'', ''b'')]\<rparr>) \<and>
     pending_in c' = ''COUNT'' @ [NL] \<and> pending_out c' = ''OK'' @ [NL]"
proof -
  let ?c = "fresh_conn\<lparr>input_buffer := ''SET a b'' @ [NL] @ ''GET k'' @ [NL] @ ''COUNT'' @ [NL]\<rparr>"
  let ?v = "replicate 65536 CHR ''v''"
  let ?s = "\<lparr>data_ref = [(''k'', ?v)]\<rparr>" and ?s1 = "\<lparr>data_ref = [(''k'', ?v), (''a'', ''b'')]\<rparr>"
  have c: "conn_inv ?c" "pressure_ok ?c" "\<not> output_paused ?c" "pending_out ?c = []"
    "pending_in ?c = join_lines [''SET a b''] @ ''GET k'' @ NL # (''COUNT'' @ [NL])"
    by (simp_all add: fresh_conn_def Connection_make_def case_prod_beta conn_inv_def pending_in_def
        pending_out_def pressure_ok_def pending_output_bytes_def k_defs)
  have "parse_command ''SET a b'' = Some \<lparr>cmd_type = Set, cmd_key = ''a'', cmd_value = ''b''\<rparr>"
    "parse_command ''GET k'' = Some \<lparr>cmd_type = Get, cmd_key = ''k'', cmd_value = []\<rparr>"
    by (simp_all add: parse_command_def open_stream_def extract_word_def is_space_def)
  then have r: "respond ''SET a b'' ?s = (''OK'' @ [NL], ?s1)" "respond ''GET k'' ?s1 = (?v @ [NL], ?s1)"
    by (simp_all add: respond_def execute_command.simps store_defs)
  have "fst (serve [''SET a b''] ?s) = ''OK'' @ [NL]" "snd (serve [''SET a b''] ?s) = ?s1"
    "snd (serve ([''SET a b''] @ [''GET k'']) ?s) = ?s1"
    by (simp_all add: r)
  with r show ?thesis
    using oversized_reply_stops [OF c(1-3,5), of ?s] c(4) by (auto simp: k_defs)
qed

text \<open>
  Property C10. \<open>flush_output\<close> is a FIFO: the bytes the kernel accepted are a prefix
  of the pending output, exactly the rest stays pending, at most 32 KiB move per
  call, it answers \<open>true\<close> exactly when nothing is left, and \<open>last_progress\<close>
  moves only if a byte did.
\<close>

theorem flush_output_fifo:
  assumes "conn_inv c" and "send_bounded K" and "flush_output K c h = (r, c', h')"
  shows "(\<exists>sent. tx (ufd_get (socket c)) h' = tx (ufd_get (socket c)) h @ sent \<and>
       pending_out c = sent @ pending_out c' \<and> length sent \<le> kWriteCallBudget * kWriteChunkBytes \<and>
       (sent = [] \<longrightarrow> last_progress c' = last_progress c)) \<and>
     (\<forall>b. r = Inr b \<longrightarrow> b = (pending_out c' = [])) \<and>
     conn_inv c' \<and> pending_in c' = pending_in c \<and> socket c' = socket c"
  using flush_output_spec(1,2) [OF assms]
  by (auto simp: flushed_def same_input_def pending_in_def)

theorem flush_output_fifo_witness:
  "\<exists>sent. tx 5 [Send 5 ''OK'' (Inr 1), Now 0, Send 5 ''K'' (Inl EAGAIN)] = sent \<and> ''OK'' = sent @ ''K''"
proof -
  let ?K = "quiet_kernel\<lparr>k_send := \<lambda>h _ bs. (if h = [] \<and> bs \<noteq> [] then Inr 1 else Inl EAGAIN)\<rparr>"
  let ?c = "fresh_conn\<lparr>output_buffer := ''OK''\<rparr>"
  have inv: "conn_inv ?c" "ufd_get (socket ?c) = 5" "pending_out ?c = ''OK''"
    by (simp_all add: fresh_conn_def Connection_make_def case_prod_beta conn_inv_def pending_out_def
        ufd_defs k_defs)
  have K: "send_bounded ?K"
    by (auto simp: send_bounded_def Suc_le_eq quiet_kernel_def)
  have "flush_output ?K ?c [] = (Inr False, ?c\<lparr>output_cursor := 1\<rparr>,
      [Send 5 ''OK'' (Inr 1), Now 0, Send 5 ''K'' (Inl EAGAIN)])"
    by (simp add: flush_output_def buffer_loop_numeral fresh_conn_def Connection_make_def
        case_prod_beta has_pending_output_def pending_output_bytes_def k_defs ufd_defs sys_eqs
        quiet_kernel_def)
  from flush_output_fifo [OF inv(1) K this] show ?thesis
    unfolding inv(2,3) by (auto simp: pending_out_def fresh_conn_def Connection_make_def case_prod_beta)
qed

end
