(* ===== verification/Event_Poller.thy ===== *)
theory Event_Poller
  imports Unique_Fd
begin

text \<open>
  \<open>net::EventPoller\<close> (\<open>include/tcp/net/event_poller.hpp\<close>,
  \<open>src/net/event_poller.cpp\<close>): the owner of one epoll instance. Interest flags
  become an event mask, one kernel event becomes a \<open>ready_event\<close>.
\<close>

record Interest =
  want_read :: bool
  want_write :: bool

definition no_interest :: Interest where
  "no_interest = \<lparr>want_read = False, want_write = False\<rparr>"

record ready_event =
  ready_fd :: fd
  readable :: bool
  writable :: bool
  error_event :: bool
  hangup :: bool

text \<open>\<open>ReadyEvent{}\<close>, the default-initialised event.\<close>

definition no_event :: ready_event where
  "no_event = \<lparr>ready_fd = -1, readable = False, writable = False, error_event = False,
     hangup = False\<rparr>"

record event_poller =
  descriptor :: unique_fd

definition EventPoller_create :: "kernel \<Rightarrow> history \<Rightarrow> (errno + event_poller) \<times> history" where
  "EventPoller_create K h =
     (let (r, h1) = sys_epoll_create K h
      in case r of
           Inl e \<Rightarrow> (Inl e, h1)
         | Inr fd \<Rightarrow> (Inr \<lparr>descriptor = fst (ufd_move (UniqueFd fd))\<rparr>, h1))"

definition interest_mask :: "Interest \<Rightarrow> 32 word" where
  "interest_mask i =
     (if want_read i then EPOLLIN OR EPOLLRDHUP else 0) OR (if want_write i then EPOLLOUT else 0)"

definition poller_change ::
  "kernel \<Rightarrow> event_poller \<Rightarrow> ctl_op \<Rightarrow> fd \<Rightarrow> Interest \<Rightarrow> history \<Rightarrow> (errno + unit) \<times> history" where
  "poller_change K p operation fd i h =
     sys_epoll_ctl K (ufd_get (descriptor p)) operation fd
       (Some \<lparr>events = interest_mask i, data_fd = fd\<rparr>) h"

definition poller_add ::
  "kernel \<Rightarrow> event_poller \<Rightarrow> fd \<Rightarrow> Interest \<Rightarrow> history \<Rightarrow> (errno + unit) \<times> history" where
  "poller_add K p fd i h = poller_change K p EPOLL_CTL_ADD fd i h"

definition poller_modify ::
  "kernel \<Rightarrow> event_poller \<Rightarrow> fd \<Rightarrow> Interest \<Rightarrow> history \<Rightarrow> (errno + unit) \<times> history" where
  "poller_modify K p fd i h = poller_change K p EPOLL_CTL_MOD fd i h"

definition poller_remove ::
  "kernel \<Rightarrow> event_poller \<Rightarrow> fd \<Rightarrow> history \<Rightarrow> (errno + unit) \<times> history" where
  "poller_remove K p fd h = sys_epoll_ctl K (ufd_get (descriptor p)) EPOLL_CTL_DEL fd None h"

definition decode_event :: "epoll_event \<Rightarrow> ready_event" where
  "decode_event ev = \<lparr>
     ready_fd = data_fd ev,
     readable = (events ev AND (EPOLLIN OR EPOLLRDHUP) \<noteq> 0),
     writable = (events ev AND EPOLLOUT \<noteq> 0),
     error_event = (events ev AND EPOLLERR \<noteq> 0),
     hangup = (events ev AND EPOLLHUP \<noteq> 0)\<rparr>"

definition wait_one ::
  "kernel \<Rightarrow> event_poller \<Rightarrow> int \<Rightarrow> history \<Rightarrow> (errno + ready_event option) \<times> history" where
  "wait_one K p timeout_ms h =
     (let (r, h1) = sys_epoll_wait K (ufd_get (descriptor p)) timeout_ms h
      in case r of
           Inl e \<Rightarrow> (Inl e, h1)
         | Inr None \<Rightarrow> (Inr None, h1)
         | Inr (Some ev) \<Rightarrow> (Inr (Some (decode_event ev)), h1))"

lemmas poller_defs = EventPoller_create_def poller_change_def poller_add_def poller_modify_def
  poller_remove_def wait_one_def

text \<open>The epoll descriptor of a poller.\<close>

abbreviation epfd :: "event_poller \<Rightarrow> fd" where
  "epfd p \<equiv> fd_ref (descriptor p)"

subsection \<open>Effects on the registered interest\<close>

lemma poller_modify_history:
  "poller_modify K p fd i h = (r, h') \<Longrightarrow>
   h' = h @ [Epoll_Ctl (epfd p) EPOLL_CTL_MOD fd (Some \<lparr>events = interest_mask i, data_fd = fd\<rparr>) r]"
  by (auto simp: poller_defs sys_epoll_ctl_def ufd_get_def Let_def)

lemma poller_add_history:
  "poller_add K p fd i h = (r, h') \<Longrightarrow>
   h' = h @ [Epoll_Ctl (epfd p) EPOLL_CTL_ADD fd (Some \<lparr>events = interest_mask i, data_fd = fd\<rparr>) r]"
  by (auto simp: poller_defs sys_epoll_ctl_def ufd_get_def Let_def)

lemma poller_remove_history:
  "poller_remove K p fd h = (r, h') \<Longrightarrow>
   h' = h @ [Epoll_Ctl (epfd p) EPOLL_CTL_DEL fd None r]"
  by (auto simp: poller_defs sys_epoll_ctl_def ufd_get_def Let_def)

lemma wait_one_history:
  "wait_one K p t h = (r, h') \<Longrightarrow> \<exists>q. h' = h @ [Epoll_Wait (epfd p) t q]"
  by (auto simp: poller_defs sys_epoll_wait_def ufd_get_def Let_def split: sum.splits option.splits)

lemma interest_mask_simps [simp]:
  "interest_mask i AND (EPOLLIN OR EPOLLRDHUP) \<noteq> 0 \<longleftrightarrow> want_read i"
  "interest_mask i AND EPOLLOUT \<noteq> 0 \<longleftrightarrow> want_write i"
  by (simp_all add: interest_mask_def)

lemma interest_mask_eq_0: "interest_mask i = 0 \<longleftrightarrow> \<not> want_read i \<and> \<not> want_write i"
  by (simp add: interest_mask_def)

text \<open>The mask bit by bit, against the numbers of the kernel's interface.\<close>

lemma interest_mask_bits:
  "bit (interest_mask i) n \<longleftrightarrow> want_read i \<and> (n = 0 \<or> n = 13) \<or> want_write i \<and> n = 2"
proof -
  have "(0x2001 :: 32 word) = 2 ^ 0 OR 2 ^ 13" "(4 :: 32 word) = 2 ^ 2"
    by simp_all
  then have "bit (0x2001 :: 32 word) n \<longleftrightarrow> n = 0 \<or> n = 13" "bit (4 :: 32 word) n \<longleftrightarrow> n = 2"
    by (simp_all only: bit_or_iff bit_exp_iff possible_bit_word) auto
  then show ?thesis
    by (simp add: interest_mask_def bit_or_iff)
qed

subsection \<open>Properties\<close>

text \<open>
  Property C33. \<open>poller_change\<close>, behind \<open>add\<close> and \<open>modify\<close>, makes one \<open>epoll_ctl\<close>
  call with the given operation, whose event carries the descriptor itself and
  exactly the bits of the requested interest: bit 0 (readable) and bit 13 (peer
  closed) for read interest, bit 2 (writable) for write interest. When the call succeeds those bits are what is registered for the
  descriptor, and every other registration is left alone; a failed one changes no
  registration.
\<close>

theorem poller_change_registers:
  assumes "poller_change K p op fd i h = (r, h')" and "op \<noteq> EPOLL_CTL_DEL"
  shows "\<exists>ev. h' = h @ [Epoll_Ctl (epfd p) op fd (Some ev) r] \<and> data_fd ev = fd \<and>
     (\<forall>n. bit (events ev) n \<longleftrightarrow> want_read i \<and> (n = 0 \<or> n = 13) \<or> want_write i \<and> n = 2) \<and>
     interest (epfd p) h' =
       (case r of Inl e \<Rightarrow> interest (epfd p) h
        | Inr _ \<Rightarrow> (interest (epfd p) h)(fd \<mapsto> events ev))"
proof -
  let ?ev = "\<lparr>events = interest_mask i, data_fd = fd\<rparr>"
  have "h' = h @ [Epoll_Ctl (epfd p) op fd (Some ?ev) r]"
    using assms(1) by (auto simp: poller_change_def sys_epoll_ctl_def ufd_get_def Let_def)
  then show ?thesis
    using assms(2) interest_mask_bits [of i]
    by (intro exI [of _ ?ev]) (auto split: sum.splits ctl_op.splits)
qed

text \<open>Read and write interest for descriptor 9, beside a registration of descriptor 8.\<close>

theorem poller_change_registers_witness:
  "\<exists>ev. snd (poller_change quiet_kernel \<lparr>descriptor = UniqueFd 4\<rparr> EPOLL_CTL_ADD 9
       \<lparr>want_read = True, want_write = True\<rparr>
       [Epoll_Ctl 4 EPOLL_CTL_ADD 8 (Some \<lparr>events = 1, data_fd = 8\<rparr>) (Inr ())]) =
     [Epoll_Ctl 4 EPOLL_CTL_ADD 8 (Some \<lparr>events = 1, data_fd = 8\<rparr>) (Inr ()),
      Epoll_Ctl 4 EPOLL_CTL_ADD 9 (Some ev) (Inr ())] \<and>
     data_fd ev = 9 \<and> bit (events ev) 0 \<and> bit (events ev) 2 \<and> bit (events ev) 13 \<and>
     \<not> bit (events ev) 3"
proof -
  let ?p = "\<lparr>descriptor = UniqueFd 4\<rparr>" and ?i = "\<lparr>want_read = True, want_write = True\<rparr>"
  let ?h = "[Epoll_Ctl 4 EPOLL_CTL_ADD 8 (Some \<lparr>events = 1, data_fd = 8\<rparr>) (Inr ())]"
  have run: "poller_change quiet_kernel ?p EPOLL_CTL_ADD 9 ?i ?h =
      (Inr (), snd (poller_change quiet_kernel ?p EPOLL_CTL_ADD 9 ?i ?h))"
    by (simp add: poller_change_def sys_epoll_ctl_def quiet_kernel_def Let_def)
  obtain ev where ev: "snd (poller_change quiet_kernel ?p EPOLL_CTL_ADD 9 ?i ?h) =
      ?h @ [Epoll_Ctl (epfd ?p) EPOLL_CTL_ADD 9 (Some ev) (Inr ())]" "data_fd ev = 9"
    "\<forall>n. bit (events ev) n \<longleftrightarrow> want_read ?i \<and> (n = 0 \<or> n = 13) \<or> want_write ?i \<and> n = 2"
    using poller_change_registers [OF run] by auto
  have "epfd ?p = 4" by (simp add: UniqueFd_def)
  then show ?thesis
    unfolding ev(1) using ev(2,3) by (intro exI [of _ ev]) simp
qed

lemma mask_disjoint:
  fixes e m b :: "32 word"
  assumes "e AND NOT m = 0" and "m AND b = 0"
  shows "e AND b = 0"
proof (rule bit_word_eqI)
  fix n
  assume "n < LENGTH(32)"
  moreover have "bit (e AND NOT m) n = bit (0 :: 32 word) n" "bit (m AND b) n = bit (0 :: 32 word) n"
    using assms by simp_all
  ultimately show "bit (e AND b) n = bit (0 :: 32 word) n"
    by (auto simp: bit_and_iff bit_not_iff)
qed

text \<open>
  Property C34. Masks and events agree: when the kernel reports only bits of the
  registered mask, and the always-reported error and hangup bits, the decoded
  event is readable only if read interest was registered and writable only if
  write interest was; a reported mask of exactly the registered bits decodes back
  to the interest.
\<close>

theorem decode_event_interest:
  assumes "events ev AND NOT (interest_mask i OR EPOLLERR OR EPOLLHUP) = 0"
  shows "(readable (decode_event ev) \<longrightarrow> want_read i) \<and>
     (writable (decode_event ev) \<longrightarrow> want_write i) \<and>
     (events ev = interest_mask i \<longrightarrow>
        decode_event ev = \<lparr>ready_fd = data_fd ev, readable = want_read i,
          writable = want_write i, error_event = False, hangup = False\<rparr>)"
proof -
  let ?m = "interest_mask i OR EPOLLERR OR EPOLLHUP"
  have "\<not> want_read i \<Longrightarrow> ?m AND (EPOLLIN OR EPOLLRDHUP) = 0"
    by (simp add: interest_mask_def)
  moreover have "\<not> want_write i \<Longrightarrow> ?m AND EPOLLOUT = 0"
    by (simp add: interest_mask_def)
  moreover have "interest_mask i AND EPOLLERR = 0" "interest_mask i AND EPOLLHUP = 0"
    by (simp_all add: interest_mask_def)
  ultimately show ?thesis
    using mask_disjoint [OF assms] interest_mask_simps [of i]
    by (auto simp add: decode_event_def simp del: interest_mask_simps)
qed

theorem decode_event_interest_witness:
  "readable (decode_event \<lparr>events = 0x2011, data_fd = 9\<rparr>) \<and>
   hangup (decode_event \<lparr>events = 0x2011, data_fd = 9\<rparr>) \<and>
   \<not> writable (decode_event \<lparr>events = 0x2011, data_fd = 9\<rparr>)"
  using decode_event_interest [of "\<lparr>events = 0x2011, data_fd = 9\<rparr>" "\<lparr>want_read = True, want_write = False\<rparr>"]
  by (simp add: decode_event_def interest_mask_def)

end
