(* ===== verification/Socket.thy ===== *)
theory Socket
  imports Unique_Fd
begin

text \<open>
  \<open>src/net/socket.cpp\<close>: creating an owned socket and switching a descriptor to
  nonblocking mode. The two \<open>do ... while (r == -1 && errno == EINTR)\<close> loops may
  not end, so they are \<open>option\<close>-valued: \<open>None\<close> is a call that never returns.
\<close>

definition create_socket ::
  "kernel \<Rightarrow> int \<Rightarrow> int \<Rightarrow> int \<Rightarrow> history \<Rightarrow> (errno + unique_fd) \<times> history" where
  "create_socket K family ty protocol h =
     (let (fd, h1) = sys_socket K family ty protocol h
      in case fd of
           Inl e \<Rightarrow> (Inl e, h1)
         | Inr fd \<Rightarrow> (Inr (UniqueFd fd), h1))"

text \<open>
  \<open>do { r = call(); } while (r == -1 && errno == EINTR)\<close>, the shape of both
  loops.
\<close>

partial_function (option) retry_eintr ::
  "(history \<Rightarrow> (errno + 'a) \<times> history) \<Rightarrow> history \<Rightarrow> ((errno + 'a) \<times> history) option" where
  "retry_eintr call h =
     (let (r, h1) = call h in if r = Inl EINTR then retry_eintr call h1 else Some (r, h1))"

declare retry_eintr.simps [code]

definition getfl_loop :: "kernel \<Rightarrow> fd \<Rightarrow> history \<Rightarrow> ((errno + 32 word) \<times> history) option" where
  "getfl_loop K fd h = retry_eintr (sys_getfl K fd) h"

definition setfl_loop ::
  "kernel \<Rightarrow> fd \<Rightarrow> 32 word \<Rightarrow> history \<Rightarrow> ((errno + unit) \<times> history) option" where
  "setfl_loop K fd flags h = retry_eintr (sys_setfl K fd flags) h"

definition set_nonblocking ::
  "kernel \<Rightarrow> fd \<Rightarrow> history \<Rightarrow> ((errno + unit) \<times> history) option" where
  "set_nonblocking K fd h =
     (case getfl_loop K fd h of
        None \<Rightarrow> None
      | Some (Inl e, h1) \<Rightarrow> Some (Inl e, h1)
      | Some (Inr flags, h1) \<Rightarrow>
          (if flags AND O_NONBLOCK \<noteq> 0 then Some (Inr (), h1)
           else case setfl_loop K fd (flags OR O_NONBLOCK) h1 of
                  None \<Rightarrow> None
                | Some (Inl e, h2) \<Rightarrow> Some (Inl e, h2)
                | Some (Inr _, h2) \<Rightarrow> Some (Inr (), h2)))"

subsection \<open>The mode of a descriptor\<close>

text \<open>
  The flags last read from, or written to, a descriptor; the kernel answers
  \<open>F_GETFL\<close> with the flags it holds.
\<close>

fun flags1 :: "fd \<Rightarrow> 32 word option \<Rightarrow> sys_event \<Rightarrow> 32 word option" where
  "flags1 fd m (Getfl fd' (Inr w)) = (if fd' = fd then Some w else m)"
| "flags1 fd m (Setfl fd' w (Inr _)) = (if fd' = fd then Some w else m)"
| "flags1 fd m _ = m"

definition flags_of :: "fd \<Rightarrow> history \<Rightarrow> 32 word option" where
  "flags_of fd h = foldl (flags1 fd) None h"

lemma flags_of_append [simp]: "flags_of fd (h @ es) = foldl (flags1 fd) (flags_of fd h) es"
  by (simp add: flags_of_def)

text \<open>
  The loop returns the answer of its last call, which was not interrupted; and
  it returns as soon as one of the retried calls is not interrupted.
\<close>

lemma retry_eintr_result:
  assumes ret: "retry_eintr call h = Some (r, h')"
    and refl: "\<And>h. R h h" and trans: "\<And>a b c. R a b \<Longrightarrow> R b c \<Longrightarrow> R a c"
    and one: "\<And>h. R h (snd (call h))"
  shows "\<exists>h0. R h h0 \<and> call h0 = (r, h') \<and> r \<noteq> Inl EINTR"
proof -
  have "(\<forall>h. R h (snd (call h))) \<longrightarrow>
      (\<exists>h0. R h h0 \<and> call h0 = (r, h') \<and> fst (r, h') \<noteq> Inl EINTR)"
  proof (rule retry_eintr.raw_induct
      [where P = "\<lambda>call h res. (\<forall>h. R h (snd (call h))) \<longrightarrow>
          (\<exists>h0. R h h0 \<and> call h0 = res \<and> fst res \<noteq> Inl EINTR)", OF _ ret])
    fix f call h res
    assume IH: "\<And>call h res. f call h = Some res \<Longrightarrow>
        (\<forall>h. R h (snd (call h))) \<longrightarrow> (\<exists>h0. R h h0 \<and> call h0 = res \<and> fst res \<noteq> Inl EINTR)"
      and step: "(let (r, h1) = call h in if r = Inl EINTR then f call h1 else Some (r, h1)) = Some res"
    show "(\<forall>h. R h (snd (call h))) \<longrightarrow> (\<exists>h0. R h h0 \<and> call h0 = res \<and> fst res \<noteq> Inl EINTR)"
    proof (cases "fst (call h) = Inl EINTR")
      case True
      with step have "f call (snd (call h)) = Some res" by (simp add: case_prod_beta)
      from IH [OF this] show ?thesis by (blast intro: trans)
    next
      case False
      with step show ?thesis by (auto simp: case_prod_beta intro!: exI [of _ h] refl)
    qed
  qed
  with one show ?thesis by simp
qed

lemma retry_eintr_returns:
  "fst (call (((\<lambda>h. snd (call h)) ^^ n) h)) \<noteq> Inl EINTR \<Longrightarrow>
   \<exists>r h'. retry_eintr call h = Some (r, h')"
proof (induction n arbitrary: h)
  case 0
  then show ?case by (subst retry_eintr.simps) (simp add: case_prod_beta)
next
  case (Suc n)
  show ?case
  proof (cases "fst (call h) = Inl EINTR")
    case True
    from Suc.prems have "fst (call (((\<lambda>h. snd (call h)) ^^ n) (snd (call h)))) \<noteq> Inl EINTR"
      by (simp add: funpow_Suc_right del: funpow.simps)
    from Suc.IH [OF this] True show ?thesis
      by (subst retry_eintr.simps) (simp add: case_prod_beta)
  next
    case False
    then show ?thesis by (subst retry_eintr.simps) (simp add: case_prod_beta)
  qed
qed

text \<open>Calls of \<open>fcntl\<close> on a descriptor, the only calls \<open>set_nonblocking\<close> makes.\<close>

fun is_fcntl :: "fd \<Rightarrow> sys_event \<Rightarrow> bool" where
  "is_fcntl fd (Getfl fd' _) = (fd' = fd)"
| "is_fcntl fd (Setfl fd' _ _) = (fd' = fd)"
| "is_fcntl fd _ = False"

lemma is_fcntl_quiet:
  assumes "is_fcntl fd e"
  shows "tx1 fd' e = []" "rx1 fd' e = []" "closed1 e = []" "accepted1 e = []"
    "interest1 ep m e = m"
  using assms by (cases e; simp)+

lemma getfl_loop_result:
  assumes "getfl_loop K fd h = Some (r, h')"
  shows "r \<noteq> Inl EINTR" "r = Inr w \<Longrightarrow> flags_of fd h' = Some w" "grows (is_fcntl fd) h h'"
proof -
  obtain h0 where h0: "grows (is_fcntl fd) h h0" "sys_getfl K fd h0 = (r, h')" "r \<noteq> Inl EINTR"
    using retry_eintr_result [where R = "grows (is_fcntl fd)",
        OF assms [unfolded getfl_loop_def] grows_refl grows_trans]
    by (force simp: sys_getfl_def Let_def)
  then show "r \<noteq> Inl EINTR" "r = Inr w \<Longrightarrow> flags_of fd h' = Some w" "grows (is_fcntl fd) h h'"
    by (auto simp: sys_getfl_def Let_def)
qed

lemma setfl_loop_result:
  assumes "setfl_loop K fd flags h = Some (r, h')"
  shows "r \<noteq> Inl EINTR" "r = Inr u \<Longrightarrow> flags_of fd h' = Some flags" "grows (is_fcntl fd) h h'"
proof -
  obtain h0 where h0: "grows (is_fcntl fd) h h0" "sys_setfl K fd flags h0 = (r, h')" "r \<noteq> Inl EINTR"
    using retry_eintr_result [where R = "grows (is_fcntl fd)",
        OF assms [unfolded setfl_loop_def] grows_refl grows_trans]
    by (force simp: sys_setfl_def Let_def)
  then show "r \<noteq> Inl EINTR" "r = Inr u \<Longrightarrow> flags_of fd h' = Some flags" "grows (is_fcntl fd) h h'"
    by (auto simp: sys_setfl_def Let_def)
qed

lemma set_nonblocking_cases:
  assumes "set_nonblocking K fd h = Some (r, h')"
  obtains (getfl_error) e where "getfl_loop K fd h = Some (Inl e, h')" "r = Inl e"
  | (already) flags where "getfl_loop K fd h = Some (Inr flags, h')" "r = Inr ()"
      "flags AND O_NONBLOCK \<noteq> 0"
  | (setfl) flags h1 q where "getfl_loop K fd h = Some (Inr flags, h1)"
      "flags AND O_NONBLOCK = 0" "setfl_loop K fd (flags OR O_NONBLOCK) h1 = Some (q, h')" "r = q"
  using assms by (auto simp: set_nonblocking_def split: option.splits sum.splits if_splits)

lemma set_nonblocking_grows:
  assumes "set_nonblocking K fd h = Some (r, h')"
  shows "grows (is_fcntl fd) h h'"
  using assms
proof (cases rule: set_nonblocking_cases)
  case getfl_error
  then show ?thesis by (blast dest: getfl_loop_result(3))
next
  case already
  then show ?thesis by (blast dest: getfl_loop_result(3))
next
  case setfl
  then show ?thesis by (blast dest: getfl_loop_result(3) setfl_loop_result(3) intro: grows_trans)
qed

lemma O_NONBLOCK_set: "(w OR O_NONBLOCK) AND O_NONBLOCK \<noteq> 0" for w :: "32 word"
proof
  assume "(w OR O_NONBLOCK) AND O_NONBLOCK = 0"
  then have "bit ((w OR O_NONBLOCK) AND O_NONBLOCK) 11 = bit (0 :: 32 word) 11" by simp
  then show False by (simp add: bit_simps)
qed

text \<open>The interruptions of \<open>fcntl\<close> on a descriptor come to an end.\<close>

definition fcntl_settles :: "kernel \<Rightarrow> fd \<Rightarrow> bool" where
  "fcntl_settles K fd \<longleftrightarrow>
     (\<forall>h. \<exists>n. fst (sys_getfl K fd (((\<lambda>h. snd (sys_getfl K fd h)) ^^ n) h)) \<noteq> Inl EINTR) \<and>
     (\<forall>w h. \<exists>n. fst (sys_setfl K fd w (((\<lambda>h. snd (sys_setfl K fd w h)) ^^ n) h)) \<noteq> Inl EINTR)"

lemma set_nonblocking_total:
  assumes "fcntl_settles K fd"
  shows "\<exists>r h'. set_nonblocking K fd h = Some (r, h')"
proof -
  obtain r h1 where g: "getfl_loop K fd h = Some (r, h1)"
    using assms retry_eintr_returns unfolding getfl_loop_def fcntl_settles_def by blast
  show ?thesis
  proof (cases r)
    case (Inl e)
    with g show ?thesis by (simp add: set_nonblocking_def)
  next
    case (Inr flags)
    obtain q h2 where "setfl_loop K fd (flags OR O_NONBLOCK) h1 = Some (q, h2)"
      using assms retry_eintr_returns unfolding setfl_loop_def fcntl_settles_def by blast
    with g Inr show ?thesis by (cases q) (simp_all add: set_nonblocking_def)
  qed
qed

subsection \<open>Properties\<close>

text \<open>
  Property C35. When \<open>set_nonblocking\<close> succeeds the descriptor's flags, as last
  read from or written to the kernel, include \<open>O_NONBLOCK\<close> and every flag that
  \<open>F_GETFL\<close> reported is kept; no other call than \<open>fcntl\<close> on this descriptor is
  made.
\<close>

theorem set_nonblocking_sets:
  assumes "set_nonblocking K fd h = Some (Inr (), h')"
  shows "\<exists>w old h1. flags_of fd h' = Some w \<and> w AND O_NONBLOCK \<noteq> 0 \<and>
           getfl_loop K fd h = Some (Inr old, h1) \<and> old AND w = old \<and> grows (is_fcntl fd) h h'"
  using assms
proof (cases rule: set_nonblocking_cases)
  case (already flags)
  then show ?thesis using getfl_loop_result [OF already(1)] by auto
next
  case (setfl flags h1 q)
  have "flags AND (flags OR O_NONBLOCK) = flags"
    by (rule word_ao_absorbs)
  then show ?thesis
    using setfl setfl_loop_result(2) [OF setfl(3)] O_NONBLOCK_set [of flags]
      set_nonblocking_grows [OF assms] by (auto simp: word_bw_comms)
qed simp

text \<open>A kernel whose descriptors carry flags 2 (\<open>O_RDWR\<close>) and accept every change.\<close>

definition mode_kernel :: kernel where
  "mode_kernel = quiet_kernel\<lparr>k_getfl := \<lambda>h _. (if h = [] then Inl EINTR else Inr 2)\<rparr>"

lemma mode_kernel_run:
  "set_nonblocking mode_kernel 7 [] =
     Some (Inr (), [Getfl 7 (Inl EINTR), Getfl 7 (Inr 2), Setfl 7 0x802 (Inr ())])"
  by (simp add: set_nonblocking_def getfl_loop_def setfl_loop_def retry_eintr.simps sys_defs Let_def
      mode_kernel_def quiet_kernel_def)

theorem set_nonblocking_sets_witness:
  "\<exists>w. flags_of 7 [Getfl 7 (Inl EINTR), Getfl 7 (Inr 2), Setfl 7 0x802 (Inr ())] = Some w \<and>
     w AND O_NONBLOCK \<noteq> 0"
  using set_nonblocking_sets [OF mode_kernel_run] by blast

text \<open>
  Property C36. Both retry loops end as soon as the kernel stops interrupting:
  if neither \<open>fcntl\<close> call is interrupted forever, \<open>set_nonblocking\<close> returns.
\<close>

theorem set_nonblocking_returns:
  assumes "\<And>h. \<exists>n. fst (sys_getfl K fd (((\<lambda>h. snd (sys_getfl K fd h)) ^^ n) h)) \<noteq> Inl EINTR"
    and "\<And>w h. \<exists>n. fst (sys_setfl K fd w (((\<lambda>h. snd (sys_setfl K fd w h)) ^^ n) h)) \<noteq> Inl EINTR"
  shows "\<exists>r h'. set_nonblocking K fd h = Some (r, h')"
  using set_nonblocking_total [of K fd h] assms by (simp add: fcntl_settles_def)

theorem set_nonblocking_returns_witness:
  "\<exists>r h'. set_nonblocking mode_kernel 7 [] = Some (r, h')"
proof (rule set_nonblocking_returns)
  fix h
  show "\<exists>n. fst (sys_getfl mode_kernel 7 (((\<lambda>h. snd (sys_getfl mode_kernel 7 h)) ^^ n) h)) \<noteq> Inl EINTR"
    by (rule exI [of _ 1]) (simp add: sys_getfl_def mode_kernel_def quiet_kernel_def Let_def)
next
  fix w h
  show "\<exists>n. fst (sys_setfl mode_kernel 7 w (((\<lambda>h. snd (sys_setfl mode_kernel 7 w h)) ^^ n) h)) \<noteq> Inl EINTR"
    by (rule exI [of _ 0]) (simp add: sys_setfl_def mode_kernel_def quiet_kernel_def Let_def)
qed

end
