(* ===== verification/Server.thy ===== *)
theory Server
  imports Connection Event_Poller Socket "HOL-Library.AList"
begin

text \<open>
  The event-loop server (\<open>apps/server.cpp\<close>): servicing and retiring clients,
  admitting new ones, one iteration of the event loop, and the start-up and exit
  of \<open>main\<close>. \<open>clients\<close> is the \<open>std::unordered_map\<close> as a list of entries; its
  iteration order is unspecified in C++, so the order of a sweep is an argument.
  Definitions that call \<open>set_nonblocking\<close> are \<open>option\<close>-valued, with \<open>None\<close> for a
  call that never returns.
\<close>

definition kMaxClients :: nat where "kMaxClients = 128"
definition kIdleTimeout :: time where "kIdleTimeout = 30 * 10 ^ 9" \<comment> \<open>nanoseconds\<close>
definition kTimerPollMs :: int where "kTimerPollMs = 1000"
definition kLogConnections :: bool where "kLogConnections = False"
definition kAcceptBudget :: nat where "kAcceptBudget = 64"
definition kReadCallBudget :: nat where "kReadCallBudget = 16"
definition kReadBufferSize :: nat where "kReadBufferSize = 4096"

lemmas server_k_defs = kMaxClients_def kIdleTimeout_def kTimerPollMs_def kLogConnections_def
  kAcceptBudget_def kReadCallBudget_def kReadBufferSize_def

text \<open>The locals of \<open>main\<close> that live across iterations, and the calls made so far.\<close>

record server =
  listener :: unique_fd
  poller :: event_poller
  kv_store :: KeyValueStore
  clients :: "(fd \<times> Connection) list"
  trace :: history

datatype outcome = Continue server | Return int server

definition report_error :: "string \<Rightarrow> errno \<Rightarrow> history \<Rightarrow> history" where
  "report_error operation e h = h @ [Report operation e]"

subsection \<open>Retiring a client\<close>

text \<open>\<open>clients.erase(it)\<close> destroys the connection and with it closes its socket.\<close>

definition erase_client :: "fd \<Rightarrow> server \<Rightarrow> server" where
  "erase_client fd s =
     (case map_of (clients s) fd of
        None \<Rightarrow> s
      | Some c \<Rightarrow> s\<lparr>clients := AList.delete fd (clients s),
                   trace := ufd_destroy (socket c) (trace s)\<rparr>)"

definition retire_client :: "kernel \<Rightarrow> fd \<Rightarrow> string \<Rightarrow> server \<Rightarrow> server" where
  "retire_client K fd reason s =
     (let (removed, h1) = poller_remove K (poller s) fd (trace s);
          h2 = (case removed of Inl e \<Rightarrow> report_error ''poller remove'' e h1 | Inr _ \<Rightarrow> h1);
          s1 = erase_client fd (s\<lparr>trace := h2\<rparr>)
      in if kLogConnections
         then s1\<lparr>trace := trace s1 @ [Stdout (''closed reason='' @ reason)]\<rparr>
         else s1)"

subsection \<open>Servicing a client\<close>

text \<open>The receive loop with its remaining attempts; \<open>Some reason\<close> asks for retirement.\<close>

fun read_loop ::
  "kernel \<Rightarrow> nat \<Rightarrow> ready_event \<Rightarrow> Connection \<Rightarrow> history \<Rightarrow> string option \<times> Connection \<times> history" where
  "read_loop K 0 event c h = (None, c, h)"
| "read_loop K (Suc attempts) event c h =
     (if \<not> (readable event \<and> can_read c) then (None, c, h)
      else
        let room = size_sub kMaxInputBytes (pending_input_bytes c);
            requested = min room kReadBufferSize;
            (received, h1) = sys_recv K (ufd_get (socket c)) requested h
        in case received of
             Inr bytes \<Rightarrow>
               (if bytes \<noteq> []
                then let (t, h2) = sys_now K h1;
                         (result, c1) = append_input bytes (c\<lparr>last_progress := t\<rparr>)
                     in if result \<noteq> Ok then (Some ''input buffer limit'', c1, h2)
                        else read_loop K attempts event c1 h2
                else (None, c\<lparr>read_eof := True\<rparr>, h1))
           | Inl e \<Rightarrow>
               (if e = EINTR then read_loop K attempts event c h1
                else if e = EAGAIN \<or> e = EWOULDBLOCK then (None, c, h1)
                else (Some ''receive error'', c, report_error ''recv'' e h1)))"

text \<open>What follows a successful flush: backpressure, end of stream, interest.\<close>

definition finish_service ::
  "kernel \<Rightarrow> event_poller \<Rightarrow> fd \<Rightarrow> Connection \<Rightarrow> history \<Rightarrow> string option \<times> Connection \<times> history" where
  "finish_service K p fd c h =
     (let c1 = update_backpressure c;
          ended = read_eof c1 \<and> \<not> has_complete_frame c1;
          c2 = (if ended then c1\<lparr>input_buffer := [], input_cursor := 0\<rparr> else c1)
      in if ended \<and> \<not> has_pending_output c2
         then (Some ''read EOF and output drained'', c2, h)
         else
           let (modified, h1) =
             poller_modify K p fd \<lparr>want_read = can_read c2, want_write = has_pending_output c2\<rparr> h
           in case modified of
                Inl e \<Rightarrow> (Some ''interest update failed'', c2, report_error ''poller modify'' e h1)
              | Inr _ \<Rightarrow> (None, c2, h1))"

definition service_client ::
  "kernel \<Rightarrow> event_poller \<Rightarrow> Connection \<Rightarrow> ready_event \<Rightarrow> KeyValueStore \<Rightarrow> history
     \<Rightarrow> string option \<times> Connection \<times> KeyValueStore \<times> history" where
  "service_client K p c event store h =
     (let fd = ufd_get (socket c) in
      if error_event event then
        (let (r, h1) = sys_sockerr K fd h;
             h2 = (case r of
                     Inl e \<Rightarrow> report_error ''getsockopt SO_ERROR'' e h1
                   | Inr socket_error \<Rightarrow>
                       (if socket_error \<noteq> 0 then report_error ''pending socket error'' socket_error h1
                        else h1))
         in (Some ''socket error event'', c, store, h2))
      else if hangup event then (Some ''full hangup'', c, store, h)
      else
        (case read_loop K kReadCallBudget event c h of
           (Some reason, c1, h1) \<Rightarrow> (Some reason, c1, store, h1)
         | (None, c1, h1) \<Rightarrow>
             (let (result, c2, store1) = process_input [] c1 store in
              case result of
                InputLimit \<Rightarrow> (Some ''input buffer limit'', c2, store1, h1)
              | OutputLimit \<Rightarrow> (Some ''response buffer limit'', c2, store1, h1)
              | Ok \<Rightarrow>
                  (if has_pending_output c2
                   then (case flush_output K c2 h1 of
                           (Inl e, c3, h2) \<Rightarrow>
                             (Some ''send error'', c3, store1, report_error ''send'' e h2)
                         | (Inr _, c3, h2) \<Rightarrow>
                             (let (reason, c4, h3) = finish_service K p fd c3 h2
                              in (reason, c4, store1, h3)))
                   else (let (reason, c4, h3) = finish_service K p fd c2 h1
                         in (reason, c4, store1, h3))))))"

text \<open>Service of the map entry \<open>fd\<close>, retired if a reason comes back.\<close>

definition service_entry :: "kernel \<Rightarrow> fd \<Rightarrow> Connection \<Rightarrow> ready_event \<Rightarrow> server \<Rightarrow> server" where
  "service_entry K fd c event s =
     (let (reason, c1, store1, h1) = service_client K (poller s) c event (kv_store s) (trace s);
          s1 = s\<lparr>clients := AList.update fd c1 (clients s), kv_store := store1, trace := h1\<rparr>
      in case reason of
           Some r \<Rightarrow> retire_client K fd r s1
         | None \<Rightarrow> s1)"

subsection \<open>The sweep over the clients\<close>

text \<open>One visit; the flag is whether the client still has runnable input.\<close>

definition visit_client :: "kernel \<Rightarrow> fd \<Rightarrow> server \<Rightarrow> server \<times> bool" where
  "visit_client K fd s =
     (case map_of (clients s) fd of
        None \<Rightarrow> (s, False)
      | Some c \<Rightarrow>
          (let (now, h1) = sys_now K (trace s); s0 = s\<lparr>trace := h1\<rparr>
           in if now - last_progress c \<ge> kIdleTimeout
              then (retire_client K fd ''idle timeout'' s0, False)
              else
                let s1 = (if has_runnable_input c then service_entry K fd c no_event s0 else s0)
                in case map_of (clients s1) fd of
                     None \<Rightarrow> (s1, False)
                   | Some c1 \<Rightarrow> (s1, has_runnable_input c1)))"

fun sweep :: "kernel \<Rightarrow> fd list \<Rightarrow> server \<Rightarrow> bool \<Rightarrow> server \<times> bool" where
  "sweep K [] s runnable = (s, runnable)"
| "sweep K (fd # fds) s runnable =
     (let (s1, r) = visit_client K fd s in sweep K fds s1 (runnable \<or> r))"

subsection \<open>Admitting clients\<close>

definition admit_client :: "kernel \<Rightarrow> fd \<Rightarrow> server \<Rightarrow> outcome option" where
  "admit_client K accepted_fd s =
     (let client = UniqueFd accepted_fd in
      if length (clients s) \<ge> kMaxClients
      then Some (Continue (s\<lparr>trace := ufd_destroy client (trace s)\<rparr>))
      else
        case set_nonblocking K (ufd_get client) (trace s) of
          None \<Rightarrow> None
        | Some (Inl e, h1) \<Rightarrow>
            Some (Continue (s\<lparr>trace := ufd_destroy client (report_error ''client nonblocking'' e h1)\<rparr>))
        | Some (Inr _, h1) \<Rightarrow>
            (let client_fd = ufd_get client in
             if map_of (clients s) client_fd \<noteq> None
             then Some (Return 1 (s\<lparr>trace := ufd_destroy client
                    (h1 @ [Stderr ''accepted descriptor already has an owner''])\<rparr>))
             else
               let (conn, h2) = Connection_make K client h1;
                   s1 = s\<lparr>clients := clients s @ [(client_fd, conn)]\<rparr>;
                   (added, h3) = poller_add K (poller s) client_fd
                                   \<lparr>want_read = True, want_write = False\<rparr> h2
               in case added of
                    Inl e \<Rightarrow>
                      Some (Continue (erase_client client_fd
                        (s1\<lparr>trace := report_error ''poller client add'' e h3\<rparr>)))
                  | Inr _ \<Rightarrow>
                      Some (Continue (s1\<lparr>trace :=
                        (if kLogConnections then h3 @ [Stdout ''registered client''] else h3)\<rparr>))))"

text \<open>The \<open>accept\<close> errors that concern one pending connection only.\<close>

definition recoverable_accept_error :: "errno \<Rightarrow> bool" where
  "recoverable_accept_error e \<longleftrightarrow>
     e \<in> {ECONNABORTED, ENETDOWN, EPROTO, ENOPROTOOPT, EHOSTDOWN, ENONET, EHOSTUNREACH,
          EOPNOTSUPP, ENETUNREACH}"

fun accept_loop :: "kernel \<Rightarrow> nat \<Rightarrow> server \<Rightarrow> outcome option" where
  "accept_loop K 0 s = Some (Continue s)"
| "accept_loop K (Suc attempts) s =
     (let (accepted_fd, h1) = sys_accept K (ufd_get (listener s)) (trace s);
          s1 = s\<lparr>trace := h1\<rparr>
      in case accepted_fd of
           Inl e \<Rightarrow>
             (if e = EINTR then accept_loop K attempts s1
              else if e = EAGAIN \<or> e = EWOULDBLOCK then Some (Continue s1)
              else if recoverable_accept_error e
              then accept_loop K attempts (s1\<lparr>trace := report_error ''accept'' e h1\<rparr>)
              else Some (Return 1 (s1\<lparr>trace := report_error ''accept'' e h1\<rparr>)))
         | Inr fd \<Rightarrow>
             (case admit_client K fd s1 of
                None \<Rightarrow> None
              | Some (Return code s2) \<Rightarrow> Some (Return code s2)
              | Some (Continue s2) \<Rightarrow> accept_loop K attempts s2))"

subsection \<open>One iteration of the event loop\<close>

definition dispatch_event :: "kernel \<Rightarrow> ready_event \<Rightarrow> server \<Rightarrow> outcome option" where
  "dispatch_event K ev s =
     (if ready_fd ev \<noteq> ufd_get (listener s)
      then
        (case map_of (clients s) (ready_fd ev) of
           None \<Rightarrow>
             Some (Return 1 (s\<lparr>trace := trace s @
               [Stderr ''poller returned an unknown client descriptor'']\<rparr>))
         | Some c \<Rightarrow> Some (Continue (service_entry K (ready_fd ev) c ev s)))
      else if \<not> readable ev \<or> error_event ev \<or> hangup ev
      then Some (Return 1 (s\<lparr>trace := trace s @ [Stderr ''listener reported an unexpected event'']\<rparr>))
      else accept_loop K kAcceptBudget s)"

definition event_loop_iteration :: "kernel \<Rightarrow> fd list \<Rightarrow> server \<Rightarrow> outcome option" where
  "event_loop_iteration K order s =
     (let (s1, runnable_remains) = sweep K order s False;
          timeout_ms = (if runnable_remains then 0 else kTimerPollMs);
          (waited, h1) = wait_one K (poller s1) timeout_ms (trace s1);
          s2 = s1\<lparr>trace := h1\<rparr>
      in case waited of
           Inl e \<Rightarrow>
             (if e = EINTR then Some (Continue s2)
              else Some (Return 1 (s2\<lparr>trace := report_error ''poller wait'' e h1\<rparr>)))
         | Inr None \<Rightarrow> Some (Continue s2)
         | Inr (Some ready_event) \<Rightarrow> dispatch_event K ready_event s2)"

subsection \<open>Start-up and exit\<close>

text \<open>
  The failure exits of \<open>main\<close> before the loop destroy the locals constructed so
  far: the poller, then the listener.
\<close>

definition main_setup :: "kernel \<Rightarrow> history \<Rightarrow> (history + server) option" where
  "main_setup K h =
     (case create_socket K 2 1 0 h of
        (Inl e, h1) \<Rightarrow> Some (Inl (report_error ''socket'' e h1))
      | (Inr sock, h1) \<Rightarrow>
          (let lst = fst (ufd_move sock); fd = ufd_get lst in
           case sys_setsockopt K fd h1 of
             (Inl e, h2) \<Rightarrow> Some (Inl (ufd_destroy lst (report_error ''setsockopt'' e h2)))
           | (Inr _, h2) \<Rightarrow>
               (case sys_bind K fd 8080 h2 of
                  (Inl e, h3) \<Rightarrow> Some (Inl (ufd_destroy lst (report_error ''bind'' e h3)))
                | (Inr _, h3) \<Rightarrow>
                    (case sys_listen K fd 16 h3 of
                       (Inl e, h4) \<Rightarrow> Some (Inl (ufd_destroy lst (report_error ''listen'' e h4)))
                     | (Inr _, h4) \<Rightarrow>
                         (case set_nonblocking K fd h4 of
                            None \<Rightarrow> None
                          | Some (Inl e, h5) \<Rightarrow>
                              Some (Inl (ufd_destroy lst (report_error ''listener nonblocking'' e h5)))
                          | Some (Inr _, h5) \<Rightarrow>
                              (case EventPoller_create K h5 of
                                 (Inl e, h6) \<Rightarrow>
                                   Some (Inl (ufd_destroy lst (report_error ''poller create'' e h6)))
                               | (Inr p, h6) \<Rightarrow>
                                   (case poller_add K p fd \<lparr>want_read = True, want_write = False\<rparr> h6 of
                                      (Inl e, h7) \<Rightarrow>
                                        Some (Inl (ufd_destroy lst (ufd_destroy (descriptor p)
                                          (report_error ''poller listener add'' e h7))))
                                    | (Inr _, h7) \<Rightarrow>
                                        Some (Inr \<lparr>listener = lst, poller = p, kv_store = empty_store,
                                          clients = [],
                                          trace = h7 @ [Stdout ''listening on port 8080'']\<rparr>))))))))"

text \<open>Leaving \<open>main\<close> destroys the clients, the poller and the listener.\<close>

definition shutdown :: "server \<Rightarrow> history" where
  "shutdown s =
     ufd_destroy (listener s) (ufd_destroy (descriptor (poller s))
       (foldl (\<lambda>h (fd, c). ufd_destroy (socket c) h) (trace s) (clients s)))"

text \<open>The loop itself: any number of iterations, each sweeping in some order.\<close>

inductive loop_step :: "kernel \<Rightarrow> server \<Rightarrow> server \<Rightarrow> bool" for K where
  iterate: "distinct order \<Longrightarrow> set order = fst ` set (clients s) \<Longrightarrow>
     event_loop_iteration K order s = Some (Continue t) \<Longrightarrow> loop_step K s t"

inductive reachable :: "kernel \<Rightarrow> server \<Rightarrow> bool" for K where
  start: "main_setup K [] = Some (Inr s) \<Longrightarrow> reachable K s"
| step: "reachable K s \<Longrightarrow> loop_step K s t \<Longrightarrow> reachable K t"

end
