(* ===== verification/Visit.thy ===== *)
theory Visit
  imports Server
begin

text \<open>
  One service visit of the event loop (\<open>service_client\<close> of
  \<open>apps/server.cpp\<close>), stage by stage: what the receive loop brings in
  (\<open>received\<close>), what the command loop takes off (\<open>ran\<close>), what the flush sends
  (\<open>flushed\<close>), how the visit ends. \<open>exchanged\<close> composes the stages and
  \<open>visited\<close> is the contract of the whole visit.
\<close>

subsection \<open>The calls a service visit makes\<close>

fun is_service :: "fd \<Rightarrow> fd \<Rightarrow> sys_event \<Rightarrow> bool" where
  "is_service ep fd (Recv fd' _ _) = (fd' = fd)"
| "is_service ep fd (Send fd' _ _) = (fd' = fd)"
| "is_service ep fd (Getsockopt_Error fd' _) = (fd' = fd)"
| "is_service ep fd (Epoll_Ctl ep' op fd' _ _) = (ep' = ep \<and> op = EPOLL_CTL_MOD \<and> fd' = fd)"
| "is_service ep fd (Now _) = True"
| "is_service ep fd (Report _ _) = True"
| "is_service ep fd _ = False"

lemma is_service_quiet:
  assumes "is_service ep fd e"
  shows "open1 A e = A" "closed1 e = []" "accepted1 e = []"
    "fd' \<noteq> fd \<Longrightarrow> tx1 fd' e = []" "fd' \<noteq> fd \<Longrightarrow> rx1 fd' e = []"
    "fd' \<noteq> fd \<Longrightarrow> interest1 ep' m e fd' = m fd'"
  using assms by (cases e; simp add: observe_answer split: sum.split)+

lemma is_flush_service: "is_flush fd e \<Longrightarrow> is_service ep fd e"
  by (cases e) simp_all

subsection \<open>The receive loop\<close>

definition received :: "fd \<Rightarrow> fd \<Rightarrow> Connection \<Rightarrow> history \<Rightarrow> Connection \<Rightarrow> history \<Rightarrow> bool" where
  "received ep fd c h c' h' \<longleftrightarrow>
     (\<exists>d. rx fd h' = rx fd h @ d \<and> pending_in c' = pending_in c @ d \<and>
        (d = [] \<longrightarrow> last_progress c' = last_progress c) \<and> (read_eof c \<longrightarrow> d = [])) \<and>
     tx fd h' = tx fd h \<and> conn_inv c' \<and> socket c' = socket c \<and>
     pending_out c' = pending_out c \<and> output_paused c' = output_paused c \<and>
     (read_eof c \<longrightarrow> read_eof c') \<and> grows (is_service ep fd) h h'"

lemma received_quiet:
  assumes "conn_inv c" and "grows (is_service ep fd) h h'" and "rx fd h' = rx fd h"
    and "tx fd h' = tx fd h"
  shows "received ep fd c h c h'" and "received ep fd c h (c\<lparr>read_eof := True\<rparr>) h'"
  using assms by (auto simp: received_def pending_in_def pending_out_def conn_inv_def)

lemma received_trans:
  assumes "received ep fd a h b h1" and "received ep fd b h1 c h2"
  shows "received ep fd a h c h2"
proof -
  obtain d where d: "rx fd h1 = rx fd h @ d" "pending_in b = pending_in a @ d"
    "d = [] \<longrightarrow> last_progress b = last_progress a" "read_eof a \<longrightarrow> d = [] \<and> read_eof b"
    using assms(1) by (auto simp: received_def)
  obtain e where e: "rx fd h2 = rx fd h1 @ e" "pending_in c = pending_in b @ e"
    "e = [] \<longrightarrow> last_progress c = last_progress b" "read_eof b \<longrightarrow> e = []"
    using assms(2) by (auto simp: received_def)
  have "\<exists>x. rx fd h2 = rx fd h @ x \<and> pending_in c = pending_in a @ x \<and>
      (x = [] \<longrightarrow> last_progress c = last_progress a) \<and> (read_eof a \<longrightarrow> x = [])"
    using d e by (intro exI [of _ "d @ e"]) auto
  then show ?thesis
    using assms grows_trans by (auto simp: received_def)
qed

lemma received_chunk:
  assumes inv: "conn_inv c" and fits: "length (pending_in c) + length bs \<le> kMaxInputBytes"
    and "bs \<noteq> []" and "\<not> read_eof c"
  obtains c' where "append_input bs (c\<lparr>last_progress := t\<rparr>) = (Ok, c')"
    "received ep fd c h c' (h @ [Recv fd n (Inr bs), Now t])"
proof -
  have inv': "conn_inv (c\<lparr>last_progress := t\<rparr>)"
    and pend: "pending_in (c\<lparr>last_progress := t\<rparr>) = pending_in c"
    using inv by (simp_all add: conn_inv_def pending_in_def)
  obtain c' where c': "append_input bs (c\<lparr>last_progress := t\<rparr>) = (Ok, c')"
    "pending_in c' = pending_in c @ bs" "conn_inv c'" "same_link (c\<lparr>last_progress := t\<rparr>) c'"
    "output_buffer c' = output_buffer c" "output_cursor c' = output_cursor c"
    "output_paused c' = output_paused c"
    using append_input_Ok [OF inv', of bs] fits pend by auto
  have "received ep fd c h c' (h @ [Recv fd n (Inr bs), Now t])"
    using c' assms(3,4)
    by (auto simp: received_def same_link_def pending_out_def grows_def intro!: exI [of _ bs])
  with c'(1) that show ?thesis by blast
qed

lemma read_loop_spec:
  assumes "conn_inv c" and "recv_bounded K" and "read_loop K n ev c h = (reason, c', h')"
  shows "received ep (ufd_get (socket c)) c h c' h' \<and> reason \<in> {None, Some ''receive error''}"
  using assms
proof (induction n arbitrary: c h)
  case 0
  then show ?case by (simp add: received_quiet)
next
  case (Suc n)
  let ?fd = "ufd_get (socket c)"
  let ?req = "min (size_sub kMaxInputBytes (pending_input_bytes c)) kReadBufferSize"
  let ?r = "k_recv K h ?fd ?req" and ?h1 = "h @ [Recv ?fd ?req (k_recv K h ?fd ?req)]"
  note inv = Suc.prems(1)
  show ?case
  proof (cases "readable ev \<and> can_read c")
    case False
    with Suc.prems show ?thesis by (auto simp: received_quiet)
  next
    case True
    show ?thesis
    proof (cases ?r)
      case (Inl e)
      have quiet: "received ep ?fd c h c ?h1" "received ep ?fd c h c (report_error op e ?h1)" for op
        using inv Inl by (auto intro!: received_quiet simp: grows_def report_error_def)
      show ?thesis
      proof (cases "e = EINTR")
        case True
        with Suc.prems \<open>readable ev \<and> can_read c\<close> Inl
        have "read_loop K n ev c ?h1 = (reason, c', h')" by (simp add: sys_eqs Let_def)
        from Suc.IH [OF inv Suc.prems(2) this] quiet(1) show ?thesis
          by (blast intro: received_trans)
      next
        case False
        with Suc.prems \<open>readable ev \<and> can_read c\<close> Inl quiet show ?thesis
          by (auto simp: sys_eqs Let_def split: if_splits)
      qed
    next
      case (Inr bs)
      show ?thesis
      proof (cases "bs = []")
        case True
        have "received ep ?fd c h (c\<lparr>read_eof := True\<rparr>) ?h1"
          using inv Inr True by (intro received_quiet) (auto simp: grows_def)
        with Suc.prems \<open>readable ev \<and> can_read c\<close> Inr True show ?thesis
          by (auto simp: sys_eqs Let_def)
      next
        case False
        let ?t = "k_now K ?h1"
        have "length bs \<le> ?req"
          using recv_boundedD [OF Suc.prems(2) Inr] .
        then have fits: "length (pending_in c) + length bs \<le> kMaxInputBytes"
          using inv True by (auto simp: conn_simps can_read_def)
        obtain c1 where c1: "append_input bs (c\<lparr>last_progress := ?t\<rparr>) = (Ok, c1)"
          "received ep ?fd c h c1 (h @ [Recv ?fd ?req (Inr bs), Now ?t])"
          by (rule received_chunk [OF inv fits False]) (use True in \<open>simp add: can_read_def\<close>)
        have run: "read_loop K n ev c1 (h @ [Recv ?fd ?req (Inr bs), Now ?t]) = (reason, c', h')"
          using Suc.prems True Inr False c1(1) by (simp add: sys_eqs Let_def)
        have c1s: "conn_inv c1" "socket c1 = socket c"
          using c1(2) by (simp_all add: received_def)
        note IH = Suc.IH [OF c1s(1) Suc.prems(2) run, unfolded c1s(2)]
        then show ?thesis
          using received_trans [OF c1(2)] by blast
      qed
    qed
  qed
qed

subsection \<open>The end of a visit\<close>

text \<open>The interest a connection asks for, and a connection that still has a way to move.\<close>

definition wanted :: "Connection \<Rightarrow> Interest" where
  "wanted c = \<lparr>want_read = can_read c, want_write = has_pending_output c\<rparr>"

definition live :: "Connection \<Rightarrow> bool" where
  "live c \<longleftrightarrow> has_runnable_input c \<or> can_read c \<or> has_pending_output c"

definition stuck_tail :: "Connection \<Rightarrow> bool" where
  "stuck_tail c \<longleftrightarrow> length (pending_in c) = kMaxInputBytes \<and> frames_in c = []"

lemma live_if_open:
  assumes "conn_inv c" and "pressure_ok c" and "\<not> stuck_tail c"
    and "\<not> read_eof c \<or> NL \<in> set (pending_in c)"
  shows "live c"
proof (cases "output_paused c")
  case True
  with assms(1,2) have "has_pending_output c"
    by (auto simp: pressure_ok_def has_pending_output_def)
  then show ?thesis by (simp add: live_def)
next
  case False
  show ?thesis
  proof (cases "NL \<in> set (pending_in c)")
    case True
    with False show ?thesis by (simp add: live_def has_runnable_input_def conn_simps)
  next
    case no_frame: False
    have "length (pending_in c) \<le> kMaxInputBytes"
      using assms(1) by (auto simp: conn_inv_def pending_in_def)
    then have "length (pending_in c) < kMaxInputBytes"
      using assms(3) no_frame by (simp add: stuck_tail_def frames_in_Nil)
    with False no_frame assms(1,4) show ?thesis
      by (simp add: live_def can_read_def conn_simps)
  qed
qed

lemma finish_service_spec:
  assumes inv: "conn_inv c" and tail: "\<not> stuck_tail c"
    and run: "finish_service K p fd c h = (reason, c', h')"
  shows "conn_inv c'" "pressure_ok c'" "socket c' = socket c" "read_eof c' = read_eof c"
    "pending_out c' = pending_out c" "last_progress c' = last_progress c"
    "pending_in c' = pending_in c \<or> read_eof c' \<and> NL \<notin> set (pending_in c) \<and> pending_in c' = []"
    "grows (is_service (epfd p) fd) h h'" "rx fd' h' = rx fd' h" "tx fd' h' = tx fd' h"
    "reason = None \<Longrightarrow> live c' \<and> interest (epfd p) h' fd = Some (interest_mask (wanted c'))"
    "reason \<in> {None, Some ''read EOF and output drained'', Some ''interest update failed''}"
    "reason = Some ''read EOF and output drained'' \<Longrightarrow> read_eof c' \<and> pending_out c' = []"
proof -
  let ?c1 = "update_backpressure c"
  let ?ended = "read_eof ?c1 \<and> \<not> has_complete_frame ?c1"
  define c2 where "c2 = (if ?ended then ?c1\<lparr>input_buffer := [], input_cursor := 0\<rparr> else ?c1)"
  have c2: "conn_inv c2" "pressure_ok c2" "socket c2 = socket c" "read_eof c2 = read_eof c"
    "pending_out c2 = pending_out c" "last_progress c2 = last_progress c"
    using inv update_backpressure_ok [of c]
    by (auto simp: c2_def conn_inv_def pending_out_def pressure_ok_def pending_output_bytes_def)
  have c2_in: "pending_in c2 = (if ?ended then [] else pending_in c)"
    by (simp add: c2_def pending_in_def)
  have c': "c' = c2"
    using run by (auto simp: finish_service_def c2_def Let_def split: if_splits prod.splits sum.splits)
  show "pending_in c' = pending_in c \<or> read_eof c' \<and> NL \<notin> set (pending_in c) \<and> pending_in c' = []"
    using c2_in c2(4) by (auto simp: c' conn_simps)
  show "conn_inv c'" "pressure_ok c'" "socket c' = socket c" "read_eof c' = read_eof c"
    "pending_out c' = pending_out c" "last_progress c' = last_progress c"
    using c2 by (simp_all add: c')
  have body: "(if ?ended \<and> \<not> has_pending_output c2
         then (Some ''read EOF and output drained'', c2, h)
         else
           let (modified, h1) = poller_modify K p fd (wanted c2) h
           in case modified of
                Inl e \<Rightarrow> (Some ''interest update failed'', c2, report_error ''poller modify'' e h1)
              | Inr _ \<Rightarrow> (None, c2, h1)) = (reason, c', h')"
    using run by (simp only: finish_service_def c2_def wanted_def Let_def)
  show "reason \<in> {None, Some ''read EOF and output drained'', Some ''interest update failed''}"
    "reason = Some ''read EOF and output drained'' \<Longrightarrow> read_eof c' \<and> pending_out c' = []"
    using body c2
    by (auto simp: conn_simps split: if_splits prod.splits sum.splits)
  have ext: "\<exists>es. h' = h @ es \<and> list_all (is_service (epfd p) fd) es \<and>
      (\<forall>e\<in>set es. rx1 fd' e = [] \<and> tx1 fd' e = [])"
    using body
    by (auto simp: report_error_def dest!: poller_modify_history
        split: if_splits prod.splits sum.splits)
  then show "grows (is_service (epfd p) fd) h h'" "rx fd' h' = rx fd' h" "tx fd' h' = tx fd' h"
    by (auto simp: grows_def rx_def tx_def)
  assume kept: "reason = None"
  then have final: "\<not> (?ended \<and> \<not> has_pending_output c2)" and
    modified: "poller_modify K p fd (wanted c2) h = (Inr (), h')"
    using body by (auto split: if_splits prod.splits sum.splits)
  have "live c2"
  proof (cases ?ended)
    case True
    with final show ?thesis by (simp add: live_def)
  next
    case False
    moreover have "\<not> stuck_tail c2"
      using tail False c2_in by (auto simp: stuck_tail_def frames_in_def)
    moreover have "\<not> read_eof c2 \<or> NL \<in> set (pending_in c2)"
      using False c2(4) c2_in by (auto simp: conn_simps)
    ultimately show ?thesis
      using c2 by (intro live_if_open) auto
  qed
  then show "live c' \<and> interest (epfd p) h' fd = Some (interest_mask (wanted c'))"
    using poller_modify_history [OF modified] by (simp add: c')
qed

subsection \<open>A whole visit\<close>

text \<open>
  The data moved by a visit: bytes \<open>d\<close> came in and \<open>out\<close> went out; some complete
  frames \<open>fs\<close>, at most the command budget, were taken off the front of the input
  and served in order against the shared store; output is conserved; what is left
  of the input is the rest, except that an unfinished last line is dropped at the
  end of the stream.
\<close>

definition exchanged ::
  "fd \<Rightarrow> Connection \<Rightarrow> KeyValueStore \<Rightarrow> history \<Rightarrow> Connection \<Rightarrow> KeyValueStore \<Rightarrow> history \<Rightarrow> bool" where
  "exchanged fd c st h c' st' h' \<longleftrightarrow>
     (\<exists>d out fs rest. rx fd h' = rx fd h @ d \<and> tx fd h' = tx fd h @ out \<and>
        pending_in c @ d = join_lines fs @ rest \<and> (\<forall>f\<in>set fs. NL \<notin> set f) \<and>
        length fs \<le> kCommandBudget \<and> st' = snd (serve fs st) \<and>
        pending_out c @ fst (serve fs st) = out @ pending_out c' \<and>
        (pending_in c' = rest \<or> read_eof c' \<and> NL \<notin> set rest \<and> pending_in c' = []) \<and>
        (read_eof c \<longrightarrow> d = [] \<and> read_eof c'))"

lemma exchanged_quiet:
  assumes "rx fd h' = rx fd h" and "tx fd h' = tx fd h"
  shows "exchanged fd c st h c st h'"
  using assms unfolding exchanged_def
  by (intro exI [of _ "[]"] exI [of _ "[] :: string list"] exI [of _ "pending_in c"]) simp

text \<open>Receiving, executing, sending and finishing, one after the other.\<close>

lemma exchanged_stages:
  assumes "received ep fd c h c1 h1" and "ran k c0 st c2 st'" and "k \<le> kCommandBudget"
    and "pending_in c0 = pending_in c1" "pending_out c0 = pending_out c1"
    and "flushed n fd c2 h1 c3 h2"
    and "rx fd h3 = rx fd h2" "tx fd h3 = tx fd h2" "pending_out c4 = pending_out c3"
    and "pending_in c4 = pending_in c3 \<or> read_eof c4 \<and> NL \<notin> set (pending_in c3) \<and> pending_in c4 = []"
    and "read_eof c1 \<Longrightarrow> read_eof c4"
  shows "exchanged fd c st h c4 st' h3"
proof -
  obtain d where d: "rx fd h1 = rx fd h @ d" "pending_in c1 = pending_in c @ d"
    "tx fd h1 = tx fd h" "pending_out c1 = pending_out c" "read_eof c \<longrightarrow> d = [] \<and> read_eof c1"
    using assms(1) by (auto simp: received_def)
  obtain fs where fs: "pending_in c0 = join_lines fs @ pending_in c2" "\<forall>f\<in>set fs. NL \<notin> set f"
    "length fs = k" "st' = snd (serve fs st)" "pending_out c2 = pending_out c0 @ fst (serve fs st)"
    using ran_frames [OF assms(2)] .
  obtain out where out: "tx fd h2 = tx fd h1 @ out" "pending_out c2 = out @ pending_out c3"
    using assms(6) by (auto simp: flushed_def)
  have in3: "pending_in c3 = pending_in c2"
    using assms(6) by (auto simp: flushed_def same_input_pending)
  have rx2: "rx fd h2 = rx fd h1"
    using assms(6) unfolding flushed_def
    by (intro grows_rx) (auto elim!: grows_mono is_flush.elims)
  show ?thesis
    unfolding exchanged_def
    using d fs out in3 rx2 assms(3-5,7-11)
    by (intro exI [of _ d] exI [of _ out] exI [of _ fs] exI [of _ "pending_in c2"]) simp
qed

definition service_reasons :: "string set" where
  "service_reasons = {''socket error event'', ''full hangup'', ''receive error'',
     ''input buffer limit'', ''send error'', ''read EOF and output drained'',
     ''interest update failed''}"

text \<open>Everything a visit guarantees, for any outcome and for a retained client.\<close>

definition visited ::
  "event_poller \<Rightarrow> fd \<Rightarrow> Connection \<Rightarrow> KeyValueStore \<Rightarrow> history
     \<Rightarrow> string option \<times> Connection \<times> KeyValueStore \<times> history \<Rightarrow> bool" where
  "visited p fd c st h = (\<lambda>(reason, c', st', h').
     exchanged fd c st h c' st' h' \<and> grows (is_service (epfd p) fd) h h' \<and>
     socket c' = socket c \<and> conn_inv c' \<and> store_ok st' \<and>
     (\<forall>r. reason = Some r \<longrightarrow> r \<in> service_reasons) \<and>
     (reason = Some ''input buffer limit'' \<longrightarrow> stuck_tail c') \<and>
     (reason = Some ''read EOF and output drained'' \<longrightarrow> read_eof c' \<and> pending_out c' = []) \<and>
     (reason = None \<longrightarrow> pressure_ok c' \<and> live c' \<and>
        interest (epfd p) h' fd = Some (interest_mask (wanted c')) \<and>
        (has_runnable_input c \<and> pressure_ok c \<longrightarrow>
           length (frames_in c') < length (frames_in c))))"

lemma visited_quiet:
  assumes "conn_inv c" and "store_ok st" and "grows (is_service (epfd p) fd) h h'"
    and "rx fd h' = rx fd h" and "tx fd h' = tx fd h" and "r \<in> service_reasons"
    and "r \<noteq> ''input buffer limit''" and "r \<noteq> ''read EOF and output drained''"
  shows "visited p fd c st h (Some r, c, st, h')"
  using assms by (simp add: visited_def exchanged_quiet)

lemma grows_flushed: "flushed n fd c h c' h' \<Longrightarrow> grows (is_service ep fd) h h'"
  by (auto simp: flushed_def intro: grows_mono is_flush_service)

text \<open>From the flush on, whatever it achieved.\<close>

lemma visited_finish:
  assumes rec: "received (epfd p) fd c h c1 h1" and ran: "ran k c0 st c2 st'" "k \<le> kCommandBudget"
    and c0: "pending_in c0 = pending_in c1" "pending_out c0 = pending_out c1"
    and fl: "flushed n fd c2 h1 c3 h2" and link: "socket c2 = socket c" "read_eof c2 = read_eof c1"
    and tail: "\<not> stuck_tail c2" and st: "store_ok st'"
    and progress: "has_runnable_input c \<and> pressure_ok c \<Longrightarrow> 0 < k \<and> pending_in c0 = pending_in c"
    and fin: "finish_service K p fd c3 h2 = (reason, c4, h3)"
  shows "visited p fd c st h (reason, c4, st', h3)"
proof -
  have c3: "conn_inv c3" "socket c3 = socket c2" "pending_in c3 = pending_in c2"
    using fl by (auto simp: flushed_def same_input_def pending_in_def)
  have "\<not> stuck_tail c3"
    using tail c3(3) by (simp add: stuck_tail_def frames_in_def)
  note f = finish_service_spec [OF c3(1) this fin]
  have "exchanged fd c st h c4 st' h3"
    by (rule exchanged_stages [OF rec ran c0 fl f(9,10,5,7)])
       (use f(4) fl link(2) in \<open>simp add: flushed_def same_input_def\<close>)
  moreover have "grows (is_service (epfd p) fd) h h1"
    using rec by (simp add: received_def)
  then have "grows (is_service (epfd p) fd) h h3"
    by (rule grows_trans [OF grows_trans [OF _ grows_flushed [OF fl]] f(8)])
  moreover have "reason = Some r \<Longrightarrow> r \<in> service_reasons \<and> r \<noteq> ''input buffer limit''" for r
    using f(12) by (auto simp: service_reasons_def)
  moreover have "length (frames_in c4) < length (frames_in c)"
    if runnable: "has_runnable_input c" "pressure_ok c"
  proof -
    have "frames_in c4 = frames_in c3"
    proof (cases "pending_in c4 = pending_in c3")
      case False
      then have "frames_in c3 = []" "frames_in c4 = []"
        using f(7) by (simp_all add: frames_in_Nil)
      then show ?thesis by simp
    qed (simp add: frames_in_def)
    also have "\<dots> = drop k (frames_in c0)"
      using c3(3) ran(1) by (simp add: frames_in_def ran_def)
    also have "frames_in c0 = frames_in c"
      using progress runnable by (simp add: frames_in_def)
    finally have "frames_in c4 = drop k (frames_in c)" .
    moreover have "frames_in c \<noteq> []"
      using runnable(1) by (simp add: has_runnable_input_def conn_simps frames_in_Nil)
    ultimately show ?thesis
      using progress runnable by simp
  qed
  ultimately show ?thesis
    using f(1-3,11,13) c3(2) link st by (auto simp: visited_def)
qed

text \<open>Retirement before the end of the visit, with what was flushed so far.\<close>

lemma visited_abort:
  assumes rec: "received (epfd p) fd c h c1 h1" and ran: "ran k c0 st c2 st'" "k \<le> kCommandBudget"
    and c0: "pending_in c0 = pending_in c1" "pending_out c0 = pending_out c1"
    and fl: "flushed n fd c2 h1 c3 h2"
    and link: "socket c2 = socket c" "read_eof c2 = read_eof c1" and st: "store_ok st'"
    and quiet: "h3 = h2 \<or> (\<exists>op e. h3 = report_error op e h2)"
    and r: "r \<in> service_reasons" "r = ''input buffer limit'' \<longrightarrow> stuck_tail c3"
      "r \<noteq> ''read EOF and output drained''"
  shows "visited p fd c st h (Some r, c3, st', h3)"
proof -
  have h3: "rx fd h3 = rx fd h2" "tx fd h3 = tx fd h2" "grows (is_service (epfd p) fd) h2 h3"
    using quiet by (auto simp: report_error_def grows_def)
  have "exchanged fd c st h c3 st' h3"
    by (rule exchanged_stages [OF rec ran c0 fl h3(1,2) refl disjI1 [OF refl]])
       (use fl link(2) in \<open>simp add: flushed_def same_input_def\<close>)
  moreover have "grows (is_service (epfd p) fd) h h1"
    using rec by (simp add: received_def)
  then have "grows (is_service (epfd p) fd) h h3"
    by (rule grows_trans [OF grows_trans [OF _ grows_flushed [OF fl]] h3(3)])
  moreover have "socket c3 = socket c" "conn_inv c3"
    using fl link by (auto simp: flushed_def same_input_def)
  ultimately show ?thesis
    using st r by (simp add: visited_def)
qed

text \<open>What a visit does with the input it has: execute, flush, finish.\<close>

definition after_read ::
  "kernel \<Rightarrow> event_poller \<Rightarrow> fd \<Rightarrow> Connection \<Rightarrow> KeyValueStore \<Rightarrow> history
     \<Rightarrow> string option \<times> Connection \<times> KeyValueStore \<times> history" where
  "after_read K p fd c1 store h1 =
     (let (result, c2, store1) = process_input [] c1 store in
      case result of
        InputLimit \<Rightarrow> (Some ''input buffer limit'', c2, store1, h1)
      | OutputLimit \<Rightarrow> (Some ''response buffer limit'', c2, store1, h1)
      | Ok \<Rightarrow>
          (if has_pending_output c2
           then (case flush_output K c2 h1 of
                   (Inl e, c3, h2) \<Rightarrow> (Some ''send error'', c3, store1, report_error ''send'' e h2)
                 | (Inr _, c3, h2) \<Rightarrow>
                     (let (reason, c4, h3) = finish_service K p fd c3 h2 in (reason, c4, store1, h3)))
           else (let (reason, c4, h3) = finish_service K p fd c2 h1 in (reason, c4, store1, h3))))"

lemma service_client_normal:
  assumes "\<not> error_event ev" and "\<not> hangup ev"
  shows "service_client K p c ev st h =
     (case read_loop K kReadCallBudget ev c h of
        (Some reason, c1, h1) \<Rightarrow> (Some reason, c1, st, h1)
      | (None, c1, h1) \<Rightarrow> after_read K p (ufd_get (socket c)) c1 st h1)"
  unfolding service_client_def after_read_def using assms by (simp add: Let_def)

text \<open>Executing within the bounds, in the terms of the stages.\<close>

lemma process_stage:
  assumes "conn_inv c1" and "store_ok st"
  obtains r k c0 c2 st2 where "process_input [] c1 st = (r, c2, st2)"
    "pending_in c0 = pending_in c1" "pending_out c0 = pending_out c1" "ran k c0 st c2 st2"
    "k \<le> kCommandBudget" "conn_inv c2" "store_ok st2" "socket c2 = socket c1" "read_eof c2 = read_eof c1"
    "r = (if stuck_tail c2 then InputLimit else Ok)"
    "\<not> output_paused c1 \<and> pressure_ok c1 \<and> frames_in c1 \<noteq> [] \<longrightarrow> 0 < k"
proof -
  have "length (pending_in c1) + length [] \<le> kMaxInputBytes"
    using assms(1) by (auto simp: conn_inv_def pending_in_def)
  from process_input_spec [OF assms this] that show thesis
    unfolding same_link_def stuck_tail_def frames_in_def by (metis append_Nil2)
qed

lemma after_read_spec:
  assumes rec: "received (epfd p) fd c h c1 h1" and sock: "ufd_get (socket c) = fd"
    and st: "store_ok st" and K: "send_bounded K"
    and held: "has_runnable_input c \<Longrightarrow> c1 = c"
  shows "visited p fd c st h (after_read K p fd c1 st h1)"
proof -
  have c1: "conn_inv c1" "socket c1 = socket c"
    using rec by (simp_all add: received_def)
  obtain r k c0 c2 st2 where proc: "process_input [] c1 st = (r, c2, st2)"
    "pending_in c0 = pending_in c1" "pending_out c0 = pending_out c1" "ran k c0 st c2 st2"
    "k \<le> kCommandBudget" "conn_inv c2" "store_ok st2" "socket c2 = socket c" "read_eof c2 = read_eof c1"
    "r = (if stuck_tail c2 then InputLimit else Ok)"
    "\<not> output_paused c1 \<and> pressure_ok c1 \<and> frames_in c1 \<noteq> [] \<longrightarrow> 0 < k"
    using process_stage [OF c1(1) st] unfolding c1(2) by metis
  have progress: "0 < k \<and> pending_in c0 = pending_in c" if "has_runnable_input c \<and> pressure_ok c"
    using that held proc(2,11)
    by (auto simp: has_runnable_input_def conn_simps frames_in_Nil)
  note stage = rec proc(4,5,2,3)
  have nofl: "flushed 0 fd c2 h1 c2 h1" by (rule flushed_refl [OF proc(6)])
  show ?thesis
  proof (cases "stuck_tail c2")
    case True
    then have "visited p fd c st h (Some ''input buffer limit'', c2, st2, h1)"
      by (intro visited_abort [OF stage nofl proc(8,9,7)]) (auto simp: service_reasons_def)
    with True proc(1,10) show ?thesis by (simp add: after_read_def)
  next
    case False
    note finish = visited_finish [OF stage _ proc(8,9) False proc(7) progress]
    show ?thesis
    proof (cases "has_pending_output c2")
      case no_out: False
      obtain reason c4 h3 where fin: "finish_service K p fd c2 h1 = (reason, c4, h3)"
        by (metis prod_cases3)
      with finish [OF nofl _ fin] proc(1,10) False no_out show ?thesis
        by (simp add: after_read_def)
    next
      case out: True
      obtain f c3 h2 where flush: "flush_output K c2 h1 = (f, c3, h2)"
        by (metis prod_cases3)
      have fl: "flushed kWriteCallBudget fd c2 h1 c3 h2"
        using flush_output_spec(1) [OF proc(6) K flush] proc(8) sock by simp
      show ?thesis
      proof (cases f)
        case (Inl e)
        have "visited p fd c st h (Some ''send error'', c3, st2, report_error ''send'' e h2)"
          by (intro visited_abort [OF stage fl proc(8,9,7)]) (auto simp: service_reasons_def)
        with proc(1,10) False out flush Inl show ?thesis by (simp add: after_read_def)
      next
        case (Inr b)
        obtain reason c4 h3 where fin: "finish_service K p fd c3 h2 = (reason, c4, h3)"
          by (metis prod_cases3)
        with finish [OF fl _ fin] proc(1,10) False out flush Inr show ?thesis
          by (simp add: after_read_def)
      qed
    qed
  qed
qed

lemma service_client_spec:
  assumes inv: "conn_inv c" and st: "store_ok st" and K: "recv_bounded K" "send_bounded K"
  shows "visited p (ufd_get (socket c)) c st h (service_client K p c ev st h)"
proof -
  let ?fd = "ufd_get (socket c)"
  consider (err) "error_event ev" | (hup) "\<not> error_event ev" "hangup ev"
    | (normal) "\<not> error_event ev" "\<not> hangup ev" by blast
  then show ?thesis
  proof cases
    case err
    then show ?thesis
      using inv st
      by (auto simp: service_client_def sys_eqs report_error_def grows_def service_reasons_def Let_def
          intro!: visited_quiet split: sum.splits)
  next
    case hup
    then show ?thesis
      using inv st by (auto simp: service_client_def service_reasons_def intro!: visited_quiet)
  next
    case normal
    obtain q c1 h1 where loop: "read_loop K kReadCallBudget ev c h = (q, c1, h1)"
      by (metis prod_cases3)
    have rec: "received (epfd p) ?fd c h c1 h1" and q: "q \<in> {None, Some ''receive error''}"
      using read_loop_spec [OF inv K(1) loop] by blast+
    show ?thesis
    proof (cases q)
      case (Some r)
      have "visited p ?fd c st h (Some r, c1, st, h1)"
        using q Some st rec
        by (intro visited_abort [OF rec ran_0 _ refl refl flushed_refl [where n = 0]])
           (auto simp: service_reasons_def received_def)
      with loop Some show ?thesis by (simp add: service_client_normal [OF normal])
    next
      case None
      have "c1 = c" if "has_runnable_input c"
        using loop that
        by (simp add: kReadCallBudget_def read_loop.simps(2) [of K 15, simplified] can_read_def
            has_runnable_input_def)
      with loop None after_read_spec [OF rec refl st K(2)] show ?thesis
        by (simp add: service_client_normal [OF normal])
    qed
  qed
qed

end
