(* ===== verification/Server_Cases.thy ===== *)
theory Server_Cases
  imports Server
begin

text \<open>
  Inversion rules for the handlers of \<open>apps/server.cpp\<close>: how \<open>admit_client\<close>, one
  attempt of \<open>accept_loop\<close>, \<open>dispatch_event\<close> and a whole iteration can end, with the
  calls each branch makes. The invariant, the serialization of runs and the
  progress of clients all rest on them.
\<close>

subsection \<open>One descriptor\<close>

lemma delete_snoc: "map_of al fd = None \<Longrightarrow> AList.delete fd (al @ [(fd, c)]) = al"
  by (induction al) (auto split: if_splits)

lemma new_connection:
  "fd_ref (socket (fst (Connection_make K (UniqueFd fd) h))) = fd"
  "pending_in (fst (Connection_make K u h)) = []" "pending_out (fst (Connection_make K u h)) = []"
  by (simp_all add: Connection_make_def case_prod_beta ufd_defs pending_in_def pending_out_def)

text \<open>
  The client limit, a failed switch to nonblocking mode and a failed registration
  leave the map as it was and close the descriptor; otherwise the map has one
  more entry.
\<close>

lemma admit_client_cases:
  assumes run: "admit_client K fd s = Some o'"
    and fd: "fd \<noteq> -1" and none: "map_of (clients s) fd = None"
  obtains (full) "kMaxClients \<le> length (clients s)" "o' = Continue (s\<lparr>trace := trace s @ [Close fd]\<rparr>)"
  | (mode) es e where "list_all (is_fcntl fd) es"
      "o' = Continue (s\<lparr>trace := trace s @ es @ [Report ''client nonblocking'' e, Close fd]\<rparr>)"
  | (refused) es t e ev where "list_all (is_fcntl fd) es"
      "o' = Continue (s\<lparr>trace := trace s @ es @ [Now t,
         Epoll_Ctl (epfd (poller s)) EPOLL_CTL_ADD fd ev (Inl e), Report ''poller client add'' e, Close fd]\<rparr>)"
  | (added) es t h ev where "length (clients s) < kMaxClients" "list_all (is_fcntl fd) es"
      "ev = \<lparr>events = interest_mask \<lparr>want_read = True, want_write = False\<rparr>, data_fd = fd\<rparr>"
      "o' = Continue (s\<lparr>clients := clients s @ [(fd, fst (Connection_make K (UniqueFd fd) h))],
         trace := trace s @ es @ [Now t, Epoll_Ctl (epfd (poller s)) EPOLL_CTL_ADD fd (Some ev) (Inr ())]\<rparr>)"
proof (cases "kMaxClients \<le> length (clients s)")
  case True
  with run full show thesis
    by (simp add: admit_client_def ufd_destroy_UniqueFd [OF fd] Let_def)
next
  case room: False
  have "set_nonblocking K fd (trace s) \<noteq> None"
    using run room by (cases "set_nonblocking K fd (trace s)") (simp_all add: admit_client_def Let_def)
  then obtain q h1 where nb: "set_nonblocking K fd (trace s) = Some (q, h1)" by auto
  obtain es where es: "h1 = trace s @ es" "list_all (is_fcntl fd) es"
    using set_nonblocking_grows [OF nb] by (auto simp: grows_def)
  show thesis
  proof (cases q)
    case (Inl e)
    with run room nb es show thesis
      by (intro mode [of es e]) (simp_all add: admit_client_def ufd_destroy_UniqueFd [OF fd] Let_def report_error_def)
  next
    case (Inr u)
    let ?c = "fst (Connection_make K (UniqueFd fd) h1)" and ?h2 = "snd (Connection_make K (UniqueFd fd) h1)"
    let ?ev = "\<lparr>events = interest_mask \<lparr>want_read = True, want_write = False\<rparr>, data_fd = fd\<rparr>"
    obtain a h3 where add: "poller_add K (poller s) fd \<lparr>want_read = True, want_write = False\<rparr> ?h2 = (a, h3)"
      by (metis prod.exhaust)
    obtain t where h3: "h3 = trace s @ es @ [Now t, Epoll_Ctl (epfd (poller s)) EPOLL_CTL_ADD fd (Some ?ev) a]"
      using poller_add_history [OF add] es(1) by (simp add: Connection_make_def sys_eqs)
    have body: "o' = Continue (case a of
        Inl e \<Rightarrow> erase_client fd (s\<lparr>clients := clients s @ [(fd, ?c)],
          trace := report_error ''poller client add'' e h3\<rparr>)
      | Inr _ \<Rightarrow> s\<lparr>clients := clients s @ [(fd, ?c)], trace := h3\<rparr>)"
      using run room nb Inr none add
      by (simp add: admit_client_def Let_def case_prod_beta kLogConnections_def split: sum.splits)
    show thesis
    proof (cases a)
      case (Inl e)
      have "ufd_destroy (socket ?c) h = h @ [Close fd]" for h
        using fd by (simp add: ufd_destroy_def new_connection sys_close_def)
      then have "erase_client fd (s\<lparr>clients := clients s @ [(fd, ?c)], trace := h\<rparr>) =
          s\<lparr>trace := h @ [Close fd]\<rparr>" for h
        using none by (cases s) (simp add: erase_client_def map_add_def delete_snoc)
      with body Inl es(2) show thesis
        by (intro refused) (simp_all add: h3 report_error_def)
    next
      case (Inr u)
      with body es(2) room show thesis
        by (intro added) (simp_all add: h3)
    qed
  qed
qed

subsection \<open>One attempt of the accept loop\<close>

text \<open>The errors of \<open>accept\<close> that end the program.\<close>

definition fatal_accept :: "errno \<Rightarrow> bool" where
  "fatal_accept e \<longleftrightarrow> e \<noteq> EINTR \<and> e \<noteq> EAGAIN \<and> e \<noteq> EWOULDBLOCK \<and> \<not> recoverable_accept_error e"

lemma accept_loop_cases:
  assumes run: "accept_loop K (Suc n) s = Some o'"
  obtains (again) e es where
      "es \<in> {[Accept (fd_ref (listener s)) (Inl e)],
              [Accept (fd_ref (listener s)) (Inl e), Report ''accept'' e]}"
      "accept_loop K n (s\<lparr>trace := trace s @ es\<rparr>) = Some o'"
  | (drained) "o' = Continue (s\<lparr>trace := trace s @ [Accept (fd_ref (listener s)) (Inl EAGAIN)]\<rparr>)"
  | (fatal) e where "fatal_accept e"
      "o' = Return 1 (s\<lparr>trace := trace s @ [Accept (fd_ref (listener s)) (Inl e), Report ''accept'' e]\<rparr>)"
  | (client) fd o1 where "k_accept K (trace s) (fd_ref (listener s)) = Inr fd"
      "admit_client K fd (s\<lparr>trace := trace s @ [Accept (fd_ref (listener s)) (Inr fd)]\<rparr>) = Some o1"
      "\<forall>t. o1 = Continue t \<longrightarrow> accept_loop K n t = Some o'"
proof (cases "k_accept K (trace s) (fd_ref (listener s))")
  case (Inl e)
  let ?h = "trace s @ [Accept (fd_ref (listener s)) (Inl e)]"
  have eq: "(if e = EINTR then accept_loop K n (s\<lparr>trace := ?h\<rparr>)
         else if e = EAGAIN \<or> e = EWOULDBLOCK then Some (Continue (s\<lparr>trace := ?h\<rparr>))
         else if recoverable_accept_error e
         then accept_loop K n (s\<lparr>trace := ?h @ [Report ''accept'' e]\<rparr>)
         else Some (Return 1 (s\<lparr>trace := ?h @ [Report ''accept'' e]\<rparr>))) = Some o'"
    using run Inl by (simp add: sys_eqs ufd_get_def report_error_def Let_def cong: if_cong)
  consider "e = EINTR" | "e \<noteq> EINTR" "e = EAGAIN"
    | "e \<noteq> EINTR" "e \<noteq> EAGAIN" "recoverable_accept_error e" | "fatal_accept e"
    unfolding fatal_accept_def by blast
  then show thesis
  proof cases
    case 1
    with eq show thesis by (intro again [of _ e]) simp_all
  next
    case 2
    with eq show thesis by (intro drained) simp
  next
    case 3
    with eq show thesis by (intro again [of _ e]) simp_all
  next
    case 4
    with eq show thesis by (intro fatal [of e]) (simp_all add: fatal_accept_def)
  qed
next
  case (Inr fd)
  let ?s1 = "s\<lparr>trace := trace s @ [Accept (fd_ref (listener s)) (Inr fd)]\<rparr>"
  obtain o1 where o1: "admit_client K fd ?s1 = Some o1"
    using run Inr by (cases "admit_client K fd ?s1") (simp_all add: sys_eqs ufd_get_def Let_def)
  with run Inr show thesis
    by (intro client [of fd o1]) (auto simp add: sys_eqs ufd_get_def Let_def)
qed

subsection \<open>One event, one iteration\<close>

lemma dispatch_event_cases:
  assumes run: "dispatch_event K ev s = Some o'"
  obtains (client) c where "ready_fd ev \<noteq> fd_ref (listener s)" "map_of (clients s) (ready_fd ev) = Some c"
      "o' = Continue (service_entry K (ready_fd ev) c ev s)"
  | (unknown) "ready_fd ev \<noteq> fd_ref (listener s)" "map_of (clients s) (ready_fd ev) = None"
      "o' = Return 1 (s\<lparr>trace := trace s @ [Stderr ''poller returned an unknown client descriptor'']\<rparr>)"
  | (listener_error) "ready_fd ev = fd_ref (listener s)"
      "o' = Return 1 (s\<lparr>trace := trace s @ [Stderr ''listener reported an unexpected event'']\<rparr>)"
  | (accept) "ready_fd ev = fd_ref (listener s)" "accept_loop K kAcceptBudget s = Some o'"
proof (cases "ready_fd ev = fd_ref (listener s)")
  case True
  show thesis
  proof (cases "\<not> readable ev \<or> error_event ev \<or> hangup ev")
    case bad: True
    with run True show thesis by (intro listener_error) (auto simp: dispatch_event_def ufd_get_def)
  next
    case False
    with run True show thesis by (intro accept) (auto simp: dispatch_event_def ufd_get_def)
  qed
next
  case False
  show thesis
  proof (cases "map_of (clients s) (ready_fd ev)")
    case None
    with run False show thesis by (intro unknown) (auto simp: dispatch_event_def ufd_get_def)
  next
    case (Some c)
    with run False show thesis by (intro client) (auto simp: dispatch_event_def ufd_get_def)
  qed
qed

text \<open>The timeout of the wait: poll while the sweep left runnable input behind.\<close>

definition wait_ms :: "bool \<Rightarrow> int" where
  "wait_ms runnable_remains = (if runnable_remains then 0 else kTimerPollMs)"

lemma event_loop_iteration_cases:
  assumes run: "event_loop_iteration K order s = Some o'"
  obtains (failed) s1 r e where "sweep K order s False = (s1, r)" "e \<noteq> EINTR"
      "k_epoll_wait K (trace s1) (epfd (poller s1)) (wait_ms r) = Inl e"
      "o' = Return 1 (s1\<lparr>trace := trace s1 @ [Epoll_Wait (epfd (poller s1)) (wait_ms r) (Inl e),
         Report ''poller wait'' e]\<rparr>)"
  | (idle) s1 r a where "sweep K order s False = (s1, r)"
      "k_epoll_wait K (trace s1) (epfd (poller s1)) (wait_ms r) = a" "\<And>ev. a \<noteq> Inr (Some ev)"
      "o' = Continue (s1\<lparr>trace := trace s1 @ [Epoll_Wait (epfd (poller s1)) (wait_ms r) a]\<rparr>)"
  | (event) s1 r ev where "sweep K order s False = (s1, r)"
      "k_epoll_wait K (trace s1) (epfd (poller s1)) (wait_ms r) = Inr (Some ev)"
      "dispatch_event K (decode_event ev)
         (s1\<lparr>trace := trace s1 @ [Epoll_Wait (epfd (poller s1)) (wait_ms r) (Inr (Some ev))]\<rparr>) = Some o'"
proof -
  obtain s1 r where sw: "sweep K order s False = (s1, r)" by (metis prod.exhaust)
  note run' = run [unfolded event_loop_iteration_def, simplified sw prod.case Let_def wait_ms_def [symmetric],
      unfolded wait_one_def sys_epoll_wait_def ufd_get_def Let_def prod.case]
  show thesis
  proof (cases "k_epoll_wait K (trace s1) (epfd (poller s1)) (wait_ms r)")
    case (Inl e)
    show thesis
    proof (cases "e = EINTR")
      case True
      with run' Inl show thesis by (intro idle [OF sw Inl]) (auto simp: report_error_def)
    next
      case False
      with run' Inl show thesis by (intro failed [OF sw False Inl]) (auto simp: report_error_def)
    qed
  next
    case (Inr a)
    show thesis
    proof (cases a)
      case None
      with run' Inr show thesis by (intro idle [OF sw Inr]) auto
    next
      case (Some ev)
      with run' Inr show thesis by (intro event [OF sw]) auto
    qed
  qed
qed

end
