(* ===== verification/Server_Invariant.thy ===== *)
theory Server_Invariant
  imports Visit Server_Cases
begin

text \<open>
  What the event loop keeps true (\<open>main\<close> of \<open>apps/server.cpp\<close>).
  \<open>client_ok\<close> is what holds of one map entry between visits; \<open>consistent X E\<close>
  of the whole server while the entries \<open>X\<close> are being serviced and the
  descriptors \<open>E\<close> have just been handed out; \<open>server_inv\<close> between iterations.
  Every handler keeps it, so it holds in every reachable state.
\<close>

subsection \<open>The invariant\<close>

definition client_ok :: "fd \<Rightarrow> history \<Rightarrow> fd \<Rightarrow> Connection \<Rightarrow> bool" where
  "client_ok ep h fd c \<longleftrightarrow>
     conn_inv c \<and> pressure_ok c \<and> live c \<and> interest ep h fd = Some (interest_mask (wanted c))"

definition keys :: "server \<Rightarrow> fd list" where
  "keys s = map fst (clients s)"

abbreviation ep_of :: "server \<Rightarrow> fd" where "ep_of s \<equiv> epfd (poller s)"
abbreviation listen_of :: "server \<Rightarrow> fd" where "listen_of s \<equiv> fd_ref (listener s)"

text \<open>The descriptors of the server's objects.\<close>

definition owned :: "server \<Rightarrow> fd list" where
  "owned s = listen_of s # ep_of s # keys s"

definition listener_mask :: "32 word" where
  "listener_mask = interest_mask \<lparr>want_read = True, want_write = False\<rparr>"

definition consistent :: "fd set \<Rightarrow> fd set \<Rightarrow> server \<Rightarrow> bool" where
  "consistent X E s \<longleftrightarrow>
     distinct (owned s) \<and> -1 \<notin> set (owned s) \<and> store_ok (kv_store s) \<and>
     open_fds (trace s) = set (owned s) \<union> E \<and> E \<inter> set (owned s) = {} \<and>
     interest (ep_of s) (trace s) (listen_of s) = Some listener_mask \<and>
     (\<forall>fd. interest (ep_of s) (trace s) fd \<noteq> None \<longrightarrow> fd = listen_of s \<or> fd \<in> set (keys s)) \<and>
     (\<forall>fd c. map_of (clients s) fd = Some c \<longrightarrow>
        fd_ref (socket c) = fd \<and> (fd \<notin> X \<longrightarrow> client_ok (ep_of s) (trace s) fd c))"

definition server_inv :: "server \<Rightarrow> bool" where
  "server_inv s \<longleftrightarrow> consistent {} {} s \<and> length (clients s) \<le> kMaxClients"

lemma keys_map_of: "fd \<in> set (keys s) \<longleftrightarrow> map_of (clients s) fd \<noteq> None"
  by (simp add: keys_def map_of_eq_None_iff)

lemma consistent_client:
  assumes "consistent X E s" and "map_of (clients s) fd = Some c"
  shows "fd_ref (socket c) = fd" "fd \<notin> X \<Longrightarrow> client_ok (ep_of s) (trace s) fd c"
    "fd \<noteq> listen_of s" "fd \<noteq> ep_of s" "fd \<noteq> -1" "fd \<notin> E"
proof -
  have "fd \<in> set (keys s)" using assms(2) by (simp add: keys_map_of)
  then show "fd \<noteq> listen_of s" "fd \<noteq> ep_of s" "fd \<noteq> -1" "fd \<notin> E"
    using assms(1) by (auto simp: consistent_def owned_def)
qed (use assms in \<open>auto simp: consistent_def\<close>)

subsection \<open>Quiet calls\<close>

text \<open>Calls that open, close and register nothing.\<close>

definition is_quiet :: "sys_event \<Rightarrow> bool" where
  "is_quiet e \<longleftrightarrow> (\<forall>A. open1 A e = A) \<and> (\<forall>ep m. interest1 ep m e = m)"

lemma is_quiet_simps [simp]:
  "is_quiet (Now t)" "is_quiet (Report op e)" "is_quiet (Stderr msg)" "is_quiet (Stdout msg)"
  "is_quiet (Epoll_Wait ep t q)" "is_quiet (Accept fd (Inl e))" "is_quiet (Getline l)"
  "is_quiet (Getfl fd w)" "is_quiet (Setfl fd w' u)" "is_quiet (Setsockopt_Reuse fd v)"
  "is_quiet (Bind_Port fd n v)" "is_quiet (Listen fd n v)"
  by (simp_all add: is_quiet_def)

lemma is_fcntl_is_quiet: "is_fcntl fd e \<Longrightarrow> is_quiet e"
  by (cases e) simp_all

lemma grows_quiet:
  assumes "grows is_quiet h h'"
  shows "open_fds h' = open_fds h" "interest ep h' = interest ep h"
proof -
  show "open_fds h' = open_fds h"
    using assms by (intro grows_open) (auto simp: is_quiet_def elim!: grows_mono)
  show "interest ep h' = interest ep h"
    using assms by (intro ext grows_interest) (auto simp: is_quiet_def elim!: grows_mono)
qed

lemma consistent_quiet:
  assumes "consistent X E s" and "grows is_quiet (trace s) h"
  shows "consistent X E (s\<lparr>trace := h\<rparr>)"
  using assms grows_quiet [OF assms(2)]
  by (simp add: consistent_def owned_def keys_def client_ok_def)

lemma server_inv_quiet: "server_inv s \<Longrightarrow> grows is_quiet (trace s) h \<Longrightarrow> server_inv (s\<lparr>trace := h\<rparr>)"
  by (simp add: server_inv_def consistent_quiet)

subsection \<open>Servicing and retiring\<close>

lemma grows_service:
  assumes "grows (is_service ep fd) h h'"
  shows "open_fds h' = open_fds h" "fd' \<noteq> fd \<Longrightarrow> interest ep' h' fd' = interest ep' h fd'"
    "fd' \<noteq> fd \<Longrightarrow> tx fd' h' = tx fd' h" "fd' \<noteq> fd \<Longrightarrow> rx fd' h' = rx fd' h"
proof -
  show "open_fds h' = open_fds h"
    by (rule grows_open, rule grows_mono [OF assms]) (simp add: is_service_quiet)
  show "fd' \<noteq> fd \<Longrightarrow> interest ep' h' fd' = interest ep' h fd'"
    by (rule grows_interest, rule grows_mono [OF assms]) (simp add: is_service_quiet)
  show "fd' \<noteq> fd \<Longrightarrow> tx fd' h' = tx fd' h"
    by (rule grows_tx, rule grows_mono [OF assms]) (simp add: is_service_quiet)
  show "fd' \<noteq> fd \<Longrightarrow> rx fd' h' = rx fd' h"
    by (rule grows_rx, rule grows_mono [OF assms]) (simp add: is_service_quiet)
qed

lemma keys_update: "fd \<in> set (keys s) \<Longrightarrow> map fst (AList.update fd c (clients s)) = keys s"
  by (simp add: keys_def update_keys)

lemma consistent_service:
  assumes inv: "consistent X E s" and fd: "fd \<in> set (keys s)"
    and c1: "fd_ref (socket c1) = fd" and st: "store_ok st"
    and h: "grows (is_service (ep_of s) fd) (trace s) h"
  shows "consistent (insert fd X) E
           (s\<lparr>clients := AList.update fd c1 (clients s), kv_store := st, trace := h\<rparr>)"
proof -
  let ?s = "s\<lparr>clients := AList.update fd c1 (clients s), kv_store := st, trace := h\<rparr>"
  have keys: "keys ?s = keys s"
    using keys_update [OF fd] by (simp add: keys_def)
  have frame: "client_ok (ep_of s) h fd' c' = client_ok (ep_of s) (trace s) fd' c'"
    if "fd' \<noteq> fd" for fd' c'
    using grows_service(2) [OF h that] by (simp add: client_ok_def)
  have fd': "fd \<noteq> listen_of s"
    using fd inv by (auto simp: consistent_def owned_def)
  show ?thesis
    unfolding consistent_def
    using inv st c1 fd fd' grows_service(1) [OF h] grows_service(2) [OF h, of _ "ep_of s"] frame
    by (auto simp: keys consistent_def owned_def update_conv' fun_upd_def simp del: o_apply)
      (metis option.distinct(1))+
qed

lemma consistent_settle:
  assumes inv: "consistent {fd} E s" and c: "map_of (clients s) fd = Some c"
    and ok: "client_ok (ep_of s) (trace s) fd c"
  shows "consistent {} E s"
  using assms unfolding consistent_def by (metis empty_iff insert_iff option.inject)

text \<open>The calls of a visit, its retirement included: all about one descriptor.\<close>

fun is_visit :: "fd \<Rightarrow> fd \<Rightarrow> sys_event \<Rightarrow> bool" where
  "is_visit ep fd (Epoll_Ctl ep' op fd' _ _) = (fd' = fd)"
| "is_visit ep fd (Close fd') = (fd' = fd)"
| "is_visit ep fd e = is_service ep fd e"

lemma is_service_visit: "is_service ep fd e \<Longrightarrow> is_visit ep fd e"
  by (cases e) simp_all

lemma is_visit_quiet:
  assumes "is_visit ep fd e" and "fd' \<noteq> fd"
  shows "tx1 fd' e = []" "rx1 fd' e = []" "interest1 ep' m e fd' = m fd'" "accepted1 e = []"
    "fd' \<in> open1 A e \<longleftrightarrow> fd' \<in> A"
  using assms by (cases e; simp add: observe_answer split: sum.split)+

lemma grows_visit:
  assumes "grows (is_visit ep fd) h h'" and "fd' \<noteq> fd"
  shows "tx fd' h' = tx fd' h" "rx fd' h' = rx fd' h" "interest ep' h' fd' = interest ep' h fd'"
  using is_visit_quiet [OF _ assms(2)]
  by (auto intro!: grows_tx grows_rx grows_interest intro: grows_mono [OF assms(1)])

text \<open>Erasing an entry closes its descriptor, and epoll forgets it.\<close>

lemma erase_client_eq:
  assumes "map_of (clients s) fd = Some c" and "fd_ref (socket c) = fd" and "fd \<noteq> -1"
  shows "erase_client fd s =
     s\<lparr>clients := AList.delete fd (clients s), trace := trace s @ [Close fd]\<rparr>"
  using assms by (simp add: erase_client_def ufd_destroy_def sys_close_def)

lemma consistent_erase:
  assumes inv: "consistent {fd} E s" and fd: "fd \<in> set (keys s)"
  shows "consistent {} E (erase_client fd s)"
    and "keys (erase_client fd s) = removeAll fd (keys s)"
proof -
  obtain c where c: "map_of (clients s) fd = Some c"
    using fd by (auto simp: keys_map_of)
  note cl = consistent_client [OF inv c]
  note eq = erase_client_eq [OF c cl(1,5)]
  have keys: "keys (erase_client fd s) = removeAll fd (keys s)"
    by (simp add: eq keys_def delete_keys)
  then show "keys (erase_client fd s) = removeAll fd (keys s)" .
  have int: "interest ep (trace (erase_client fd s)) = (interest ep (trace s))(fd := None)" for ep
    by (simp add: eq)
  have dist: "distinct (owned s)" and op: "open_fds (trace s) = set (owned s) \<union> E"
    using inv by (simp_all add: consistent_def)
  have own: "set (owned (erase_client fd s)) = set (owned s) - {fd}"
    using keys cl(3,4) dist by (auto simp: owned_def eq)
  have "open_fds (trace (erase_client fd s)) = set (owned (erase_client fd s)) \<union> E"
    using op own cl(6) by (auto simp: eq)
  moreover have "distinct (owned (erase_client fd s))" "-1 \<notin> set (owned (erase_client fd s))"
    "E \<inter> set (owned (erase_client fd s)) = {}"
    using inv keys own by (auto simp: consistent_def owned_def eq distinct_removeAll)
  ultimately show "consistent {} E (erase_client fd s)"
    using inv int cl(3) keys
    unfolding consistent_def
    by (auto simp: eq delete_conv' keys_def delete_keys client_ok_def split: if_splits)
qed

text \<open>\<open>EPOLL_CTL_DEL\<close> and the report of its failure leave the rest alone.\<close>

definition quiet_exit :: "fd \<Rightarrow> fd \<Rightarrow> history \<Rightarrow> bool" where
  "quiet_exit ep fd es \<longleftrightarrow> closed es = [] \<and> accepted es = [] \<and> (\<forall>f. tx f es = [] \<and> rx f es = []) \<and>
     list_all (is_visit ep fd) es"

lemma consistent_frame:
  assumes inv: "consistent X E s" and fd: "fd \<in> set (keys s)" "fd \<in> X"
    and op: "open_fds h = open_fds (trace s)"
    and int: "\<And>fd'. fd' \<noteq> fd \<Longrightarrow> interest (ep_of s) h fd' = interest (ep_of s) (trace s) fd'"
  shows "consistent X E (s\<lparr>trace := h\<rparr>)"
proof -
  have "fd \<noteq> listen_of s"
    using inv fd by (auto simp: consistent_def owned_def)
  then have lst: "interest (ep_of s) h (listen_of s) = Some listener_mask"
    using inv int by (simp add: consistent_def)
  have reg: "fd' = listen_of s \<or> fd' \<in> set (keys s)" if "interest (ep_of s) h fd' \<noteq> None" for fd'
    using that inv int [of fd'] fd(1) by (cases "fd' = fd") (auto simp: consistent_def)
  have cl: "fd_ref (socket c) = fd' \<and> (fd' \<notin> X \<longrightarrow> client_ok (ep_of s) h fd' c)"
    if "map_of (clients s) fd' = Some c" for fd' c
    using consistent_client(1,2) [OF inv that] int [of fd'] fd(2)
    by (cases "fd' = fd") (auto simp: client_ok_def)
  show ?thesis
    unfolding consistent_def
    using inv op lst reg cl by (simp add: consistent_def owned_def keys_def)
qed

lemma consistent_retire:
  assumes inv: "consistent {fd} E s" and fd: "fd \<in> set (keys s)"
  shows "consistent {} E (retire_client K fd r s)"
    and "keys (retire_client K fd r s) = removeAll fd (keys s)"
    and "\<exists>es. trace (retire_client K fd r s) = trace s @ es @ [Close fd] \<and> quiet_exit (ep_of s) fd es"
proof -
  obtain removed h1 where rm: "poller_remove K (poller s) fd (trace s) = (removed, h1)"
    by (metis prod.exhaust)
  define h2 where
    "h2 = (case removed of Inl e \<Rightarrow> report_error ''poller remove'' e h1 | Inr _ \<Rightarrow> h1)"
  have eq: "retire_client K fd r s = erase_client fd (s\<lparr>trace := h2\<rparr>)"
    by (simp add: retire_client_def rm h2_def kLogConnections_def)
  note h1 = poller_remove_history [OF rm]
  have h2: "open_fds h2 = open_fds (trace s)"
    "fd' \<noteq> fd \<Longrightarrow> interest (ep_of s) h2 fd' = interest (ep_of s) (trace s) fd'"
    "\<exists>es. h2 = trace s @ es \<and> quiet_exit (ep_of s) fd es" for fd'
    using h1 by (auto simp: h2_def report_error_def quiet_exit_def split: sum.splits)
  have "consistent {fd} E (s\<lparr>trace := h2\<rparr>)"
    by (rule consistent_frame [OF inv fd _ h2(1,2)]) simp_all
  moreover have k: "fd \<in> set (keys (s\<lparr>trace := h2\<rparr>))"
    using fd by (simp add: keys_def)
  ultimately show "consistent {} E (retire_client K fd r s)"
    "keys (retire_client K fd r s) = removeAll fd (keys s)"
    using consistent_erase [of fd E "s\<lparr>trace := h2\<rparr>"] by (simp_all add: eq keys_def)
  obtain c where c: "map_of (clients (s\<lparr>trace := h2\<rparr>)) fd = Some c"
    using fd by (auto simp: keys_map_of)
  note cl = consistent_client [OF \<open>consistent {fd} E (s\<lparr>trace := h2\<rparr>)\<close> c]
  show "\<exists>es. trace (retire_client K fd r s) = trace s @ es @ [Close fd] \<and> quiet_exit (ep_of s) fd es"
    using h2(3) by (auto simp: eq erase_client_eq [OF c cl(1,5)])
qed

lemma retire_same:
  "listener (retire_client K fd r s) = listener s" "poller (retire_client K fd r s) = poller s"
  "kv_store (retire_client K fd r s) = kv_store s"
  by (simp_all add: retire_client_def erase_client_def case_prod_beta Let_def
      split: option.split)

lemma retire_map_of: "map_of (clients (retire_client K fd r s)) = (map_of (clients s))(fd := None)"
  by (auto simp: retire_client_def erase_client_def case_prod_beta Let_def delete_conv'
      split: option.split)

lemma length_keys: "length (clients s) = length (keys s)"
  by (simp add: keys_def)

text \<open>The entry after its service: the visited connection, or retired and closed.\<close>

definition served_entry ::
  "kernel \<Rightarrow> fd \<Rightarrow> Connection \<Rightarrow> ready_event \<Rightarrow> server \<Rightarrow> server \<Rightarrow> bool" where
  "served_entry K fd c ev s t \<longleftrightarrow>
     (\<exists>reason c1 h1.
        service_client K (poller s) c ev (kv_store s) (trace s) = (reason, c1, kv_store t, h1) \<and>
        visited (poller s) fd c (kv_store s) (trace s) (reason, c1, kv_store t, h1) \<and>
        map_of (clients t) fd = (if reason = None then Some c1 else None) \<and>
        (if reason = None then trace t = h1
         else \<exists>es. trace t = h1 @ es @ [Close fd] \<and> quiet_exit (ep_of s) fd es))"

lemma service_entry_inv:
  assumes inv: "consistent {} E s" and c: "map_of (clients s) fd = Some c"
    and K: "recv_bounded K" "send_bounded K"
  shows "consistent {} E (service_entry K fd c ev s)"
    and "keys (service_entry K fd c ev s) \<in> {keys s, removeAll fd (keys s)}"
    and "grows (is_visit (ep_of s) fd) (trace s) (trace (service_entry K fd c ev s))"
    and "served_entry K fd c ev s (service_entry K fd c ev s)"
proof -
  note cl = consistent_client [OF inv c]
  obtain reason c1 st1 h1 where
    run: "service_client K (poller s) c ev (kv_store s) (trace s) = (reason, c1, st1, h1)"
    by (metis prod_cases4)
  have "conn_inv c" "store_ok (kv_store s)"
    using cl(2) inv by (simp_all add: client_ok_def consistent_def)
  from service_client_spec [OF this K, where p = "poller s" and ev = ev and h = "trace s"]
  have vis: "visited (poller s) fd c (kv_store s) (trace s) (reason, c1, st1, h1)"
    using cl(1) by (simp add: run ufd_get_def)
  define s1 where "s1 = s\<lparr>clients := AList.update fd c1 (clients s), kv_store := st1, trace := h1\<rparr>"
  have fd: "fd \<in> set (keys s)" using c by (simp add: keys_map_of)
  have keys: "keys s1 = keys s"
    using keys_update [OF fd] by (simp add: s1_def keys_def)
  have s1: "consistent {fd} E s1"
    unfolding s1_def
    by (rule consistent_service [OF inv fd])
       (use vis cl(1) in \<open>simp_all add: visited_def\<close>)
  have body: "service_entry K fd c ev s =
      (case reason of Some r \<Rightarrow> retire_client K fd r s1 | None \<Rightarrow> s1)"
    by (simp add: service_entry_def run s1_def [symmetric])
  show "consistent {} E (service_entry K fd c ev s)"
  proof (cases reason)
    case None
    have "map_of (clients s1) fd = Some c1"
      by (simp add: s1_def update_conv')
    moreover have "client_ok (ep_of s1) (trace s1) fd c1"
      using vis None by (simp add: visited_def client_ok_def s1_def)
    ultimately show ?thesis
      using consistent_settle [OF s1] None by (simp add: body)
  next
    case (Some r)
    with consistent_retire(1) [OF s1] fd show ?thesis by (simp add: body keys)
  qed
  have g: "grows (is_visit (ep_of s) fd) (trace s) (trace s1)"
    using vis by (auto simp: s1_def visited_def intro: grows_mono is_service_visit)
  moreover have "grows (is_visit (ep_of s1) fd) (trace s1) (trace (retire_client K fd r s1))" for r
    using consistent_retire(3) [OF s1, of K r] fd by (auto simp: keys grows_def quiet_exit_def)
  ultimately show "grows (is_visit (ep_of s) fd) (trace s) (trace (service_entry K fd c ev s))"
    by (cases reason) (auto simp: body s1_def intro: grows_trans)
  have "map_of (clients (service_entry K fd c ev s)) fd = (if reason = None then Some c1 else None)"
    by (cases reason) (simp_all add: body retire_map_of, simp add: s1_def update_conv')
  moreover have "kv_store (service_entry K fd c ev s) = st1"
    by (cases reason) (simp_all add: body retire_same, simp_all add: s1_def)
  moreover have "\<exists>es. trace (retire_client K fd r s1) = h1 @ es @ [Close fd] \<and> quiet_exit (ep_of s) fd es" for r
    using consistent_retire(3) [OF s1, of K r] fd by (simp add: keys, simp add: s1_def)
  ultimately show "served_entry K fd c ev s (service_entry K fd c ev s)"
    using vis run unfolding served_entry_def
    by (intro exI [of _ reason] exI [of _ c1] exI [of _ h1]) (cases reason, auto simp: body s1_def)
  show "keys (service_entry K fd c ev s) \<in> {keys s, removeAll fd (keys s)}"
    using consistent_retire(2) [OF s1] fd keys by (cases reason) (simp_all add: body)
qed

lemma service_entry_same:
  "listener (service_entry K fd c ev s) = listener s" "poller (service_entry K fd c ev s) = poller s"
  by (simp_all add: service_entry_def case_prod_beta Let_def retire_same split: option.split)

subsection \<open>The sweep\<close>

lemma now_inv:
  "consistent X E s \<Longrightarrow> consistent X E (s\<lparr>trace := snd (sys_now K (trace s))\<rparr>)"
  by (rule consistent_quiet) (auto simp: sys_eqs)

text \<open>The state in which a visit that does not retire an idle client ends.\<close>

definition after_service :: "kernel \<Rightarrow> fd \<Rightarrow> Connection \<Rightarrow> server \<Rightarrow> server" where
  "after_service K fd c s =
     (let s0 = s\<lparr>trace := snd (sys_now K (trace s))\<rparr>
      in if has_runnable_input c then service_entry K fd c no_event s0 else s0)"

lemma visit_client_Some:
  assumes "map_of (clients s) fd = Some c"
  shows "visit_client K fd s =
    (if k_now K (trace s) - last_progress c \<ge> kIdleTimeout
     then (retire_client K fd ''idle timeout'' (s\<lparr>trace := snd (sys_now K (trace s))\<rparr>), False)
     else (after_service K fd c s,
           \<exists>c1. map_of (clients (after_service K fd c s)) fd = Some c1 \<and> has_runnable_input c1))"
  using assms
  by (auto simp: visit_client_def after_service_def sys_now_def Let_def split: option.split)

lemma visit_client_cases:
  assumes "map_of (clients s) fd = Some c"
  obtains (idle) "k_now K (trace s) - last_progress c \<ge> kIdleTimeout"
      "fst (visit_client K fd s) =
         retire_client K fd ''idle timeout'' (s\<lparr>trace := snd (sys_now K (trace s))\<rparr>)"
  | (serve) "has_runnable_input c" "k_now K (trace s) - last_progress c < kIdleTimeout"
      "fst (visit_client K fd s) =
         service_entry K fd c no_event (s\<lparr>trace := snd (sys_now K (trace s))\<rparr>)"
  | (skip) "\<not> has_runnable_input c"
      "fst (visit_client K fd s) = s\<lparr>trace := snd (sys_now K (trace s))\<rparr>"
proof (cases "k_now K (trace s) - last_progress c \<ge> kIdleTimeout")
  case True
  with idle show thesis by (simp add: visit_client_Some [OF assms])
next
  case False
  with serve skip show thesis
    by (cases "has_runnable_input c") (simp_all add: visit_client_Some [OF assms] after_service_def)
qed

lemma visit_client_inv:
  assumes inv: "consistent {} E s" and K: "recv_bounded K" "send_bounded K"
  shows "consistent {} E (fst (visit_client K fd s))"
    and "keys (fst (visit_client K fd s)) \<in> {keys s, removeAll fd (keys s)}"
    and "grows (is_visit (ep_of s) fd) (trace s) (trace (fst (visit_client K fd s)))"
proof -
  let ?t = "fst (visit_client K fd s)"
  have "consistent {} E ?t \<and> keys ?t \<in> {keys s, removeAll fd (keys s)} \<and>
      grows (is_visit (ep_of s) fd) (trace s) (trace ?t)"
  proof (cases "map_of (clients s) fd")
    case None
    with inv show ?thesis by (simp add: visit_client_def)
  next
    case (Some c)
    let ?s0 = "s\<lparr>trace := snd (sys_now K (trace s))\<rparr>"
    have s0: "consistent {} E ?s0" by (rule now_inv [OF inv])
    then have s0': "consistent {fd} E ?s0" by (auto simp: consistent_def)
    have c0: "map_of (clients ?s0) fd = Some c" using Some by simp
    have k0: "keys ?s0 = keys s" "fd \<in> set (keys ?s0)"
      using c0 by (simp add: keys_def) (use c0 keys_map_of in blast)
    have g0: "grows (is_visit (ep_of s) fd) (trace s) (trace ?s0)"
      by (auto simp: sys_eqs grows_def)
    from Some show ?thesis
    proof (cases rule: visit_client_cases [where K = K])
      case idle
      then show ?thesis
        using consistent_retire [OF s0' k0(2)] k0(1) g0 by (fastforce simp: grows_def quiet_exit_def)
    next
      case serve
      then show ?thesis
        using service_entry_inv [OF s0 c0 K, of no_event] k0(1) grows_trans [OF g0] by simp
    next
      case skip
      then show ?thesis using s0 k0(1) g0 by simp
    qed
  qed
  then show "consistent {} E ?t" "keys ?t \<in> {keys s, removeAll fd (keys s)}"
    "grows (is_visit (ep_of s) fd) (trace s) (trace ?t)" by simp_all
qed

text \<open>A visit touches one entry, and its flag tells whether that entry is still runnable.\<close>

lemma service_entry_other:
  "fd' \<noteq> fd \<Longrightarrow> map_of (clients (service_entry K fd c ev s)) fd' = map_of (clients s) fd'"
  by (simp add: service_entry_def case_prod_beta Let_def retire_map_of update_conv'
      split: option.split)

lemma visit_client_frame:
  "listener (fst (visit_client K fd s)) = listener s"
  "poller (fst (visit_client K fd s)) = poller s"
  "fd' \<noteq> fd \<Longrightarrow> map_of (clients (fst (visit_client K fd s))) fd' = map_of (clients s) fd'"
  by (cases "map_of (clients s) fd";
      simp add: visit_client_def visit_client_Some after_service_def Let_def case_prod_beta
        retire_same retire_map_of service_entry_same service_entry_other split: option.split)+

definition runnable_at :: "server \<Rightarrow> fd \<Rightarrow> bool" where
  "runnable_at s fd \<longleftrightarrow> (\<exists>c. map_of (clients s) fd = Some c \<and> has_runnable_input c)"

lemma visit_client_flag: "snd (visit_client K fd s) = runnable_at (fst (visit_client K fd s)) fd"
proof (cases "map_of (clients s) fd")
  case None
  then show ?thesis by (simp add: visit_client_def runnable_at_def)
next
  case (Some c)
  then show ?thesis by (simp add: visit_client_Some runnable_at_def retire_map_of)
qed

lemma sweep_flag:
  assumes "sweep K fds s r = (t, q)" and "distinct fds"
  shows "(q \<longleftrightarrow> r \<or> (\<exists>fd\<in>set fds. runnable_at t fd)) \<and>
     (\<forall>fd. fd \<notin> set fds \<longrightarrow> map_of (clients t) fd = map_of (clients s) fd) \<and>
     listener t = listener s \<and> poller t = poller s"
  using assms
proof (induction fds arbitrary: s r)
  case Nil
  then show ?case by simp
next
  case (Cons fd fds)
  let ?s1 = "fst (visit_client K fd s)"
  have "sweep K fds ?s1 (r \<or> snd (visit_client K fd s)) = (t, q)"
    using Cons.prems by (simp add: case_prod_beta)
  from Cons.IH [OF this] Cons.prems(2)
  have IH: "q \<longleftrightarrow> (r \<or> runnable_at ?s1 fd) \<or> (\<exists>fd\<in>set fds. runnable_at t fd)"
    "\<forall>fd. fd \<notin> set fds \<longrightarrow> map_of (clients t) fd = map_of (clients ?s1) fd"
    "listener t = listener ?s1" "poller t = poller ?s1"
    by (simp_all add: visit_client_flag)
  have "runnable_at ?s1 fd = runnable_at t fd"
    using IH(2) Cons.prems(2) by (simp add: runnable_at_def)
  with IH Cons.prems(2) show ?case
    by (auto simp: visit_client_frame)
qed

lemma sweep_inv:
  assumes "consistent {} E s" and K: "recv_bounded K" "send_bounded K"
  shows "consistent {} E (fst (sweep K fds s r)) \<and> set (keys (fst (sweep K fds s r))) \<subseteq> set (keys s) \<and>
    length (keys (fst (sweep K fds s r))) \<le> length (keys s)"
  using assms(1)
proof (induction fds arbitrary: s r)
  case Nil
  then show ?case by simp
next
  case (Cons fd fds)
  let ?s1 = "fst (visit_client K fd s)"
  note v = visit_client_inv [OF Cons.prems K, of fd]
  have "set (keys ?s1) \<subseteq> set (keys s) \<and> length (keys ?s1) \<le> length (keys s)"
    using v(2) length_removeAll_less_eq by auto
  then show ?case
    using Cons.IH [OF v(1), of "r \<or> snd (visit_client K fd s)"] by (auto simp: case_prod_beta)
qed

subsection \<open>Admission\<close>

lemma accept_fresh:
  assumes "consistent {} {} s" and "fresh_fds K" and "sys_accept K lfd (trace s) = (Inr fd, h)"
  shows "consistent {} {fd} (s\<lparr>trace := h\<rparr>)" and "fd \<noteq> -1" and "fd \<notin> set (owned s)"
proof -
  have "k_accept K (trace s) lfd = Inr fd" and h: "h = trace s @ [Accept lfd (Inr fd)]"
    using assms(3) by (auto simp: sys_eqs)
  then have "0 \<le> fd" "fd \<notin> open_fds (trace s)"
    using assms(2) by (auto simp: fresh_fds_def)
  then show "fd \<noteq> -1" "fd \<notin> set (owned s)"
    using assms(1) by (auto simp: consistent_def)
  with assms(1) h show "consistent {} {fd} (s\<lparr>trace := h\<rparr>)"
    by (auto simp: consistent_def owned_def keys_def client_ok_def)
qed

text \<open>Destroying the handle of a descriptor that is not kept.\<close>

lemma consistent_drop:
  assumes inv: "consistent {} {fd} s"
  shows "consistent {} {} (s\<lparr>trace := trace s @ [Close fd]\<rparr>)"
proof -
  have new: "fd \<notin> set (owned s)" using inv by (auto simp: consistent_def)
  have cl: "fd_ref (socket c) = fd' \<and> client_ok (ep_of s) (trace s @ [Close fd]) fd' c"
    if "map_of (clients s) fd' = Some c" for fd' c
  proof -
    have "fd' \<noteq> fd"
      using that new by (auto simp: owned_def keys_map_of)
    then show ?thesis
      using consistent_client(1,2) [OF inv that] by (simp add: client_ok_def)
  qed
  show ?thesis
    unfolding consistent_def
    using inv new cl by (auto simp: consistent_def owned_def keys_def)
qed


text \<open>A new entry, before its interest is registered.\<close>

lemma consistent_insert:
  assumes inv: "consistent {} {fd} s" and fd: "fd \<noteq> -1" and c: "fd_ref (socket c) = fd"
  shows "consistent {fd} {} (s\<lparr>clients := clients s @ [(fd, c)]\<rparr>)"
proof -
  have new: "fd \<notin> set (owned s)" using inv by (auto simp: consistent_def)
  then have "map_of (clients s) fd = None"
    using keys_map_of by (auto simp: owned_def)
  then have map: "map_of (clients s @ [(fd, c)]) = (map_of (clients s))(fd \<mapsto> c)"
    by (auto simp: map_add_def fun_eq_iff split: option.split)
  have keys: "keys (s\<lparr>clients := clients s @ [(fd, c)]\<rparr>) = keys s @ [fd]"
    by (simp add: keys_def)
  show ?thesis
    unfolding consistent_def
    using inv new fd c by (auto simp: map keys consistent_def owned_def split: if_splits)
qed

lemma new_client_ok:
  assumes "interest ep h fd = Some listener_mask"
  shows "client_ok ep h fd (fst (Connection_make K u h0))"
proof -
  let ?c = "fst (Connection_make K u h0)"
  have c: "conn_inv ?c" "pressure_ok ?c" "can_read ?c" "\<not> has_pending_output ?c"
    by (simp_all add: Connection_make_def case_prod_beta conn_inv_def pressure_ok_def can_read_def
        pending_output_bytes_def pending_input_bytes_def has_complete_frame_def find_from_def
        has_pending_output_def k_defs)
  then show ?thesis
    using assms by (simp add: client_ok_def live_def wanted_def listener_mask_def)
qed

text \<open>Once its interest is registered, the new entry is like the others.\<close>

lemma consistent_register:
  assumes inv: "consistent {} {fd} s" and fd: "fd \<noteq> -1" and es: "list_all is_quiet es"
  shows "consistent {} {} (s\<lparr>clients := clients s @ [(fd, fst (Connection_make K (UniqueFd fd) h))],
     trace := trace s @ es @ [Epoll_Ctl (ep_of s) EPOLL_CTL_ADD fd
       (Some \<lparr>events = listener_mask, data_fd = fd\<rparr>) (Inr ())]\<rparr>)"
proof -
  let ?c = "fst (Connection_make K (UniqueFd fd) h)"
  let ?h1 = "trace s @ es" and ?add = "Epoll_Ctl (ep_of s) EPOLL_CTL_ADD fd
       (Some \<lparr>events = listener_mask, data_fd = fd\<rparr>) (Inr ())"
  let ?s1 = "s\<lparr>clients := clients s @ [(fd, ?c)], trace := ?h1\<rparr>"
  let ?t = "s\<lparr>clients := clients s @ [(fd, ?c)], trace := ?h1 @ [?add]\<rparr>"
  have "grows is_quiet (trace s) ?h1"
    using es by (auto simp: grows_def)
  from consistent_insert [OF consistent_quiet [OF inv this] fd new_connection(1)]
  have "consistent {fd} {} (s\<lparr>trace := ?h1\<rparr>\<lparr>clients := clients s @ [(fd, ?c)]\<rparr>)" by simp
  moreover have "s\<lparr>trace := ?h1\<rparr>\<lparr>clients := clients s @ [(fd, ?c)]\<rparr> = ?s1" by (cases s) simp
  ultimately have s1: "consistent {fd} {} ?s1" by simp
  have fd1: "fd \<in> set (keys ?s1)" by (simp add: keys_def)
  have "consistent {fd} {} (?s1\<lparr>trace := ?h1 @ [?add]\<rparr>)"
    by (rule consistent_frame [OF s1 fd1]) simp_all
  then have "consistent {fd} {} ?t" by simp
  moreover have "map_of (clients s) fd = None"
    using inv keys_map_of by (auto simp: consistent_def owned_def)
  then have "map_of (clients ?t) fd = Some ?c"
    by (simp add: map_add_def)
  moreover have "client_ok (ep_of ?t) (trace ?t) fd ?c"
    by (rule new_client_ok) simp
  ultimately show ?thesis
    using consistent_settle [of fd "{}" ?t ?c] by simp
qed

lemma admit_client_inv:
  assumes inv: "consistent {} {fd} s" and len: "length (clients s) \<le> kMaxClients"
    and fd: "fd \<noteq> -1" and run: "admit_client K fd s = Some o'"
  shows "\<exists>t. o' = Continue t \<and> server_inv t \<and> listener t = listener s \<and> poller t = poller s \<and>
           set (keys t) \<subseteq> insert fd (set (keys s))"
proof -
  have none: "map_of (clients s) fd = None"
    using inv keys_map_of by (auto simp: consistent_def owned_def)
  have quiet: "list_all is_quiet es" if "list_all (is_fcntl fd) es" for es
    using that by (rule list.pred_mono_strong) (rule is_fcntl_is_quiet)
  have drop: "server_inv (s\<lparr>trace := trace s @ es @ [Close fd]\<rparr>)" if "list_all is_quiet es" for es
  proof -
    have "grows is_quiet (trace s) (trace s @ es)" using that by (auto simp: grows_def)
    from consistent_drop [OF consistent_quiet [OF inv this]] len show ?thesis
      by (simp add: server_inv_def)
  qed
  from run fd none show ?thesis
  proof (cases rule: admit_client_cases)
    case full
    with drop [of "[]"] show ?thesis by (auto simp: keys_def)
  next
    case (mode es e)
    with drop [of "es @ [Report ''client nonblocking'' e]"] quiet show ?thesis
      by (auto simp: keys_def)
  next
    case (refused es t e ev)
    have "is_quiet (Epoll_Ctl (ep_of s) EPOLL_CTL_ADD fd ev (Inl e))" by (simp add: is_quiet_def)
    with drop [of "es @ [Now t, Epoll_Ctl (ep_of s) EPOLL_CTL_ADD fd ev (Inl e),
        Report ''poller client add'' e]"] refused quiet show ?thesis
      by (auto simp: keys_def)
  next
    case (added es t h ev)
    have "list_all is_quiet (es @ [Now t])" using quiet added(2) by simp
    from consistent_register [OF inv fd this, of K h] added show ?thesis
      by (auto simp: server_inv_def listener_mask_def keys_def)
  qed
qed

definition kernel_laws :: "kernel \<Rightarrow> bool" where
  "kernel_laws K \<longleftrightarrow> recv_bounded K \<and> send_bounded K \<and> fresh_fds K"

text \<open>The server left behind by an outcome.\<close>

fun outcome_server :: "outcome \<Rightarrow> server" where
  "outcome_server (Continue t) = t"
| "outcome_server (Return code t) = t"

lemma accept_loop_inv:
  assumes "server_inv s" and K: "kernel_laws K" and "accept_loop K n s = Some o'"
  shows "server_inv (outcome_server o') \<and> listener (outcome_server o') = listener s \<and>
     poller (outcome_server o') = poller s \<and>
     (\<forall>code t. o' = Return code t \<longrightarrow>
        code = 1 \<and> (\<exists>h e. trace t = h @ [Report ''accept'' e] \<and> fatal_accept e))"
  using assms(1,3)
proof (induction n arbitrary: s)
  case 0
  then show ?case by auto
next
  case (Suc n)
  have quiet: "server_inv (s\<lparr>trace := trace s @ es\<rparr>)" if "list_all is_quiet es" for es
    using that by (intro server_inv_quiet [OF Suc.prems(1)]) (auto simp: grows_def)
  from Suc.prems(2) show ?case
  proof (cases rule: accept_loop_cases)
    case (again e es)
    have "server_inv (s\<lparr>trace := trace s @ es\<rparr>)" using again(1) by (intro quiet) auto
    from Suc.IH [OF this again(2)] show ?thesis by simp
  next
    case drained
    with quiet show ?thesis by simp
  next
    case fatal
    with quiet show ?thesis by auto
  next
    case (client fd o1)
    have s: "consistent {} {} s" "length (clients s) \<le> kMaxClients" and "fresh_fds K"
      using Suc.prems(1) K by (simp_all add: server_inv_def kernel_laws_def)
    note new = accept_fresh [OF s(1) this(3), of "listen_of s" fd, simplified sys_accept_def Let_def client(1), OF refl]
    obtain t where t: "o1 = Continue t" "server_inv t" "listener t = listener s" "poller t = poller s"
      using admit_client_inv [OF new(1) _ new(2) client(2)] s(2) by auto
    with Suc.IH [OF t(2)] client(3) show ?thesis by simp
  qed
qed

subsection \<open>One iteration\<close>

text \<open>
  \<open>epoll_wait\<close> reports a registered descriptor, only bits of its mask or the
  error and hangup bits, and at least one bit.
\<close>

definition epoll_honest :: "kernel \<Rightarrow> bool" where
  "epoll_honest K \<longleftrightarrow>
     (\<forall>h ep t ev. k_epoll_wait K h ep t = Inr (Some ev) \<longrightarrow>
        (\<exists>m. interest ep h (data_fd ev) = Some m \<and>
             events ev AND NOT (m OR EPOLLERR OR EPOLLHUP) = 0 \<and> events ev \<noteq> 0))"

text \<open>Why the loop of a consistent server may end.\<close>

definition loop_exit :: "server \<Rightarrow> bool" where
  "loop_exit t \<longleftrightarrow>
     (\<exists>h e. trace t = h @ [Report ''poller wait'' e] \<and> e \<noteq> EINTR) \<or>
     (\<exists>h e. trace t = h @ [Report ''accept'' e] \<and> fatal_accept e) \<or>
     (\<exists>h. trace t = h @ [Stderr ''listener reported an unexpected event''])"

lemma service_entry_server_inv:
  assumes "server_inv s" and "map_of (clients s) fd = Some c" and "kernel_laws K"
  shows "server_inv (service_entry K fd c ev s)"
proof -
  have K: "recv_bounded K" "send_bounded K" and s: "consistent {} {} s"
    using assms by (simp_all add: kernel_laws_def server_inv_def)
  have "length (keys (service_entry K fd c ev s)) \<le> length (keys s)"
    using service_entry_inv(2) [OF s assms(2) K, of ev] length_removeAll_less_eq by auto
  then show ?thesis
    using service_entry_inv(1) [OF s assms(2) K, of ev] assms(1)
    by (simp add: server_inv_def length_keys)
qed

lemma dispatch_event_inv:
  assumes inv: "server_inv s" and K: "kernel_laws K" and run: "dispatch_event K ev s = Some o'"
  shows "server_inv (outcome_server o') \<and>
     listener (outcome_server o') = listener s \<and> poller (outcome_server o') = poller s \<and>
     (\<forall>code t. o' = Return code t \<longrightarrow>
        code = 1 \<and> (loop_exit t \<or> ready_fd ev \<notin> set (listen_of s # keys s)))"
proof -
  have note_inv: "server_inv (s\<lparr>trace := trace s @ [Stderr msg]\<rparr>)" for msg
    by (rule server_inv_quiet [OF inv]) auto
  from run show ?thesis
  proof (cases rule: dispatch_event_cases)
    case (client c)
    with service_entry_server_inv [OF inv client(2) K] show ?thesis by (simp add: service_entry_same)
  next
    case unknown
    with note_inv show ?thesis by (simp add: keys_map_of)
  next
    case listener_error
    with note_inv show ?thesis by (simp add: loop_exit_def)
  next
    case accept
    from accept_loop_inv [OF inv K accept(2)] show ?thesis by (auto simp: loop_exit_def)
  qed
qed

lemma sweep_server_inv:
  assumes "server_inv s" and "kernel_laws K"
  shows "server_inv (fst (sweep K fds s r))"
  using assms sweep_inv [of "{}" s K fds r]
  by (auto simp: server_inv_def kernel_laws_def length_keys)

text \<open>An honest \<open>epoll_wait\<close> reports the listener or a client of the map.\<close>

lemma reported_known:
  assumes "server_inv s" and "epoll_honest K"
    and "k_epoll_wait K (trace s) (ep_of s) tm = Inr (Some ev)"
  shows "ready_fd (decode_event ev) \<in> set (listen_of s # keys s)"
proof -
  have "interest (ep_of s) (trace s) (ready_fd (decode_event ev)) \<noteq> None"
    using assms(2,3) by (fastforce simp: epoll_honest_def decode_event_def)
  then show ?thesis
    using assms(1) by (auto simp: server_inv_def consistent_def)
qed

lemma event_loop_iteration_inv:
  assumes inv: "server_inv s" and K: "kernel_laws K"
    and run: "event_loop_iteration K order s = Some o'"
  shows "server_inv (outcome_server o')"
    and "o' = Return code t \<Longrightarrow> epoll_honest K \<Longrightarrow> code = 1 \<and> loop_exit t"
proof -
  have swept: "server_inv (s1\<lparr>trace := trace s1 @ es\<rparr>)" "server_inv s1"
    if "sweep K order s False = (s1, r)" "list_all is_quiet es" for s1 r es
    using sweep_server_inv [OF inv K, of order False] that
    by (auto intro!: server_inv_quiet simp: grows_def)
  from run have "server_inv (outcome_server o') \<and>
      (o' = Return code t \<longrightarrow> epoll_honest K \<longrightarrow> code = 1 \<and> loop_exit t)"
  proof (cases rule: event_loop_iteration_cases)
    case failed
    with swept show ?thesis by (auto simp: loop_exit_def)
  next
    case idle
    with swept show ?thesis by simp
  next
    case (event s1 r ev)
    let ?s2 = "s1\<lparr>trace := trace s1 @ [Epoll_Wait (ep_of s1) (wait_ms r) (Inr (Some ev))]\<rparr>"
    have "server_inv s1" "server_inv ?s2"
      using swept(2) [OF event(1), of "[]"] swept(1) [OF event(1)] by simp_all
    moreover have "keys ?s2 = keys s1" by (simp add: keys_def)
    ultimately show ?thesis
      using dispatch_event_inv [OF _ K event(3)] reported_known [OF _ _ event(2)] by fastforce
  qed
  then show "server_inv (outcome_server o')"
    and "o' = Return code t \<Longrightarrow> epoll_honest K \<Longrightarrow> code = 1 \<and> loop_exit t" by blast+
qed

end
