(* ===== verification/Scenario.thy ===== *)
theory Scenario
  imports Server_Invariant
begin

text \<open>
  A concrete outside world for the server: the kernel hands out the lowest
  descriptors from 3 on, one client connects and sends two commands, every send
  is accepted whole, and \<open>epoll_wait\<close> reports the full registered mask of a
  descriptor that is registered. The first three states of the run are computed.
\<close>

definition demo_commands :: string where
  "demo_commands = ''SET a 1'' @ [NL] @ ''GET a'' @ [NL]"

definition demo_replies :: string where
  "demo_replies = ''OK'' @ [NL] @ ''1'' @ [NL]"

definition demo_kernel :: kernel where
  "demo_kernel = quiet_kernel\<lparr>
     k_socket := \<lambda>h _ _ _. (if 3 \<in> open_fds h then Inl 24 else Inr 3),
     k_epoll_create := \<lambda>h. (if 4 \<in> open_fds h then Inl 24 else Inr 4),
     k_accept := \<lambda>h _. (if 5 \<in> open_fds h then Inl EAGAIN else Inr 5),
     k_recv := \<lambda>h fd n.
       (if rx fd h = [] then Inr (take n demo_commands) else Inl EAGAIN),
     k_send := \<lambda>_ _ bs. Inr (length bs),
     k_epoll_wait := \<lambda>h ep _.
       (case (interest ep h 5, interest ep h 3) of
          (Some m, _) \<Rightarrow> (if m \<noteq> 0 then Inr (Some \<lparr>events = m, data_fd = 5\<rparr>) else Inr None)
        | (None, Some m) \<Rightarrow> (if m \<noteq> 0 then Inr (Some \<lparr>events = m, data_fd = 3\<rparr>) else Inr None)
        | _ \<Rightarrow> Inr None)\<rparr>"

lemma demo_laws: "kernel_laws demo_kernel"
  by (auto simp: kernel_laws_def recv_bounded_def send_bounded_def fresh_fds_def demo_kernel_def
      quiet_kernel_def split: if_splits)

lemma mask_within: "m AND NOT m AND x = 0" for m :: "32 word"
  by (rule bit_word_eqI) (auto simp: bit_simps)

lemma demo_honest: "epoll_honest demo_kernel"
  by (auto simp: epoll_honest_def demo_kernel_def mask_within split: option.splits if_splits)

text \<open>The listener's and the client's handles and the calls of the three stages.\<close>

definition read_event :: "fd \<Rightarrow> epoll_event" where
  "read_event fd = \<lparr>events = 0x2001, data_fd = fd\<rparr>"

definition demo_setup_calls :: history where
  "demo_setup_calls =
     [Socket 2 1 0 (Inr 3), Setsockopt_Reuse 3 (Inr ()), Bind_Port 3 8080 (Inr ()),
      Listen 3 16 (Inr ()), Getfl 3 (Inr 2), Setfl 3 0x802 (Inr ()), Epoll_Create (Inr 4),
      Epoll_Ctl 4 EPOLL_CTL_ADD 3 (Some (read_event 3)) (Inr ()),
      Stdout ''listening on port 8080'']"

definition demo_accept_calls :: history where
  "demo_accept_calls =
     [Epoll_Wait 4 1000 (Inr (Some (read_event 3))), Accept 3 (Inr 5), Getfl 5 (Inr 2),
      Setfl 5 0x802 (Inr ()), Now 0, Epoll_Ctl 4 EPOLL_CTL_ADD 5 (Some (read_event 5)) (Inr ()),
      Accept 3 (Inl EAGAIN)]"

definition demo_service_calls :: history where
  "demo_service_calls =
     [Now 0, Epoll_Wait 4 1000 (Inr (Some (read_event 5))),
      Recv 5 4096 (Inr demo_commands), Now 0,
      Send 5 demo_replies (Inr 5), Now 0,
      Epoll_Ctl 4 EPOLL_CTL_MOD 5 (Some (read_event 5)) (Inr ())]"

definition demo_client :: Connection where
  "demo_client = \<lparr>socket = \<lparr>fd_ref = 5\<rparr>, input_buffer = [], input_cursor = 0, output_buffer = [],
     output_cursor = 0, read_eof = False, output_paused = False, last_progress = 0\<rparr>"

definition demo_start :: server where
  "demo_start = \<lparr>listener = \<lparr>fd_ref = 3\<rparr>, poller = \<lparr>descriptor = \<lparr>fd_ref = 4\<rparr>\<rparr>,
     kv_store = empty_store, clients = [], trace = demo_setup_calls\<rparr>"

definition demo_admitted :: server where
  "demo_admitted = demo_start\<lparr>clients := [(5, demo_client)],
     trace := demo_setup_calls @ demo_accept_calls\<rparr>"

definition demo_served :: server where
  "demo_served = demo_admitted\<lparr>kv_store := \<lparr>data_ref = [(''a'', ''1'')]\<rparr>,
     trace := demo_setup_calls @ demo_accept_calls @ demo_service_calls\<rparr>"

lemma demo_setup_run: "main_setup demo_kernel [] = Some (Inr demo_start)"
  by code_simp

lemma demo_admit_run: "event_loop_iteration demo_kernel [] demo_start = Some (Continue demo_admitted)"
  by code_simp

text \<open>The visit of the second iteration, stage by stage.\<close>

lemma demo_parse:
  "parse_command ''SET a 1'' = Some \<lparr>cmd_type = Set, cmd_key = ''a'', cmd_value = ''1''\<rparr>"
  "parse_command ''GET a'' = Some \<lparr>cmd_type = Get, cmd_key = ''a'', cmd_value = []\<rparr>"
  by (simp_all add: parse_command_def open_stream_def extract_word_def is_space_def)

text \<open>The receive loop on a positive budget.\<close>

lemma read_loop_unfold: "0 < n \<Longrightarrow> read_loop K n event c h = read_loop K (Suc (n - 1)) event c h"
  by simp

lemmas loop_numeral = buffer_loop_numeral read_loop_unfold [unfolded read_loop.simps]

lemmas connection_run_defs = append_input_def compact_input_def compact_output_def
  update_backpressure_def pending_output_bytes_def pending_input_bytes_def
  reset_drained_input_def has_complete_frame_def find_from_def substr_def has_pending_output_def
  can_read_def has_runnable_input_def k_defs server_k_defs ufd_get_def

lemma demo_process:
  "process_input [] (demo_client\<lparr>input_buffer := demo_commands\<rparr>) empty_store =
     (Ok, demo_client\<lparr>output_buffer := demo_replies\<rparr>, \<lparr>data_ref = [(''a'', ''1'')]\<rparr>)"
  by (simp add: process_input_def loop_numeral connection_run_defs demo_parse
      execute_command.simps store_defs demo_client_def Let_def demo_commands_def demo_replies_def)

text \<open>The effect of the demonstration's calls on what its kernel observes.\<close>

lemma demo_observed:
  "rx 5 demo_setup_calls = []" "rx 5 demo_accept_calls = []"
  "interest 4 demo_setup_calls = [3 \<mapsto> 0x2001]"
  "foldl (interest1 4) [3 \<mapsto> 0x2001] demo_accept_calls = [3 \<mapsto> 0x2001, 5 \<mapsto> 0x2001]"
  by (simp_all add: demo_setup_calls_def demo_accept_calls_def read_event_def interest_def
      fun_upd_twist del: interest_append)

lemma demo_read:
  "read_loop demo_kernel kReadCallBudget (decode_event (read_event 5)) demo_client
     (demo_setup_calls @ demo_accept_calls @ [Now 0, Epoll_Wait 4 1000 (Inr (Some (read_event 5)))]) =
   (None, demo_client\<lparr>input_buffer := demo_commands\<rparr>,
    demo_setup_calls @ demo_accept_calls @
      [Now 0, Epoll_Wait 4 1000 (Inr (Some (read_event 5))), Recv 5 4096 (Inr demo_commands), Now 0])"
  by (simp add: loop_numeral connection_run_defs demo_client_def Let_def sys_eqs read_event_def
      decode_event_def demo_kernel_def quiet_kernel_def demo_observed demo_commands_def)

lemma demo_flush:
  "flush_output demo_kernel (demo_client\<lparr>output_buffer := demo_replies\<rparr>) h =
     (Inr True, demo_client, h @ [Send 5 demo_replies (Inr 5), Now 0])"
  by (simp add: flush_output_def loop_numeral connection_run_defs demo_client_def Let_def sys_eqs
      demo_kernel_def quiet_kernel_def demo_replies_def)

lemma demo_finish:
  "finish_service demo_kernel \<lparr>descriptor = \<lparr>fd_ref = 4\<rparr>\<rparr> 5 demo_client h =
     (None, demo_client, h @ [Epoll_Ctl 4 EPOLL_CTL_MOD 5 (Some (read_event 5)) (Inr ())])"
  by (simp add: finish_service_def connection_run_defs demo_client_def Let_def sys_eqs poller_defs
      interest_mask_def read_event_def demo_kernel_def quiet_kernel_def)

lemma demo_service_client:
  "service_client demo_kernel \<lparr>descriptor = \<lparr>fd_ref = 4\<rparr>\<rparr> demo_client
      (decode_event (read_event 5)) empty_store
      (demo_setup_calls @ demo_accept_calls @ [Now 0, Epoll_Wait 4 1000 (Inr (Some (read_event 5)))]) =
    (None, demo_client, \<lparr>data_ref = [(''a'', ''1'')]\<rparr>, trace demo_served)"
proof -
  have ev: "\<not> error_event (decode_event (read_event 5))" "\<not> hangup (decode_event (read_event 5))"
    and fd: "ufd_get (socket demo_client) = 5"
    by (simp_all add: decode_event_def read_event_def demo_client_def ufd_get_def)
  have out: "has_pending_output (demo_client\<lparr>output_buffer := demo_replies\<rparr>)"
    by (simp add: has_pending_output_def pending_output_bytes_def demo_client_def demo_replies_def)
  show ?thesis
    by (simp add: service_client_def ev fd demo_read demo_process out demo_flush demo_finish
        demo_served_def demo_service_calls_def)
qed

lemma demo_visit:
  "visit_client demo_kernel 5 demo_admitted =
     (demo_admitted\<lparr>trace := demo_setup_calls @ demo_accept_calls @ [Now 0]\<rparr>, False)"
  by (simp add: visit_client_def demo_admitted_def demo_client_def connection_run_defs sys_eqs
      demo_kernel_def quiet_kernel_def)

lemma demo_service_run:
  "event_loop_iteration demo_kernel [5] demo_admitted = Some (Continue demo_served)"
proof -
  let ?h = "demo_setup_calls @ demo_accept_calls @ [Now 0, Epoll_Wait 4 1000 (Inr (Some (read_event 5)))]"
  let ?s = "demo_admitted\<lparr>trace := ?h\<rparr>"
  have wait: "wait_one demo_kernel \<lparr>descriptor = \<lparr>fd_ref = 4\<rparr>\<rparr> 1000
      (demo_setup_calls @ demo_accept_calls @ [Now 0]) =
      (Inr (Some (decode_event (read_event 5))), ?h)"
    by (simp add: demo_observed wait_one_def sys_eqs ufd_get_def demo_kernel_def quiet_kernel_def read_event_def)
  have "dispatch_event demo_kernel (decode_event (read_event 5)) ?s = Some (Continue demo_served)"
    using demo_service_client
    by (simp add: dispatch_event_def service_entry_def ufd_get_def demo_admitted_def demo_start_def
        demo_served_def decode_event_def read_event_def)
  moreover have "poller demo_admitted = \<lparr>descriptor = \<lparr>fd_ref = 4\<rparr>\<rparr>"
    by (simp add: demo_admitted_def demo_start_def)
  ultimately show ?thesis
    using wait by (simp add: event_loop_iteration_def demo_visit kTimerPollMs_def)
qed

lemma demo_start_reachable: "reachable demo_kernel demo_start"
  by (rule reachable.start [OF demo_setup_run])

lemma demo_admitted_reachable: "reachable demo_kernel demo_admitted"
  by (rule reachable.step [OF demo_start_reachable])
     (rule loop_step.iterate [OF _ _ demo_admit_run], simp_all add: demo_start_def)

lemma demo_served_reachable: "reachable demo_kernel demo_served"
  by (rule reachable.step [OF demo_admitted_reachable])
     (rule loop_step.iterate [OF _ _ demo_service_run], simp_all add: demo_admitted_def)

end
