(* ===== verification/Server_Run.thy ===== *)
theory Server_Run
  imports Scenario
begin

text \<open>
  Whole runs of \<open>apps/server.cpp\<close>: start-up establishes the invariant or gives
  back every descriptor, the loop keeps it, the exit closes everything. The
  properties of the server are stated here over the states \<open>reachable\<close> from
  start-up, and \<open>demo_kernel\<close> is a concrete outside world they are applied to.
\<close>

subsection \<open>Start-up\<close>

lemma fresh_socket: "fresh_fds K \<Longrightarrow> k_socket K h a b c = Inr fd \<Longrightarrow> 0 \<le> fd \<and> fd \<notin> open_fds h"
  unfolding fresh_fds_def by blast

lemma fresh_epoll: "fresh_fds K \<Longrightarrow> k_epoll_create K h = Inr fd \<Longrightarrow> 0 \<le> fd \<and> fd \<notin> open_fds h"
  unfolding fresh_fds_def by blast

lemma moved_ufd [simp]: "fst (ufd_move u) = u"
  by (cases u) (simp add: ufd_move_def)

text \<open>The server that \<open>main\<close> enters its loop with.\<close>

definition started :: "kernel \<Rightarrow> history \<Rightarrow> server \<Rightarrow> bool" where
  "started K h s \<longleftrightarrow> (\<exists>fd ep h5.
     k_socket K h 2 1 0 = Inr fd \<and> grows is_quiet (h @ [Socket 2 1 0 (Inr fd)]) h5 \<and>
     k_epoll_create K h5 = Inr ep \<and>
     s = \<lparr>listener = UniqueFd fd, poller = \<lparr>descriptor = UniqueFd ep\<rparr>, kv_store = empty_store,
          clients = [], trace = h5 @ [Epoll_Create (Inr ep),
            Epoll_Ctl ep EPOLL_CTL_ADD fd (Some \<lparr>events = listener_mask, data_fd = fd\<rparr>) (Inr ()),
            Stdout ''listening on port 8080'']\<rparr>)"

text \<open>The second half of start-up: the epoll instance, with the listener ready.\<close>

definition setup_poller :: "kernel \<Rightarrow> unique_fd \<Rightarrow> history \<Rightarrow> history + server" where
  "setup_poller K lst h5 =
     (case EventPoller_create K h5 of
        (Inl e, h6) \<Rightarrow> Inl (ufd_destroy lst (report_error ''poller create'' e h6))
      | (Inr p, h6) \<Rightarrow>
          (case poller_add K p (ufd_get lst) \<lparr>want_read = True, want_write = False\<rparr> h6 of
             (Inl e, h7) \<Rightarrow>
               Inl (ufd_destroy lst (ufd_destroy (descriptor p)
                 (report_error ''poller listener add'' e h7)))
           | (Inr _, h7) \<Rightarrow>
               Inr \<lparr>listener = lst, poller = p, kv_store = empty_store, clients = [],
                 trace = h7 @ [Stdout ''listening on port 8080'']\<rparr>))"

text \<open>The first half: the listening socket, closed again or nonblocking and bound.\<close>

lemma setup_listener_cases:
  assumes run: "main_setup K h = Some r" and sock: "k_socket K h 2 1 0 = Inr fd" and fd: "fd \<noteq> -1"
  obtains (failed) h' where "grows is_quiet (h @ [Socket 2 1 0 (Inr fd)]) h'" "r = Inl (h' @ [Close fd])"
  | (ready) h5 where "grows is_quiet (h @ [Socket 2 1 0 (Inr fd)]) h5" "r = setup_poller K (UniqueFd fd) h5"
proof -
  let ?h1 = "h @ [Socket 2 1 0 (Inr fd)]"
  define a2 where "a2 = k_setsockopt K ?h1 fd"
  define h2 where "h2 = ?h1 @ [Setsockopt_Reuse fd a2]"
  define a3 where "a3 = k_bind K h2 fd 8080"
  define h3 where "h3 = h2 @ [Bind_Port fd 8080 a3]"
  define a4 where "a4 = k_listen K h3 fd 16"
  define h4 where "h4 = h3 @ [Listen fd 16 a4]"
  have g: "grows is_quiet ?h1 h2" "grows is_quiet ?h1 h3" "grows is_quiet ?h1 h4"
    by (auto simp: h2_def h3_def h4_def grows_def)
  have rep: "grows is_quiet ?h1 (report_error op e h')" if "grows is_quiet ?h1 h'" for op e h'
    unfolding report_error_def using that by auto
  have calls: "create_socket K 2 1 0 h = (Inr (UniqueFd fd), ?h1)"
    "sys_setsockopt K fd ?h1 = (a2, h2)" "sys_bind K fd 8080 h2 = (a3, h3)"
    "sys_listen K fd 16 h3 = (a4, h4)"
    by (simp_all add: create_socket_def sys_eqs sock a2_def h2_def a3_def h3_def a4_def h4_def)
  note run1 = run [unfolded main_setup_def, simplified calls moved_ufd ufd_get_UniqueFd Let_def
      prod.case sum.case ufd_destroy_UniqueFd [OF fd]]
  show thesis
  proof (cases "\<exists>e. a2 = Inl e \<or> a3 = Inl e \<or> a4 = Inl e")
    case True
    then have "\<exists>op e h'. grows is_quiet ?h1 h' \<and> r = Inl (report_error op e h' @ [Close fd])"
      using run1 g by (cases a2; cases a3; cases a4) auto
    then show thesis using failed rep by auto
  next
    case False
    then obtain u2 u3 u4 where "a2 = Inr u2" "a3 = Inr u3" "a4 = Inr u4"
      by (meson sum.exhaust)
    note run2 = run1 [simplified this sum.case]
    obtain q h5 where nb: "set_nonblocking K fd h4 = Some (q, h5)"
      using run2 by (cases "set_nonblocking K fd h4") auto
    have g5: "grows is_quiet ?h1 h5"
      by (rule grows_trans [OF g(3) grows_mono [OF set_nonblocking_grows [OF nb]]])
         (rule is_fcntl_is_quiet)
    show thesis
    proof (cases q)
      case (Inl e)
      with run2 nb show thesis by (intro failed [OF rep [OF g5]]) auto
    next
      case (Inr u)
      with run2 nb show thesis
        by (intro ready [OF g5])
           (auto simp: setup_poller_def ufd_destroy_UniqueFd [OF fd] split: sum.splits prod.splits)
    qed
  qed
qed

lemma setup_poller_cases:
  assumes fresh: "fresh_fds K" and sock: "k_socket K h 2 1 0 = Inr fd"
    and g5: "grows is_quiet (h @ [Socket 2 1 0 (Inr fd)]) h5"
  shows "case setup_poller K (UniqueFd fd) h5 of Inl h' \<Rightarrow> open_fds h' = open_fds h | Inr s \<Rightarrow> started K h s"
proof -
  have fd: "fd \<noteq> -1" "fd \<notin> open_fds h"
    using fresh_socket [OF fresh sock] by auto
  have open5: "open_fds h5 = insert fd (open_fds h)"
    using grows_quiet(1) [OF g5] by simp
  show ?thesis
  proof (cases "k_epoll_create K h5")
    case (Inl e)
    then show ?thesis
      using open5 fd(2)
      by (simp add: setup_poller_def EventPoller_create_def sys_eqs ufd_destroy_UniqueFd [OF fd(1)]
          report_error_def)
  next
    case (Inr ep)
    have ep: "ep \<noteq> -1" "ep \<noteq> fd" "ep \<notin> open_fds h"
      using fresh_epoll [OF fresh Inr] open5 by auto
    let ?p = "\<lparr>descriptor = UniqueFd ep\<rparr>" and ?h6 = "h5 @ [Epoll_Create (Inr ep)]"
    have pc: "EventPoller_create K h5 = (Inr ?p, ?h6)"
      using Inr by (simp add: EventPoller_create_def sys_eqs)
    obtain a h7 where add:
      "poller_add K ?p fd \<lparr>want_read = True, want_write = False\<rparr> ?h6 = (a, h7)"
      by (metis prod.exhaust)
    have h7: "h7 = ?h6 @ [Epoll_Ctl ep EPOLL_CTL_ADD fd (Some \<lparr>events = listener_mask, data_fd = fd\<rparr>) a]"
      using poller_add_history [OF add] by (simp add: UniqueFd_def listener_mask_def)
    show ?thesis
    proof (cases a)
      case (Inl e)
      with pc add ep fd open5 show ?thesis
        by (auto simp: setup_poller_def ufd_destroy_UniqueFd h7 report_error_def)
    next
      case (Inr u)
      with pc add sock g5 \<open>k_epoll_create K h5 = Inr ep\<close> show ?thesis
        by (auto simp: setup_poller_def started_def h7)
    qed
  qed
qed

lemma main_setup_cases:
  assumes run: "main_setup K h = Some r" and fresh: "fresh_fds K"
  shows "case r of Inl h' \<Rightarrow> open_fds h' = open_fds h | Inr s \<Rightarrow> started K h s"
proof (cases "k_socket K h 2 1 0")
  case (Inl e)
  with run show ?thesis
    by (auto simp: main_setup_def create_socket_def sys_eqs report_error_def)
next
  case (Inr fd)
  have fd: "fd \<noteq> -1" "fd \<notin> open_fds h"
    using fresh_socket [OF fresh Inr] by auto
  from run Inr fd(1) show ?thesis
  proof (cases rule: setup_listener_cases)
    case (failed h')
    then show ?thesis using grows_quiet(1) [OF failed(1)] fd(2) by simp
  next
    case ready
    then show ?thesis using setup_poller_cases [OF fresh Inr] by simp
  qed
qed

lemma started_inv:
  assumes "started K [] s" and "fresh_fds K"
  shows "server_inv s"
proof -
  obtain fd ep h5 where s: "k_socket K [] 2 1 0 = Inr fd"
    "grows is_quiet [Socket 2 1 0 (Inr fd)] h5" "k_epoll_create K h5 = Inr ep"
    "s = \<lparr>listener = UniqueFd fd, poller = \<lparr>descriptor = UniqueFd ep\<rparr>, kv_store = empty_store,
          clients = [], trace = h5 @ [Epoll_Create (Inr ep),
            Epoll_Ctl ep EPOLL_CTL_ADD fd (Some \<lparr>events = listener_mask, data_fd = fd\<rparr>) (Inr ()),
            Stdout ''listening on port 8080'']\<rparr>"
    using assms(1) by (auto simp: started_def)
  have "open_fds h5 = {fd}" and int: "interest ep h5 = (\<lambda>_. None)"
    using grows_quiet [OF s(2)] by (simp_all add: open_fds_def interest_def)
  then show ?thesis
    using s(4) fresh_socket [OF assms(2) s(1)] fresh_epoll [OF assms(2) s(3)]
    by (auto simp: server_inv_def consistent_def owned_def keys_def UniqueFd_def store_ok_empty)
qed

lemma main_setup_inv:
  assumes "main_setup K [] = Some (Inr s)" and "kernel_laws K"
  shows "server_inv s"
  using main_setup_cases [OF assms(1)] started_inv assms(2) by (simp add: kernel_laws_def)

subsection \<open>The loop\<close>

text \<open>Steps of the loop under a kernel that keeps its documented behaviour.\<close>

definition lawful_step :: "kernel \<Rightarrow> server \<Rightarrow> server \<Rightarrow> bool" where
  "lawful_step K s t \<longleftrightarrow> kernel_laws K \<and> loop_step K s t"

inductive_cases loop_stepE: "loop_step K s t"

lemma loop_step_inv: "loop_step K s t \<Longrightarrow> kernel_laws K \<Longrightarrow> server_inv s \<Longrightarrow> server_inv t"
  by (auto elim!: loop_stepE dest: event_loop_iteration_inv(1))

interpretation loop: invariant_system "lawful_step K" server_inv
  for K by unfold_locales (auto simp: lawful_step_def intro: loop_step_inv)

lemma reachable_steps:
  assumes "reachable K s" and "kernel_laws K"
  shows "\<exists>s0. main_setup K [] = Some (Inr s0) \<and> (lawful_step K)\<^sup>*\<^sup>* s0 s"
  using assms(1)
  by induction (auto simp: lawful_step_def assms(2) intro: rtranclp.rtrancl_into_rtrancl)

lemma reachable_inv: "reachable K s \<Longrightarrow> kernel_laws K \<Longrightarrow> server_inv s"
  using reachable_steps main_setup_inv loop.steps_inv by blast

subsection \<open>Exit\<close>

lemma foldl_destroy:
  assumes "\<And>fd c. (fd, c) \<in> set cs \<Longrightarrow> fd_ref (socket c) = fd \<and> fd \<noteq> -1"
  shows "foldl (\<lambda>h (fd, c). ufd_destroy (socket c) h) h cs = h @ map (Close \<circ> fst) cs"
  using assms
proof (induction cs arbitrary: h)
  case (Cons x cs)
  obtain fd c where x: "x = (fd, c)" by (cases x)
  then have "ufd_destroy (socket c) h = h @ [Close fd]"
    using Cons.prems [of fd c] by (simp add: ufd_destroy_def sys_close_def)
  moreover have "foldl (\<lambda>h (fd, c). ufd_destroy (socket c) h) (h @ [Close fd]) cs =
      (h @ [Close fd]) @ map (Close \<circ> fst) cs"
    by (rule Cons.IH) (use Cons.prems in auto)
  ultimately show ?case by (simp add: x)
qed simp

lemma shutdown_history:
  assumes "consistent {} E s"
  shows "shutdown s = trace s @ map Close (keys s @ [ep_of s, listen_of s])"
proof -
  have own: "listen_of s \<noteq> -1" "ep_of s \<noteq> -1" and dist: "distinct (keys s)"
    using assms by (auto simp: consistent_def owned_def)
  have "fd_ref (socket c) = fd \<and> fd \<noteq> -1" if "(fd, c) \<in> set (clients s)" for fd c
    using consistent_client [OF assms] map_of_is_SomeI [OF dist [unfolded keys_def] that] by blast
  from foldl_destroy [OF this] own show ?thesis
    by (simp add: shutdown_def ufd_destroy_def sys_close_def keys_def comp_def)
qed

lemma foldl_close: "foldl open1 A (map Close fds) = A - set fds"
  by (induction fds arbitrary: A) auto

lemma shutdown_open:
  assumes "server_inv s"
  shows "open_fds (shutdown s) = {}"
proof -
  have "consistent {} {} s" using assms by (simp add: server_inv_def)
  from shutdown_history [OF this] this show ?thesis
    by (auto simp: consistent_def owned_def foldl_close simp del: map_append)
qed


subsection \<open>Properties of reachable servers\<close>

text \<open>
  Property C3. In every reachable state the open descriptors are exactly the
  listener, the epoll instance and one per map entry, all distinct, each entry's
  key is the descriptor its connection owns, and there are at most 128 entries:
  the loop leaks no descriptor and closes none it still uses.
\<close>

theorem reachable_descriptors:
  assumes "reachable K s" and "kernel_laws K"
  shows "open_fds (trace s) = {ufd_get (listener s), ufd_get (descriptor (poller s))} \<union>
           fst ` set (clients s) \<and>
     distinct (ufd_get (listener s) # ufd_get (descriptor (poller s)) # map fst (clients s)) \<and>
     (\<forall>(fd, c)\<in>set (clients s). ufd_get (socket c) = fd) \<and> length (clients s) \<le> kMaxClients"
proof -
  have inv: "consistent {} {} s" and len: "length (clients s) \<le> kMaxClients"
    using reachable_inv [OF assms] by (simp_all add: server_inv_def)
  have dist: "distinct (map fst (clients s))"
    using inv by (simp add: consistent_def owned_def keys_def)
  have "ufd_get (socket c) = fd" if "(fd, c) \<in> set (clients s)" for fd c
    using consistent_client(1) [OF inv map_of_is_SomeI [OF dist that]] by (simp add: ufd_get_def)
  with inv len show ?thesis
    by (auto simp: consistent_def owned_def keys_def ufd_get_def)
qed

theorem reachable_descriptors_witness:
  "open_fds (trace demo_served) = {3, 4, 5} \<and> length (clients demo_served) = 1"
  using reachable_descriptors [OF demo_served_reachable demo_laws]
  by (auto simp: demo_served_def demo_admitted_def demo_start_def ufd_get_def)

text \<open>
  Property C2. No client is stranded: in every reachable state each client's
  buffers are within their bounds, the interest registered with epoll is exactly
  what its state asks for, and it has a way to make progress, either input that
  the next sweep runs or a non-empty registered interest.
\<close>

theorem no_stranded_client:
  assumes "reachable K s" and "kernel_laws K" and "map_of (clients s) fd = Some c"
  shows "interest (ufd_get (descriptor (poller s))) (trace s) fd =
       Some (interest_mask \<lparr>want_read = can_read c, want_write = has_pending_output c\<rparr>) \<and>
     (has_runnable_input c \<or> can_read c \<or> has_pending_output c) \<and>
     (output_paused c \<longrightarrow> has_pending_output c) \<and>
     length (input_buffer c) \<le> kMaxInputBytes \<and> length (output_buffer c) \<le> kMaxOutputBytes"
proof -
  have "client_ok (ep_of s) (trace s) fd c"
    using reachable_inv [OF assms(1,2)] consistent_client(2) [OF _ assms(3)]
    by (auto simp: server_inv_def)
  then show ?thesis
    by (auto simp: client_ok_def live_def wanted_def conn_inv_def ufd_get_def pressure_ok_def
        has_pending_output_def)
qed

theorem no_stranded_client_witness:
  "interest 4 (trace demo_served) 5 =
     Some (interest_mask \<lparr>want_read = can_read demo_client, want_write = has_pending_output demo_client\<rparr>)"
proof -
  have "map_of (clients demo_served) 5 = Some demo_client"
    by (simp add: demo_served_def demo_admitted_def)
  from no_stranded_client [OF demo_served_reachable demo_laws this] show ?thesis
    by (simp add: demo_served_def demo_admitted_def demo_start_def ufd_get_def)
qed

text \<open>
  Property C8. The server never stops by itself over a bookkeeping error: when
  \<open>epoll_wait\<close> reports registered descriptors only, an iteration from a reachable
  state ends the program only after a failed \<open>epoll_wait\<close>, a fatal \<open>accept\<close> error
  or an error reported on the listener, never because of an unknown or doubly
  owned descriptor.
\<close>

theorem loop_exit_reasons:
  assumes "reachable K s" and "kernel_laws K" and "epoll_honest K"
    and "event_loop_iteration K order s = Some (Return code t)"
  shows "code = 1 \<and>
    ((\<exists>h e. trace t = h @ [Report ''poller wait'' e] \<and> e \<noteq> EINTR) \<or>
     (\<exists>h e. trace t = h @ [Report ''accept'' e] \<and> fatal_accept e) \<or>
     (\<exists>h. trace t = h @ [Stderr ''listener reported an unexpected event'']))"
  using event_loop_iteration_inv(2) [OF reachable_inv [OF assms(1,2)] assms(2,4) refl assms(3)]
  by (simp add: loop_exit_def)

text \<open>The demonstration world, with a process-wide limit of open files at \<open>accept\<close>.\<close>

definition emfile_kernel :: kernel where
  "emfile_kernel = demo_kernel\<lparr>k_accept := \<lambda>_ _. Inl 24\<rparr>"

lemma emfile_run:
  "main_setup emfile_kernel [] = Some (Inr demo_start)"
  "event_loop_iteration emfile_kernel [] demo_start = Some (Return 1 (demo_start\<lparr>trace :=
     demo_setup_calls @ [Epoll_Wait 4 1000 (Inr (Some (read_event 3))), Accept 3 (Inl 24),
       Report ''accept'' 24]\<rparr>))"
  by code_simp+

lemma emfile_laws: "kernel_laws emfile_kernel" "epoll_honest emfile_kernel"
  using demo_laws demo_honest
  by (auto simp: kernel_laws_def recv_bounded_def send_bounded_def fresh_fds_def epoll_honest_def
      emfile_kernel_def)

theorem loop_exit_reasons_witness:
  "\<exists>h. demo_setup_calls @ [Epoll_Wait 4 1000 (Inr (Some (read_event 3))), Accept 3 (Inl 24),
     Report ''accept'' 24] = h @ [Report ''accept'' 24] \<and> fatal_accept 24"
  using loop_exit_reasons [OF reachable.start [OF emfile_run(1)] emfile_laws emfile_run(2)]
  by simp


text \<open>
  Property C14. Start-up is all or nothing for descriptors: when \<open>main\<close> fails
  before its loop, every descriptor it opened is closed again.
\<close>

theorem setup_failure_releases:
  assumes "main_setup K h = Some (Inl h')" and "fresh_fds K"
  shows "open_fds h' = open_fds h"
  using main_setup_cases [OF assms] by simp

theorem setup_failure_releases_witness:
  "open_fds [Socket 2 1 0 (Inr 3), Setsockopt_Reuse 3 (Inr ()), Bind_Port 3 8080 (Inl 98),
     Report ''bind'' 98, Close 3] = {}"
proof -
  let ?K = "demo_kernel\<lparr>k_bind := \<lambda>_ _ _. Inl 98\<rparr>"
  have "main_setup ?K [] = Some (Inl [Socket 2 1 0 (Inr 3), Setsockopt_Reuse 3 (Inr ()),
      Bind_Port 3 8080 (Inl 98), Report ''bind'' 98, Close 3])"
    by code_simp
  moreover have "fresh_fds ?K"
    using demo_laws by (simp add: kernel_laws_def fresh_fds_def)
  ultimately show ?thesis
    using setup_failure_releases [of ?K "[]"] by simp
qed

text \<open>
  Property C9. Leaving \<open>main\<close> from any iteration closes every descriptor exactly
  once: first the clients, then the epoll instance, then the listener; nothing
  stays open.
\<close>

theorem exit_closes_everything:
  assumes "reachable K s" and "kernel_laws K"
    and "event_loop_iteration K order s = Some (Return code t)"
  shows "shutdown t = trace t @ map Close (map fst (clients t) @
       [ufd_get (descriptor (poller t)), ufd_get (listener t)]) \<and>
     distinct (map fst (clients t) @ [ufd_get (descriptor (poller t)), ufd_get (listener t)]) \<and>
     open_fds (shutdown t) = {}"
proof -
  have inv: "server_inv t"
    using event_loop_iteration_inv(1) [OF reachable_inv [OF assms(1,2)] assms(2,3)] by simp
  then have c: "consistent {} {} t" by (simp add: server_inv_def)
  then have "distinct (map fst (clients t) @ [ufd_get (descriptor (poller t)), ufd_get (listener t)])"
    by (auto simp: consistent_def owned_def keys_def ufd_get_def)
  with shutdown_history [OF c] shutdown_open [OF inv] show ?thesis
    by (simp add: keys_def ufd_get_def)
qed

theorem exit_closes_everything_witness:
  "open_fds (shutdown (demo_start\<lparr>trace := demo_setup_calls @
     [Epoll_Wait 4 1000 (Inr (Some (read_event 3))), Accept 3 (Inl 24), Report ''accept'' 24]\<rparr>)) = {}"
  using exit_closes_everything [OF reachable.start [OF emfile_run(1)] emfile_laws(1) emfile_run(2)]
  by blast

subsection \<open>Properties of a visit\<close>

text \<open>
  Property C4. The contract of one \<open>service_client\<close> call, whatever the event and
  whatever the kernel answers: the bytes received extend the pending input; a
  prefix of it, some complete frames within the command budget, is served in
  order against the store; the bytes sent are a prefix of the pending output
  extended by the replies, and what is not sent stays pending; the input behind
  the served frames stays pending, except that an unfinished last line is dropped
  at end of stream; and the only reasons for retirement are seven, the reply
  limit not among them: \<open>input buffer limit\<close> means a full buffer without a newline,
  \<open>read EOF and output drained\<close> that every reply was sent.
\<close>

theorem service_client_exchange:
  assumes "conn_inv c" and "store_ok st" and "recv_bounded K" and "send_bounded K"
    and "service_client K p c ev st h = (reason, c', st', h')" and "ufd_get (socket c) = fd"
  shows "(\<exists>received sent frames rest.
       rx fd h' = rx fd h @ received \<and> tx fd h' = tx fd h @ sent \<and>
       pending_in c @ received = join_lines frames @ rest \<and> (\<forall>f\<in>set frames. NL \<notin> set f) \<and>
       length frames \<le> kCommandBudget \<and> st' = snd (serve frames st) \<and>
       pending_out c @ fst (serve frames st) = sent @ pending_out c' \<and>
       (pending_in c' = rest \<or> read_eof c' \<and> NL \<notin> set rest \<and> pending_in c' = [])) \<and>
     conn_inv c' \<and> store_ok st' \<and> socket c' = socket c \<and>
     (reason = None \<or> reason \<in> Some ` {''socket error event'', ''full hangup'', ''receive error'',
        ''input buffer limit'', ''send error'', ''read EOF and output drained'',
        ''interest update failed''}) \<and>
     (reason = Some ''input buffer limit'' \<longrightarrow>
        length (pending_in c') = kMaxInputBytes \<and> NL \<notin> set (pending_in c')) \<and>
     (reason = Some ''read EOF and output drained'' \<longrightarrow> read_eof c' \<and> pending_out c' = [])"
proof -
  have "visited p fd c st h (reason, c', st', h')"
    using service_client_spec [OF assms(1-4), where p = p and ev = ev and h = h] assms(5,6) by simp
  then have ex: "exchanged fd c st h c' st' h'"
    and rest: "conn_inv c'" "store_ok st'" "socket c' = socket c" "\<forall>r. reason = Some r \<longrightarrow> r \<in> service_reasons"
      "reason = Some ''input buffer limit'' \<longrightarrow> stuck_tail c'"
      "reason = Some ''read EOF and output drained'' \<longrightarrow> read_eof c' \<and> pending_out c' = []"
    by (simp_all add: visited_def)
  have "reason = None \<or> reason \<in> Some ` service_reasons"
    using rest(4) by (cases reason) auto
  moreover have "\<exists>received sent frames rest.
       rx fd h' = rx fd h @ received \<and> tx fd h' = tx fd h @ sent \<and>
       pending_in c @ received = join_lines frames @ rest \<and> (\<forall>f\<in>set frames. NL \<notin> set f) \<and>
       length frames \<le> kCommandBudget \<and> st' = snd (serve frames st) \<and>
       pending_out c @ fst (serve frames st) = sent @ pending_out c' \<and>
       (pending_in c' = rest \<or> read_eof c' \<and> NL \<notin> set rest \<and> pending_in c' = [])"
    using ex unfolding exchanged_def by blast
  ultimately show ?thesis
    using rest by (simp add: service_reasons_def stuck_tail_def frames_in_Nil)
qed

theorem service_client_exchange_witness:
  "\<exists>received sent frames rest.
     rx 5 (trace demo_served) = received \<and> tx 5 (trace demo_served) = sent \<and>
     received = join_lines frames @ rest \<and> \<lparr>data_ref = [(''a'', ''1'')]\<rparr> = snd (serve frames empty_store) \<and>
     fst (serve frames empty_store) = sent"
proof -
  let ?h = "demo_setup_calls @ demo_accept_calls @ [Now 0, Epoll_Wait 4 1000 (Inr (Some (read_event 5)))]"
  have c: "conn_inv demo_client" "ufd_get (socket demo_client) = 5" "pending_in demo_client = []"
    "pending_out demo_client = []"
    by (simp_all add: conn_inv_def demo_client_def ufd_get_def pending_in_def pending_out_def)
  have K: "recv_bounded demo_kernel" "send_bounded demo_kernel"
    using demo_laws by (simp_all add: kernel_laws_def)
  have h: "rx 5 ?h = []" "tx 5 ?h = []"
    by (simp_all add: demo_setup_calls_def demo_accept_calls_def)
  from service_client_exchange [OF c(1) store_ok_empty K demo_service_client c(2)] show ?thesis
    unfolding c(3,4) h by auto
qed


text \<open>
  Property C17. Visits are isolated: sweeping one client sends and receives nothing
  on any other client's descriptor and leaves the other's connection, its
  registered interest and the listener and poller objects as they are.
\<close>

theorem visit_isolated:
  assumes "reachable K s" and "kernel_laws K" and "fd' \<noteq> fd"
  shows "(let t = fst (visit_client K fd s); ep = ufd_get (descriptor (poller s)) in
     map_of (clients t) fd' = map_of (clients s) fd' \<and>
     tx fd' (trace t) = tx fd' (trace s) \<and> rx fd' (trace t) = rx fd' (trace s) \<and>
     interest ep (trace t) fd' = interest ep (trace s) fd' \<and>
     listener t = listener s \<and> poller t = poller s)"
proof -
  have "consistent {} {} s" "recv_bounded K" "send_bounded K"
    using reachable_inv [OF assms(1,2)] assms(2) by (simp_all add: server_inv_def kernel_laws_def)
  from grows_visit [OF visit_client_inv(3) [OF this] assms(3)] show ?thesis
    using assms(3) by (simp add: visit_client_frame Let_def)
qed

theorem visit_isolated_witness:
  "map_of (clients (fst (visit_client demo_kernel 6 demo_served))) 5 = Some demo_client"
  using visit_isolated [OF demo_served_reachable demo_laws, of 5 6]
  by (simp add: Let_def demo_served_def demo_admitted_def)

text \<open>
  Property C16. Idle clients go: visiting a client without progress for 30 seconds
  removes its entry and closes its descriptor, exactly once, without another byte
  sent.
\<close>

theorem idle_client_retired:
  assumes "server_inv s" and "kernel_laws K"
    and "map_of (clients s) fd = Some c"
    and "k_now K (trace s) - last_progress c \<ge> kIdleTimeout"
  shows "(let t = fst (visit_client K fd s) in
     map_of (clients t) = (map_of (clients s))(fd := None) \<and>
     closed (trace t) = closed (trace s) @ [fd] \<and> tx fd (trace t) = tx fd (trace s) \<and> server_inv t)"
proof -
  let ?s0 = "s\<lparr>trace := snd (sys_now K (trace s))\<rparr>"
  let ?t = "retire_client K fd ''idle timeout'' ?s0"
  have t: "fst (visit_client K fd s) = ?t"
    using assms(4) by (simp add: visit_client_Some [OF assms(3)])
  have inv: "consistent {} {} s" and len: "length (keys s) \<le> kMaxClients"
    using assms(1) by (simp_all add: server_inv_def length_keys)
  have "consistent {} {} ?s0" by (rule now_inv [OF inv])
  then have s0: "consistent {fd} {} ?s0" by (auto simp: consistent_def)
  have k0: "keys ?s0 = keys s" "fd \<in> set (keys ?s0)"
    using assms(3) keys_map_of [of fd s] by (simp_all add: keys_def)
  note r = consistent_retire [OF s0 k0(2), of K "''idle timeout''"]
  have "server_inv ?t"
    using r(1,2) k0(1) le_trans [OF length_removeAll_less_eq len]
    by (simp add: server_inv_def length_keys)
  moreover have "closed (trace ?t) = closed (trace s) @ [fd]" "tx fd (trace ?t) = tx fd (trace s)"
    using r(3) by (auto simp: quiet_exit_def sys_eqs)
  ultimately show ?thesis
    by (simp add: t Let_def retire_map_of)
qed

theorem idle_client_retired_witness:
  "closed (trace (fst (visit_client (demo_kernel\<lparr>k_now := \<lambda>_. kIdleTimeout\<rparr>) 5 demo_served))) = [5]"
proof -
  let ?K = "demo_kernel\<lparr>k_now := \<lambda>_. kIdleTimeout\<rparr>"
  have "kernel_laws ?K"
    using demo_laws by (simp add: kernel_laws_def recv_bounded_def send_bounded_def fresh_fds_def)
  moreover have "map_of (clients demo_served) 5 = Some demo_client"
    by (simp add: demo_served_def demo_admitted_def)
  moreover have "k_now ?K (trace demo_served) - last_progress demo_client \<ge> kIdleTimeout"
    by (simp add: demo_client_def)
  moreover have "closed (trace demo_served) = []"
    by (simp add: demo_served_def demo_setup_calls_def demo_accept_calls_def demo_service_calls_def)
  ultimately show ?thesis
    using idle_client_retired [OF reachable_inv [OF demo_served_reachable demo_laws], of ?K 5 demo_client]
    by (simp add: Let_def)
qed

end
