(* ===== verification/Serialization.thy ===== *)
theory Serialization
  imports Server_Run "HOL-Library.Sublist"
begin

text \<open>
  The clients of \<open>apps/server.cpp\<close> share one store and are served in turns, a
  bounded number of frames per visit. This theory shows that every run is
  serializable. \<open>iteration_log\<close> computes, from the model's own visits, which
  frames an iteration executes and in what order; the log of a run is their
  concatenation. The shared store is the sequential execution of that log, and
  for every connection ever accepted, retired ones included, the bytes received
  and sent are the logged frames and their replies. Descriptor numbers are
  reused, so connections are numbered in the order of \<open>accept\<close>.
\<close>

subsection \<open>The streams of the connections\<close>

record streams =
  next_id :: nat
  owner :: "fd \<Rightarrow> nat option"
  inb :: "nat \<Rightarrow> string"
  outb :: "nat \<Rightarrow> string"

fun stream1 :: "streams \<Rightarrow> sys_event \<Rightarrow> streams" where
  "stream1 \<sigma> (Accept lfd (Inr fd)) =
     \<sigma>\<lparr>next_id := Suc (next_id \<sigma>), owner := (owner \<sigma>)(fd \<mapsto> next_id \<sigma>)\<rparr>"
| "stream1 \<sigma> (Recv fd n (Inr bs)) =
     (case owner \<sigma> fd of None \<Rightarrow> \<sigma> | Some i \<Rightarrow> \<sigma>\<lparr>inb := (inb \<sigma>)(i := inb \<sigma> i @ bs)\<rparr>)"
| "stream1 \<sigma> (Send fd bs (Inr n)) =
     (case owner \<sigma> fd of None \<Rightarrow> \<sigma> | Some i \<Rightarrow> \<sigma>\<lparr>outb := (outb \<sigma>)(i := outb \<sigma> i @ take n bs)\<rparr>)"
| "stream1 \<sigma> e = \<sigma>"

definition streams_of :: "history \<Rightarrow> streams" where
  "streams_of h = foldl stream1 \<lparr>next_id = 0, owner = \<lambda>_. None, inb = \<lambda>_. [], outb = \<lambda>_. []\<rparr> h"

text \<open>
  The number of the connection a descriptor stands for, and everything received
  and sent on a connection.
\<close>

definition conn_of :: "history \<Rightarrow> fd \<Rightarrow> nat option" where
  "conn_of h = owner (streams_of h)"

definition rx_of :: "history \<Rightarrow> nat \<Rightarrow> string" where
  "rx_of h = inb (streams_of h)"

definition tx_of :: "history \<Rightarrow> nat \<Rightarrow> string" where
  "tx_of h = outb (streams_of h)"

lemmas streams_defs = conn_of_def rx_of_def tx_of_def

lemma streams_append [simp]: "streams_of (h @ es) = foldl stream1 (streams_of h) es"
  by (simp add: streams_of_def)

definition streams_wf :: "streams \<Rightarrow> bool" where
  "streams_wf \<sigma> \<longleftrightarrow>
     (\<forall>fd i. owner \<sigma> fd = Some i \<longrightarrow> i < next_id \<sigma>) \<and>
     (\<forall>fd fd' i. owner \<sigma> fd = Some i \<longrightarrow> owner \<sigma> fd' = Some i \<longrightarrow> fd = fd') \<and>
     (\<forall>i. next_id \<sigma> \<le> i \<longrightarrow> inb \<sigma> i = [] \<and> outb \<sigma> i = [])"

lemma stream1_wf: "streams_wf \<sigma> \<Longrightarrow> streams_wf (stream1 \<sigma> e)"
proof (cases e)
  case (Accept lfd r)
  assume "streams_wf \<sigma>"
  with Accept show ?thesis
    by (cases r) (auto simp: streams_wf_def less_Suc_eq)
next
  case (Recv fd n r)
  assume "streams_wf \<sigma>"
  with Recv show ?thesis
    by (cases r; cases "owner \<sigma> fd") (simp_all add: streams_wf_def, meson leD)
next
  case (Send fd bs r)
  assume "streams_wf \<sigma>"
  with Send show ?thesis
    by (cases r; cases "owner \<sigma> fd") (simp_all add: streams_wf_def, meson leD)
qed simp_all

lemma streams_of_wf: "streams_wf (streams_of h)"
proof -
  have "streams_wf \<sigma> \<Longrightarrow> streams_wf (foldl stream1 \<sigma> h)" for \<sigma>
    by (induction h arbitrary: \<sigma>) (simp_all add: stream1_wf)
  moreover have "streams_wf \<lparr>next_id = 0, owner = \<lambda>_. None, inb = \<lambda>_. [], outb = \<lambda>_. []\<rparr>"
    by (simp add: streams_wf_def)
  ultimately show ?thesis by (simp add: streams_of_def)
qed

lemma conn_of_inj: "conn_of h fd = Some i \<Longrightarrow> conn_of h fd' = Some i \<Longrightarrow> fd = fd'"
  using streams_of_wf [of h] by (auto simp: streams_wf_def conn_of_def)

text \<open>Before the first connection nothing is received or sent on one.\<close>

lemma streams_none:
  assumes "accepted h = []"
  shows "rx_of h i = []" "tx_of h i = []"
proof -
  have "foldl stream1 \<sigma> h = \<sigma>" if "owner \<sigma> = (\<lambda>_. None)" for \<sigma>
    using assms that
  proof (induction h arbitrary: \<sigma>)
    case (Cons e h)
    then have "stream1 \<sigma> e = \<sigma>"
      by (cases "(\<sigma>, e)" rule: stream1.cases) simp_all
    with Cons show ?case by simp
  qed simp
  then show "rx_of h i = []" "tx_of h i = []"
    by (simp_all add: streams_defs streams_of_def)
qed

text \<open>Calls that touch no stream, and the calls of a visit, which touch one.\<close>

definition silent :: "sys_event \<Rightarrow> bool" where
  "silent e \<longleftrightarrow> (\<forall>\<sigma>. stream1 \<sigma> e = \<sigma>)"

lemma silent_simps [simp]:
  "silent (Now t)" "silent (Epoll_Wait ep t' q)" "silent (Report op e)"
  "silent (Stderr m)" "silent (Stdout m)" "silent (Accept l (Inl e))"
  "silent (Close fd')" "silent (Epoll_Ctl ep op' fd'' ev u)"
  "silent (Getfl fd' w)" "silent (Setfl fd' w' u')"
  by (simp_all add: silent_def)

lemma streams_silent: "list_all silent es \<Longrightarrow> foldl stream1 \<sigma> es = \<sigma>"
  by (induction es arbitrary: \<sigma>) (simp_all add: silent_def)

lemma stream1_visit:
  assumes "is_visit ep fd e" and "owner \<sigma> fd = Some i"
  shows "stream1 \<sigma> e = \<sigma>\<lparr>inb := (inb \<sigma>)(i := inb \<sigma> i @ rx1 fd e),
    outb := (outb \<sigma>)(i := outb \<sigma> i @ tx1 fd e)\<rparr>"
proof (cases e)
  case (Recv fd' n r)
  with assms show ?thesis by (cases r) simp_all
next
  case (Send fd' bs r)
  with assms show ?thesis by (cases r) simp_all
qed (use assms in simp_all)

lemma streams_visit:
  assumes "list_all (is_visit ep fd) es" and "owner \<sigma> fd = Some i"
  shows "foldl stream1 \<sigma> es = \<sigma>\<lparr>inb := (inb \<sigma>)(i := inb \<sigma> i @ rx fd es),
    outb := (outb \<sigma>)(i := outb \<sigma> i @ tx fd es)\<rparr>"
  using assms
proof (induction es arbitrary: \<sigma>)
  case Nil
  then show ?case by simp
next
  case (Cons e es)
  have e: "is_visit ep fd e" and es: "list_all (is_visit ep fd) es" using Cons.prems by simp_all
  let ?\<sigma> = "stream1 \<sigma> e"
  note one = stream1_visit [OF e Cons.prems(2)]
  have "owner ?\<sigma> fd = Some i" using Cons.prems(2) by (simp add: one)
  from Cons.IH [OF es this] show ?case by (simp add: one cong: if_cong)
qed

lemma visit_streams:
  assumes "list_all (is_visit ep fd) es" and "conn_of h fd = Some i"
  shows "conn_of (h @ es) = conn_of h"
    "rx_of (h @ es) j = (if j = i then rx_of h i @ rx fd es else rx_of h j)"
    "tx_of (h @ es) j = (if j = i then tx_of h i @ tx fd es else tx_of h j)"
  using streams_visit [OF assms(1), of "streams_of h" i] assms(2) by (auto simp: streams_defs)

subsection \<open>The log\<close>

text \<open>Executed frames, each with the number of its connection.\<close>

type_synonym log = "(nat \<times> string) list"

definition replay :: "log \<Rightarrow> KeyValueStore" where
  "replay log = snd (serve (map snd log) empty_store)"

definition frames_of :: "nat \<Rightarrow> log \<Rightarrow> string list" where
  "frames_of i log = map snd (filter (\<lambda>e. fst e = i) log)"

text \<open>The replies of one connection's frames when the whole log is executed.\<close>

fun replies :: "nat \<Rightarrow> log \<Rightarrow> KeyValueStore \<Rightarrow> string" where
  "replies i [] st = []"
| "replies i ((j, f) # log) st =
     (let (reply, st') = respond f st in (if j = i then reply else []) @ replies i log st')"

definition replies_of :: "nat \<Rightarrow> log \<Rightarrow> string" where
  "replies_of i log = replies i log empty_store"

lemma log_Nil [simp]: "replay [] = empty_store" "frames_of i [] = []" "replies_of i [] = []"
  by (simp_all add: replay_def frames_of_def replies_of_def)

lemma frames_of_append [simp]: "frames_of i (log @ log') = frames_of i log @ frames_of i log'"
  by (simp add: frames_of_def)

lemma frames_of_served [simp]: "frames_of j (map (Pair i) fs) = (if j = i then fs else [])"
  by (induction fs) (auto simp: frames_of_def)

lemma replies_append: "replies i (log @ log') st = replies i log st @ replies i log' (snd (serve (map snd log) st))"
  by (induction log arbitrary: st) (auto simp: case_prod_beta Let_def)

lemma replies_served: "replies j (map (Pair i) fs) st = (if j = i then fst (serve fs st) else [])"
  by (induction fs arbitrary: st) (auto simp: case_prod_beta Let_def)

lemma log_served:
  "replay (log @ map (Pair i) fs) = snd (serve fs (replay log))"
  "frames_of j (log @ map (Pair i) fs) = frames_of j log @ (if j = i then fs else [])"
  "replies_of j (log @ map (Pair i) fs) =
     replies_of j log @ (if j = i then fst (serve fs (replay log)) else [])"
proof -
  have "map (snd \<circ> Pair i) fs = fs" by (simp add: o_def)
  then show "replay (log @ map (Pair i) fs) = snd (serve fs (replay log))"
    by (simp add: replay_def serve_append case_prod_beta Let_def)
  show "frames_of j (log @ map (Pair i) fs) = frames_of j log @ (if j = i then fs else [])"
    by (simp add: frames_of_served)
  show "replies_of j (log @ map (Pair i) fs) =
     replies_of j log @ (if j = i then fst (serve fs (replay log)) else [])"
    by (simp add: replies_of_def replies_append replies_served replay_def)
qed

lemma replies_none: "frames_of i log = [] \<Longrightarrow> replies_of i log = []"
proof -
  have "frames_of i log = [] \<Longrightarrow> replies i log st = []" for st
    by (induction log arbitrary: st) (auto simp: frames_of_def case_prod_beta Let_def split: if_splits)
  then show "frames_of i log = [] \<Longrightarrow> replies_of i log = []" by (simp add: replies_of_def)
qed

text \<open>
  How a connection stands in the log. For any connection, past or present, the
  received bytes are its logged frames and a rest, and the sent bytes a prefix of
  their replies. For a connected client the rest is the pending input (only an
  unfinished line is dropped at the end of the stream), and exactly the pending
  output is still to be sent.
\<close>

definition settled :: "log \<Rightarrow> history \<Rightarrow> nat \<Rightarrow> bool" where
  "settled log h i \<longleftrightarrow>
     (\<exists>rest. rx_of h i = join_lines (frames_of i log) @ rest) \<and>
     (\<forall>f\<in>set (frames_of i log). NL \<notin> set f) \<and> prefix (tx_of h i) (replies_of i log)"

definition accounted :: "log \<Rightarrow> history \<Rightarrow> nat \<Rightarrow> Connection \<Rightarrow> bool" where
  "accounted log h i c \<longleftrightarrow>
     (\<exists>rest. rx_of h i = join_lines (frames_of i log) @ rest \<and>
        (pending_in c = rest \<or> read_eof c \<and> NL \<notin> set rest \<and> pending_in c = [])) \<and>
     (\<forall>f\<in>set (frames_of i log). NL \<notin> set f) \<and>
     tx_of h i @ pending_out c = replies_of i log"

definition serialized :: "log \<Rightarrow> server \<Rightarrow> bool" where
  "serialized log s \<longleftrightarrow> kv_store s = replay log \<and>
     (\<forall>fd c. map_of (clients s) fd = Some c \<longrightarrow>
        (\<exists>i. conn_of (trace s) fd = Some i \<and> accounted log (trace s) i c)) \<and>
     (\<forall>i. settled log (trace s) i)"

lemma accounted_settled: "accounted log h i c \<Longrightarrow> settled log h i"
  unfolding accounted_def settled_def by (metis prefixI)

text \<open>
  \<open>accounts es s t\<close>: \<open>t\<close> continues \<open>s\<close>, and executing \<open>es\<close> is what happened in
  between.
\<close>

definition accounts :: "log \<Rightarrow> server \<Rightarrow> server \<Rightarrow> bool" where
  "accounts es s t \<longleftrightarrow>
     (\<exists>evs. trace t = trace s @ evs) \<and> (\<forall>log. serialized log s \<longrightarrow> serialized (log @ es) t)"

lemma accounts_trans [trans]:
  "accounts es s t \<Longrightarrow> accounts es' t u \<Longrightarrow> accounts (es @ es') s u"
  unfolding accounts_def by fastforce

lemma accounts_refl [simp]: "accounts [] s s"
  by (simp add: accounts_def)

text \<open>Nothing is executed while the streams stand still.\<close>

lemma accounts_still:
  assumes "trace t = trace s @ es" and "kv_store t = kv_store s"
    and cl: "\<And>fd c. map_of (clients t) fd = Some c \<Longrightarrow> map_of (clients s) fd = Some c"
    and same: "conn_of (trace t) = conn_of (trace s)" "rx_of (trace t) = rx_of (trace s)"
      "tx_of (trace t) = tx_of (trace s)"
  shows "accounts [] s t"
proof -
  have "serialized log t" if ser: "serialized log s" for log
  proof -
    have "accounted log (trace t) i c = accounted log (trace s) i c"
      "settled log (trace t) i = settled log (trace s) i" for i c
      by (simp_all only: accounted_def settled_def same)
    with ser cl assms(2) same(1) show ?thesis
      unfolding serialized_def by metis
  qed
  with assms(1) show ?thesis by (simp add: accounts_def)
qed

lemma accounts_silent:
  assumes "clients t = clients s" and "kv_store t = kv_store s"
    and "trace t = trace s @ es" and "list_all silent es"
  shows "accounts [] s t"
proof -
  have "streams_of (trace t) = streams_of (trace s)"
    using assms(3,4) by (simp add: streams_silent)
  then show ?thesis
    using assms(1) by (intro accounts_still [OF assms(3,2)]) (simp_all add: streams_defs)
qed

lemma accounts_note: "list_all silent es \<Longrightarrow> accounts [] s (s\<lparr>trace := trace s @ es\<rparr>)"
  by (rule accounts_silent) simp_all

subsection \<open>One visit\<close>

text \<open>
  The frames a call of \<open>service_client\<close> executes: the complete frames at hand,
  received bytes included, but for those it leaves pending.
\<close>

definition executed ::
  "kernel \<Rightarrow> event_poller \<Rightarrow> Connection \<Rightarrow> ready_event \<Rightarrow> KeyValueStore \<Rightarrow> history \<Rightarrow> string list" where
  "executed K p c ev st h =
     (let (reason, c', st', h') = service_client K p c ev st h;
          fd = ufd_get (socket c);
          frames = fst (split_lines (pending_in c @ drop (length (rx fd h)) (rx fd h')))
      in take (length frames - length (frames_in c')) frames)"

lemma executed_exchange:
  assumes run: "service_client K p c ev st h = (reason, c', st', h')"
    and ex: "exchanged fd c st h c' st' h'" and fd: "ufd_get (socket c) = fd"
  shows "\<exists>rest d. rx fd h' = rx fd h @ d \<and> pending_in c @ d = join_lines (executed K p c ev st h) @ rest \<and>
     (\<forall>f\<in>set (executed K p c ev st h). NL \<notin> set f) \<and>
     st' = snd (serve (executed K p c ev st h) st) \<and>
     (\<exists>out. tx fd h' = tx fd h @ out \<and>
        pending_out c @ fst (serve (executed K p c ev st h) st) = out @ pending_out c') \<and>
     (pending_in c' = rest \<or> read_eof c' \<and> NL \<notin> set rest \<and> pending_in c' = []) \<and>
     (read_eof c \<longrightarrow> d = [] \<and> read_eof c') \<and>
     frames_in c' = fst (split_lines rest)"
proof -
  obtain d out fs rest where x: "rx fd h' = rx fd h @ d" "tx fd h' = tx fd h @ out"
    "pending_in c @ d = join_lines fs @ rest" "\<forall>f\<in>set fs. NL \<notin> set f" "st' = snd (serve fs st)"
    "pending_out c @ fst (serve fs st) = out @ pending_out c'"
    "pending_in c' = rest \<or> read_eof c' \<and> NL \<notin> set rest \<and> pending_in c' = []"
    "read_eof c \<longrightarrow> d = [] \<and> read_eof c'"
    using ex unfolding exchanged_def by blast
  have "fst (split_lines (pending_in c @ d)) = fs @ fst (split_lines rest)"
    unfolding x(3) split_lines_append [of "join_lines fs"]
    using split_lines_join [OF x(4), of "[]"] by simp
  moreover have left: "frames_in c' = fst (split_lines rest)"
    using x(7) by (auto simp: frames_in_def split_simps)
  ultimately have "executed K p c ev st h = fs"
    using x(1) by (simp add: executed_def run fd)
  with x left show ?thesis by blast
qed

text \<open>The entries of a visit, and of a sweep, as the loop makes them.\<close>

definition service_log :: "kernel \<Rightarrow> fd \<Rightarrow> Connection \<Rightarrow> ready_event \<Rightarrow> server \<Rightarrow> log" where
  "service_log K fd c ev s =
     (case conn_of (trace s) fd of
        None \<Rightarrow> []
      | Some i \<Rightarrow> map (Pair i) (executed K (poller s) c ev (kv_store s) (trace s)))"

definition visit_log :: "kernel \<Rightarrow> fd \<Rightarrow> server \<Rightarrow> log" where
  "visit_log K fd s =
     (case map_of (clients s) fd of
        None \<Rightarrow> []
      | Some c \<Rightarrow>
          (let (now, h1) = sys_now K (trace s) in
           if now - last_progress c \<ge> kIdleTimeout \<or> \<not> has_runnable_input c then []
           else service_log K fd c no_event (s\<lparr>trace := h1\<rparr>)))"

fun sweep_log :: "kernel \<Rightarrow> fd list \<Rightarrow> server \<Rightarrow> log" where
  "sweep_log K [] s = []"
| "sweep_log K (fd # fds) s = visit_log K fd s @ sweep_log K fds (fst (visit_client K fd s))"

lemma accounted_exchange:
  assumes acc: "accounted log h i c" and i: "conn_of h fd = Some i"
    and es: "list_all (is_visit ep fd) es" and d: "rx fd es = d" "tx fd es = out"
    and x: "pending_in c @ d = join_lines fs @ rest" "\<forall>f\<in>set fs. NL \<notin> set f"
    "pending_out c @ fst (serve fs (replay log)) = out @ pending_out c'"
    "pending_in c' = rest \<or> read_eof c' \<and> NL \<notin> set rest \<and> pending_in c' = []"
    "read_eof c \<longrightarrow> d = [] \<and> read_eof c'"
  shows "accounted (log @ map (Pair i) fs) (h @ es) i c'"
proof -
  note str = visit_streams(2,3) [OF es i, of i, simplified d, simplified]
  obtain rest0 where y: "rx_of h i = join_lines (frames_of i log) @ rest0"
    "pending_in c = rest0 \<or> read_eof c \<and> NL \<notin> set rest0 \<and> pending_in c = []"
    "\<forall>f\<in>set (frames_of i log). NL \<notin> set f" "tx_of h i @ pending_out c = replies_of i log"
    using acc by (auto simp: accounted_def)
  have out: "tx_of (h @ es) i @ pending_out c' = replies_of i log @ fst (serve fs (replay log))"
    using x(3) y(4) str(2) by (metis append_assoc)
  have "\<exists>rest'. rx_of (h @ es) i = join_lines (frames_of i log @ fs) @ rest' \<and>
      (pending_in c' = rest' \<or> read_eof c' \<and> NL \<notin> set rest' \<and> pending_in c' = [])"
  proof (cases "pending_in c = rest0")
    case True
    then show ?thesis
      using x(1,4) y(1) str(1) by (intro exI [of _ rest]) simp
  next
    case False
    with y(2) x(1,5) have "read_eof c'" "NL \<notin> set rest0" "fs = []" "rest = []" "d = []"
      by (cases fs; auto)+
    with x(4) y(1) str(1) show ?thesis by (intro exI [of _ rest0]) auto
  qed
  with out x(2) y(3) show ?thesis
    by (auto simp: accounted_def log_served)
qed

lemma accounts_service:
  assumes inv: "consistent {} E s" and c: "map_of (clients s) fd = Some c"
    and K: "recv_bounded K" "send_bounded K"
  shows "accounts (service_log K fd c ev s) s (service_entry K fd c ev s)"
proof -
  let ?t = "service_entry K fd c ev s"
  note e = service_entry_inv [OF inv c K, of ev]
  obtain es where es: "trace ?t = trace s @ es" "list_all (is_visit (ep_of s) fd) es"
    using e(3) by (auto simp: grows_def)
  obtain reason c1 h1 where v:
    "service_client K (poller s) c ev (kv_store s) (trace s) = (reason, c1, kv_store ?t, h1)"
    "visited (poller s) fd c (kv_store s) (trace s) (reason, c1, kv_store ?t, h1)"
    "map_of (clients ?t) fd = (if reason = None then Some c1 else None)"
    "if reason = None then trace ?t = h1
     else \<exists>es. trace ?t = h1 @ es @ [Close fd] \<and> quiet_exit (ep_of s) fd es"
    using e(4) unfolding served_entry_def by blast
  let ?fs = "executed K (poller s) c ev (kv_store s) (trace s)"
  have "exchanged fd c (kv_store s) (trace s) c1 (kv_store ?t) h1" and fd: "ufd_get (socket c) = fd"
    using v(2) consistent_client(1) [OF inv c] by (simp_all add: visited_def ufd_get_def)
  from executed_exchange [OF v(1) this] obtain rest d out where x:
    "rx fd h1 = rx fd (trace s) @ d" "pending_in c @ d = join_lines ?fs @ rest"
    "\<forall>f\<in>set ?fs. NL \<notin> set f" "kv_store ?t = snd (serve ?fs (kv_store s))"
    "tx fd h1 = tx fd (trace s) @ out" "pending_out c @ fst (serve ?fs (kv_store s)) = out @ pending_out c1"
    "pending_in c1 = rest \<or> read_eof c1 \<and> NL \<notin> set rest \<and> pending_in c1 = []"
    "read_eof c \<longrightarrow> d = [] \<and> read_eof c1" by blast
  have "rx fd (trace ?t) = rx fd h1" "tx fd (trace ?t) = tx fd h1"
    using v(4) by (auto simp: quiet_exit_def split: if_splits)
  then have d: "rx fd es = d" "tx fd es = out"
    using x(1,5) es(1) by simp_all
  show ?thesis
    unfolding accounts_def
  proof (intro conjI allI impI)
    fix log assume ser: "serialized log s"
    then obtain i where i: "conn_of (trace s) fd = Some i" "accounted log (trace s) i c"
      and store: "kv_store s = replay log" and old: "\<And>j. settled log (trace s) j"
      using c unfolding serialized_def by blast
    let ?log = "log @ map (Pair i) ?fs"
    note str = visit_streams [OF es(2) i(1), folded es(1)]
    have own: "accounted ?log (trace ?t) i c1"
      unfolding es(1)
      by (rule accounted_exchange [OF i(2,1) es(2) d x(2,3) _ x(7,8)]) (use x(6) store in simp)
    have "settled ?log (trace ?t) j" for j
      using accounted_settled [OF own] old [of j]
      by (cases "j = i") (simp_all add: settled_def log_served str)
    moreover have "\<exists>j. conn_of (trace ?t) fd' = Some j \<and> accounted ?log (trace ?t) j c'"
      if c': "map_of (clients ?t) fd' = Some c'" for fd' c'
    proof (cases "fd' = fd")
      case True
      with c' v(3) own i(1) str(1) show ?thesis by (auto split: if_splits)
    next
      case False
      then have "map_of (clients s) fd' = Some c'"
        using c' by (simp add: service_entry_other)
      then obtain j where j: "conn_of (trace s) fd' = Some j" "accounted log (trace s) j c'"
        using ser unfolding serialized_def by blast
      have "j \<noteq> i" using False conn_of_inj i(1) j(1) by blast
      with j str show ?thesis by (simp add: accounted_def log_served)
    qed
    moreover have "kv_store ?t = replay ?log"
      using x(4) store by (simp add: log_served)
    ultimately show "serialized (log @ service_log K fd c ev s) ?t"
      by (simp add: serialized_def service_log_def i(1))
  qed (use es(1) in blast)
qed

lemma accounts_now: "accounts [] s (s\<lparr>trace := snd (sys_now K (trace s))\<rparr>)"
  by (rule accounts_silent [where es = "[Now (k_now K (trace s))]"]) (simp_all add: sys_eqs)

lemma accounts_retire:
  assumes "consistent {fd} E s" and "fd \<in> set (keys s)"
  shows "accounts [] s (retire_client K fd r s)"
proof -
  let ?t = "retire_client K fd r s"
  obtain es where es: "trace ?t = trace s @ es" "list_all (is_visit (ep_of s) fd) es"
      "rx fd es = []" "tx fd es = []"
    using consistent_retire(3) [OF assms, of K r] by (auto simp: quiet_exit_def)
  have cl: "map_of (clients s) fd' = Some c" if "map_of (clients ?t) fd' = Some c" for fd' c
    using that by (simp add: retire_map_of split: if_splits)
  show ?thesis
  proof (cases "conn_of (trace s) fd")
    case None
    obtain c where "map_of (clients s) fd = Some c"
      using assms(2) by (auto simp: keys_map_of)
    with None have "\<not> serialized log s" for log
      unfolding serialized_def by force
    with es(1) show ?thesis by (auto simp: accounts_def)
  next
    case (Some i)
    note str = visit_streams [OF es(2) Some, folded es(1), unfolded es(3,4)]
    show ?thesis
      by (rule accounts_still [OF es(1) _ cl]) (use str in \<open>auto simp: retire_same fun_eq_iff\<close>)
  qed
qed

lemma accounts_visit:
  assumes inv: "consistent {} E s" and K: "recv_bounded K" "send_bounded K"
  shows "accounts (visit_log K fd s) s (fst (visit_client K fd s))"
proof (cases "map_of (clients s) fd")
  case None
  then show ?thesis by (simp add: visit_client_def visit_log_def)
next
  case (Some c)
  let ?s0 = "s\<lparr>trace := snd (sys_now K (trace s))\<rparr>"
  have inv0: "consistent {} E ?s0" by (rule now_inv [OF inv])
  have c0: "map_of (clients ?s0) fd = Some c" using Some by simp
  from Some show ?thesis
  proof (cases rule: visit_client_cases [where K = K])
    case idle
    have "consistent {fd} E ?s0" using inv0 by (auto simp: consistent_def)
    moreover have "fd \<in> set (keys ?s0)" using c0 keys_map_of by blast
    ultimately have "accounts [] ?s0 (retire_client K fd ''idle timeout'' ?s0)"
      by (rule accounts_retire)
    from accounts_trans [OF accounts_now this] Some idle show ?thesis
      by (simp add: visit_log_def sys_eqs)
  next
    case serve
    from accounts_trans [OF accounts_now accounts_service [OF inv0 c0 K]] Some serve show ?thesis
      by (simp add: visit_log_def sys_eqs)
  next
    case skip
    with Some accounts_now [of s K] show ?thesis
      by (simp add: visit_log_def sys_eqs)
  qed
qed

lemma accounts_sweep:
  assumes "consistent {} E s" and K: "recv_bounded K" "send_bounded K"
  shows "accounts (sweep_log K fds s) s (fst (sweep K fds s r))"
  using assms(1)
proof (induction fds arbitrary: s r)
  case Nil
  then show ?case by simp
next
  case (Cons fd fds)
  from accounts_trans [OF accounts_visit [OF Cons.prems K] Cons.IH [OF visit_client_inv(1) [OF Cons.prems K]]]
  show ?case by (simp add: case_prod_beta)
qed

subsection \<open>Admission in detail\<close>

fun is_accept :: "sys_event \<Rightarrow> bool" where
  "is_accept (Accept _ _) = True"
| "is_accept _ = False"

text \<open>How often \<open>accept\<close> was called, successfully or not.\<close>

definition accept_calls :: "history \<Rightarrow> nat" where
  "accept_calls es = length (filter is_accept es)"

lemma accept_calls_simps [simp]:
  "accept_calls [] = 0" "accept_calls (es @ es') = accept_calls es + accept_calls es'"
  "accept_calls (e # es) = (if is_accept e then Suc (accept_calls es) else accept_calls es)"
  by (simp_all add: accept_calls_def)

text \<open>
  One accepted descriptor ends up closed, or as the only new entry, with empty
  buffers; nothing else changes.
\<close>

definition admitted_or_closed :: "fd \<Rightarrow> server \<Rightarrow> server \<Rightarrow> bool" where
  "admitted_or_closed fd s t \<longleftrightarrow>
     (\<exists>es new. trace t = trace s @ es \<and> list_all silent es \<and> accepted es = [] \<and> accept_calls es = 0 \<and>
        clients t = clients s @ new \<and> kv_store t = kv_store s \<and>
        (new = [] \<and> closed es = [fd] \<or>
         (\<exists>c. new = [(fd, c)] \<and> closed es = [] \<and> pending_in c = [] \<and> pending_out c = [])))"

lemma list_all_fcntl:
  "list_all (is_fcntl fd) es \<Longrightarrow>
    list_all silent es \<and> accepted es = [] \<and> closed es = [] \<and> accept_calls es = 0"
proof (induction es)
  case (Cons e es)
  then show ?case by (cases e) simp_all
qed simp

lemma admit_client_effect:
  assumes none: "map_of (clients s) fd = None" and fd: "fd \<noteq> -1"
    and run: "admit_client K fd s = Some (Continue t)"
  shows "admitted_or_closed fd s t"
  using run fd none
proof (cases rule: admit_client_cases)
  case full
  then show ?thesis by (simp add: admitted_or_closed_def)
next
  case mode
  then show ?thesis by (simp add: admitted_or_closed_def list_all_fcntl)
next
  case refused
  then show ?thesis by (simp add: admitted_or_closed_def list_all_fcntl)
next
  case added
  then show ?thesis by (simp add: admitted_or_closed_def list_all_fcntl new_connection)
qed

text \<open>Accepting a client executes nothing; the new connection starts empty.\<close>

lemma accounts_admit:
  assumes none: "map_of (clients s) fd = None"
    and adm: "admitted_or_closed fd (s\<lparr>trace := trace s @ [Accept lfd (Inr fd)]\<rparr>) t"
  shows "accounts [] s t"
proof -
  let ?n = "next_id (streams_of (trace s))"
  obtain es new where t: "trace t = trace s @ Accept lfd (Inr fd) # es" "list_all silent es"
    "clients t = clients s @ new" "kv_store t = kv_store s" and
    new: "new = [] \<or> (\<exists>c. new = [(fd, c)] \<and> pending_in c = [] \<and> pending_out c = [])"
    using adm by (auto simp: admitted_or_closed_def)
  have str: "conn_of (trace t) = (conn_of (trace s))(fd \<mapsto> ?n)" "rx_of (trace t) = rx_of (trace s)"
    "tx_of (trace t) = tx_of (trace s)"
    by (simp_all add: t(1) streams_silent [OF t(2)] streams_defs)
  have fresh: "rx_of (trace s) ?n = []" "tx_of (trace s) ?n = []"
    using streams_of_wf [of "trace s"] by (simp_all add: streams_wf_def streams_defs)
  have "serialized log t" if ser: "serialized log s" for log
  proof -
    have same: "accounted log (trace t) i c = accounted log (trace s) i c"
      "settled log (trace t) i = settled log (trace s) i" for i c
      by (simp_all only: accounted_def settled_def str(2,3))
    have "settled log (trace s) ?n" using ser by (simp add: serialized_def)
    then have "frames_of ?n log = []"
      using fresh(1) by (cases "frames_of ?n log") (auto simp: settled_def)
    then have own: "accounted log (trace s) ?n c" if "pending_in c = []" "pending_out c = []" for c
      using that fresh by (simp add: accounted_def replies_none)
    have "\<exists>i. conn_of (trace t) fd' = Some i \<and> accounted log (trace t) i c'"
      if c': "map_of (clients t) fd' = Some c'" for fd' c'
    proof (cases "fd' = fd")
      case True
      then have "pending_in c' = []" "pending_out c' = []"
        using c' none new by (auto simp: t(3) map_add_def split: if_splits)
      with own True show ?thesis by (simp add: str(1) same)
    next
      case False
      then have "map_of (clients s) fd' = Some c'"
        using c' new by (auto simp: t(3) map_add_def split: option.splits)
      with ser False show ?thesis
        unfolding serialized_def str(1) same by simp
    qed
    with ser t(4) show ?thesis
      by (simp add: serialized_def same)
  qed
  with t(1) show ?thesis by (simp add: accounts_def)
qed

text \<open>
  A run of the accept loop: at most one \<open>accept\<close> per attempt, and every accepted
  descriptor is a new entry or closed, once.
\<close>

definition admissions :: "nat \<Rightarrow> server \<Rightarrow> server \<Rightarrow> bool" where
  "admissions n s t \<longleftrightarrow>
     (\<exists>es new. trace t = trace s @ es \<and> clients t = clients s @ new \<and> kv_store t = kv_store s \<and>
        accept_calls es = n \<and> mset (accepted es) = mset (map fst new) + mset (closed es))"

lemma admissions_quiet:
  "accepted es = [] \<Longrightarrow> closed es = [] \<Longrightarrow> accept_calls es = n \<Longrightarrow>
   admissions n s (s\<lparr>trace := trace s @ es\<rparr>)"
  by (simp add: admissions_def)

lemma admissions_trans:
  assumes "admissions m s t" and "admissions n t u"
  shows "admissions (m + n) s u"
proof -
  obtain es new where a: "trace t = trace s @ es" "clients t = clients s @ new" "kv_store t = kv_store s"
    "accept_calls es = m" "mset (accepted es) = mset (map fst new) + mset (closed es)"
    using assms(1) by (auto simp: admissions_def)
  obtain fs new' where b: "trace u = trace t @ fs" "clients u = clients t @ new'" "kv_store u = kv_store t"
    "accept_calls fs = n" "mset (accepted fs) = mset (map fst new') + mset (closed fs)"
    using assms(2) by (auto simp: admissions_def)
  show ?thesis
    unfolding admissions_def
    using a b by (intro exI [of _ "es @ fs"] exI [of _ "new @ new'"]) simp
qed

text \<open>Why the loop stopped: the budget is spent, the queue is empty, or a fatal error.\<close>

definition accept_done :: "nat \<Rightarrow> nat \<Rightarrow> fd \<Rightarrow> outcome \<Rightarrow> bool" where
  "accept_done m n lfd o' \<longleftrightarrow> m \<le> n \<and>
     (m = n \<or> (\<exists>h. trace (outcome_server o') = h @ [Accept lfd (Inl EAGAIN)]) \<or> (\<exists>code t. o' = Return code t))"

lemma accept_done_Suc: "accept_done m n lfd o' \<Longrightarrow> accept_done (Suc m) (Suc n) lfd o'"
  by (auto simp: accept_done_def)

lemma accept_loop_effect:
  assumes "server_inv s" and K: "kernel_laws K" and "accept_loop K n s = Some o'"
  shows "accounts [] s (outcome_server o') \<and>
    (\<exists>m. admissions m s (outcome_server o') \<and> accept_done m n (fd_ref (listener s)) o')"
  using assms(1,3)
proof (induction n arbitrary: s)
  case 0
  then show ?case by (auto simp: admissions_def accept_done_def)
next
  case (Suc n)
  let ?l = "fd_ref (listener s)"
  have quiet: "server_inv (s\<lparr>trace := trace s @ es\<rparr>)" "admissions 1 s (s\<lparr>trace := trace s @ es\<rparr>)"
    "accounts [] s (s\<lparr>trace := trace s @ es\<rparr>)"
    if "es \<in> {[Accept ?l (Inl e)], [Accept ?l (Inl e), Report ''accept'' e]}" for es e
    using that Suc.prems(1)
    by (auto intro!: server_inv_quiet admissions_quiet accounts_note simp: grows_def)
  have once: "accounts [] s (outcome_server o') \<and>
      (\<exists>m. admissions m s (outcome_server o') \<and> accept_done m (Suc n) ?l o')"
    if stop: "accept_done k (Suc n) ?l o'" and k: "k = 1"
      and es: "es \<in> {[Accept ?l (Inl e)], [Accept ?l (Inl e), Report ''accept'' e]}"
      and t: "outcome_server o' = s\<lparr>trace := trace s @ es\<rparr>" for es e k
    by (intro conjI exI [of _ k]) (fact quiet(3) [OF es, folded t], fact quiet(2) [OF es, folded t k], fact stop)
  have more: "accounts [] s (outcome_server o') \<and>
      (\<exists>m. admissions m s (outcome_server o') \<and> accept_done m (Suc n) ?l o')"
    if one: "accounts [] s t" "admissions 1 s t" and t: "server_inv t" "listener t = listener s"
      and run: "accept_loop K n t = Some o'" for t
  proof -
    obtain m where m: "accounts [] t (outcome_server o')" "admissions m t (outcome_server o')"
      "accept_done m n ?l o'"
      using Suc.IH [OF t(1) run] unfolding t(2) by blast
    from accounts_trans [OF one(1) m(1)] admissions_trans [OF one(2) m(2)] accept_done_Suc [OF m(3)]
    show ?thesis by auto
  qed
  from Suc.prems(2) show ?case
  proof (cases rule: accept_loop_cases)
    case (again e es)
    show ?thesis
      by (rule more [OF quiet(3,2,1) _ again(2)]) (use again(1) in simp_all)
  next
    case drained
    have "accept_done 1 (Suc n) ?l o'"
      using drained by (simp add: accept_done_def)
    then show ?thesis
      by (rule once [where es = "[Accept ?l (Inl EAGAIN)]" and e = EAGAIN]) (simp_all add: drained)
  next
    case (fatal e)
    have "accept_done 1 (Suc n) ?l o'"
      using fatal(2) by (simp add: accept_done_def)
    then show ?thesis
      by (rule once [where es = "[Accept ?l (Inl e), Report ''accept'' e]" and e = e]) (simp_all add: fatal(2))
  next
    case (client fd o1)
    let ?s1 = "s\<lparr>trace := trace s @ [Accept ?l (Inr fd)]\<rparr>"
    have s: "consistent {} {} s" "length (clients s) \<le> kMaxClients" and "fresh_fds K"
      using Suc.prems(1) K by (simp_all add: server_inv_def kernel_laws_def)
    note new = accept_fresh [OF s(1) this(3), of ?l fd, simplified sys_accept_def Let_def client(1), OF refl]
    obtain t where t: "o1 = Continue t" "server_inv t" "listener t = listener s"
      using admit_client_inv [OF new(1) _ new(2) client(2)] s(2) by auto
    have none: "map_of (clients s) fd = None"
      using new(3) keys_map_of [of fd s] by (simp add: owned_def)
    have eff: "admitted_or_closed fd ?s1 t"
      using admit_client_effect [of ?s1 fd K t] none new(2) client(2) t(1) by simp
    have "admissions 1 s t"
      using eff unfolding admitted_or_closed_def admissions_def by force
    from more [OF accounts_admit [OF none eff] this t(2,3)] client(3) t(1) show ?thesis by simp
  qed
qed

subsection \<open>The loop\<close>

definition dispatch_log :: "kernel \<Rightarrow> ready_event \<Rightarrow> server \<Rightarrow> log" where
  "dispatch_log K ev s =
     (if ready_fd ev = ufd_get (listener s) then []
      else case map_of (clients s) (ready_fd ev) of
             None \<Rightarrow> []
           | Some c \<Rightarrow> service_log K (ready_fd ev) c ev s)"

text \<open>The frames an iteration executes, in order: those of the sweep, then of the event.\<close>

definition iteration_log :: "kernel \<Rightarrow> fd list \<Rightarrow> server \<Rightarrow> log" where
  "iteration_log K order s =
     (let (s1, runnable_remains) = sweep K order s False;
          (waited, h1) = wait_one K (poller s1) (if runnable_remains then 0 else kTimerPollMs) (trace s1)
      in sweep_log K order s @
           (case waited of
              Inr (Some ev) \<Rightarrow> dispatch_log K ev (s1\<lparr>trace := h1\<rparr>)
            | _ \<Rightarrow> []))"

lemma accounts_dispatch:
  assumes inv: "server_inv s" and K: "kernel_laws K" and run: "dispatch_event K ev s = Some o'"
  shows "accounts (dispatch_log K ev s) s (outcome_server o')"
proof -
  have KK: "recv_bounded K" "send_bounded K" and c: "consistent {} {} s"
    using K inv by (simp_all add: kernel_laws_def server_inv_def)
  have note_ok: "accounts [] s (s\<lparr>trace := trace s @ [Stderr msg]\<rparr>)" for msg
    by (rule accounts_note) simp
  from run show ?thesis
  proof (cases rule: dispatch_event_cases)
    case (client cl)
    with accounts_service [OF c client(2) KK, of ev] show ?thesis
      by (simp add: dispatch_log_def ufd_get_def)
  next
    case unknown
    with note_ok show ?thesis by (simp add: dispatch_log_def)
  next
    case listener_error
    with note_ok show ?thesis by (simp add: dispatch_log_def ufd_get_def)
  next
    case accept
    with accept_loop_effect [OF inv K accept(2)] show ?thesis
      by (simp add: dispatch_log_def ufd_get_def)
  qed
qed

lemma accounts_iteration:
  assumes inv: "server_inv s" and K: "kernel_laws K"
    and run: "event_loop_iteration K order s = Some o'"
  shows "\<exists>later. iteration_log K order s = sweep_log K order s @ later \<and>
    accounts (sweep_log K order s) s (fst (sweep K order s False)) \<and>
    accounts later (fst (sweep K order s False)) (outcome_server o')"
proof -
  have KK: "recv_bounded K" "send_bounded K" and c: "consistent {} {} s"
    using K inv by (simp_all add: kernel_laws_def server_inv_def)
  note sw = accounts_sweep [OF c KK, of order False]
  have quiet: "accounts [] s1 (s1\<lparr>trace := trace s1 @ es\<rparr>)" if "list_all silent es" for s1 es
    using that by (rule accounts_note)
  from run show ?thesis
  proof (cases rule: event_loop_iteration_cases)
    case (failed s1 r e)
    with sw quiet [of "[Epoll_Wait (ep_of s1) (wait_ms r) (Inl e), Report ''poller wait'' e]" s1]
    show ?thesis
      by (simp add: iteration_log_def wait_ms_def wait_one_def sys_eqs ufd_get_def)
  next
    case (idle s1 r a)
    have "iteration_log K order s = sweep_log K order s"
      using idle(1-3)
      by (cases a) (auto simp: iteration_log_def wait_ms_def wait_one_def sys_eqs ufd_get_def
          split: option.split)
    with idle sw quiet [of "[Epoll_Wait (ep_of s1) (wait_ms r) a]" s1] show ?thesis by simp
  next
    case (event s1 r ev)
    let ?s2 = "s1\<lparr>trace := trace s1 @ [Epoll_Wait (ep_of s1) (wait_ms r) (Inr (Some ev))]\<rparr>"
    have "server_inv s1"
      using sweep_server_inv [OF inv K, of order False] event(1) by simp
    then have "server_inv ?s2"
      by (rule server_inv_quiet) (simp add: grows_def)
    from accounts_trans [OF quiet accounts_dispatch [OF this K event(3)]]
    have "accounts (dispatch_log K (decode_event ev) ?s2) s1 (outcome_server o')" by simp
    moreover have "iteration_log K order s = sweep_log K order s @ dispatch_log K (decode_event ev) ?s2"
      using event(1,2) by (simp add: iteration_log_def wait_ms_def wait_one_def sys_eqs ufd_get_def)
    ultimately show ?thesis using sw event(1) by simp
  qed
qed

text \<open>The states of a run with the log of everything executed so far.\<close>

inductive logged :: "kernel \<Rightarrow> server \<Rightarrow> log \<Rightarrow> bool" for K where
  logged_start: "main_setup K [] = Some (Inr s) \<Longrightarrow> logged K s []"
| logged_step: "logged K s log \<Longrightarrow> distinct order \<Longrightarrow> set order = fst ` set (clients s) \<Longrightarrow>
     event_loop_iteration K order s = Some (Continue t) \<Longrightarrow>
     logged K t (log @ iteration_log K order s)"

lemma reachable_iff_logged: "reachable K s \<longleftrightarrow> (\<exists>log. logged K s log)"
proof
  assume "reachable K s"
  then show "\<exists>log. logged K s log"
  proof induction
    case (start s)
    then show ?case by (blast intro: logged_start)
  next
    case (step s t)
    obtain log where "logged K s log" using step.IH by blast
    with step.hyps(2) show ?case by (auto elim!: loop_stepE intro: logged_step)
  qed
next
  assume "\<exists>log. logged K s log"
  then obtain log where "logged K s log" by blast
  then show "reachable K s"
  proof induction
    case (logged_start s)
    then show ?case by (rule reachable.start)
  next
    case (logged_step s log order t)
    from reachable.step [OF logged_step.IH loop_step.iterate [OF logged_step.hyps(2-4)]] show ?case .
  qed
qed

lemma logged_inv: "logged K s log \<Longrightarrow> kernel_laws K \<Longrightarrow> server_inv s"
  using reachable_iff_logged reachable_inv by blast

lemma quiet_accepted: "is_quiet e \<Longrightarrow> accepted1 e = []"
  by (cases e rule: accepted1.cases) (auto simp: is_quiet_def)

lemma logged_serialized:
  assumes "logged K s log" and K: "kernel_laws K"
  shows "serialized log s"
  using assms(1)
proof induction
  case (logged_start s)
  then have started: "started K [] s"
    using main_setup_cases [OF logged_start] K by (simp add: kernel_laws_def)
  then obtain fd h5 es where s: "clients s = []" "kv_store s = empty_store"
    "trace s = h5 @ es" "grows is_quiet [Socket 2 1 0 (Inr fd)] h5" "accepted es = []"
    by (auto simp: started_def)
  have "accepted h5 = []"
    using grows_accepted [OF grows_mono [OF s(4) quiet_accepted]] by simp
  then have "accepted (trace s) = []" using s(3,5) by simp
  from streams_none [OF this] s(1,2) show ?case
    by (simp add: serialized_def settled_def)
next
  case (logged_step s log order t)
  have "server_inv s" using logged_inv [OF logged_step(1) K] .
  from accounts_iteration [OF this K logged_step(4)] logged_step.IH show ?case
    by (auto simp: accounts_def)
qed

subsection \<open>The log of the demonstration run\<close>

lemma demo_conn: "conn_of (demo_setup_calls @ demo_accept_calls @ h) 5 = conn_of (demo_setup_calls @ demo_accept_calls) 5"
  "conn_of (demo_setup_calls @ demo_accept_calls) 5 = Some 0" if "list_all silent h"
proof -
  show "conn_of (demo_setup_calls @ demo_accept_calls @ h) 5 = conn_of (demo_setup_calls @ demo_accept_calls) 5"
    using that by (simp add: conn_of_def streams_silent)
  show "conn_of (demo_setup_calls @ demo_accept_calls) 5 = Some 0"
    by (simp add: conn_of_def streams_of_def demo_setup_calls_def demo_accept_calls_def)
qed

lemma demo_executed:
  "executed demo_kernel \<lparr>descriptor = \<lparr>fd_ref = 4\<rparr>\<rparr> demo_client (decode_event (read_event 5)) empty_store
     (demo_setup_calls @ demo_accept_calls @ [Now 0, Epoll_Wait 4 1000 (Inr (Some (read_event 5)))]) =
   [''SET a 1'', ''GET a'']"
proof -
  have "rx 5 (trace demo_served) = demo_commands"
    by (simp add: demo_served_def demo_observed demo_service_calls_def)
  moreover have "ufd_get (socket demo_client) = 5" "pending_in demo_client = []" "frames_in demo_client = []"
    by (simp_all add: demo_client_def ufd_get_def pending_in_def frames_in_def)
  moreover have "fst (split_lines demo_commands) = [''SET a 1'', ''GET a'']"
    by (simp add: demo_commands_def)
  ultimately show ?thesis
    by (simp add: executed_def demo_service_client demo_observed)
qed

lemma demo_log:
  "iteration_log demo_kernel [] demo_start = []"
  "iteration_log demo_kernel [5] demo_admitted = [(0, ''SET a 1''), (0, ''GET a'')]"
proof -
  show "iteration_log demo_kernel [] demo_start = []"
    by code_simp
  let ?h = "demo_setup_calls @ demo_accept_calls @ [Now 0, Epoll_Wait 4 1000 (Inr (Some (read_event 5)))]"
  have wait: "wait_one demo_kernel \<lparr>descriptor = \<lparr>fd_ref = 4\<rparr>\<rparr> 1000
      (demo_setup_calls @ demo_accept_calls @ [Now 0]) =
      (Inr (Some (decode_event (read_event 5))), ?h)"
    by (simp add: demo_observed wait_one_def sys_eqs ufd_get_def demo_kernel_def quiet_kernel_def read_event_def)
  have p: "poller demo_admitted = \<lparr>descriptor = \<lparr>fd_ref = 4\<rparr>\<rparr>" "listener demo_admitted = \<lparr>fd_ref = 3\<rparr>"
    "clients demo_admitted = [(5, demo_client)]" "kv_store demo_admitted = empty_store"
    by (simp_all add: demo_admitted_def demo_start_def)
  have "conn_of ?h 5 = Some 0"
    using demo_conn [of "[Now 0, Epoll_Wait 4 1000 (Inr (Some (read_event 5)))]"] by simp
  moreover have "ready_fd (decode_event (read_event 5)) = 5"
    by (simp add: decode_event_def read_event_def)
  ultimately have "dispatch_log demo_kernel (decode_event (read_event 5)) (demo_admitted\<lparr>trace := ?h\<rparr>) =
      [(0, ''SET a 1''), (0, ''GET a'')]"
    by (simp add: dispatch_log_def service_log_def p ufd_get_def demo_executed del: append_assoc)
  moreover have "\<not> has_runnable_input demo_client"
    by (simp add: demo_client_def connection_run_defs)
  then have "visit_log demo_kernel 5 demo_admitted = []"
    by (simp add: visit_log_def p sys_eqs)
  ultimately show "iteration_log demo_kernel [5] demo_admitted = [(0, ''SET a 1''), (0, ''GET a'')]"
    using wait by (simp add: iteration_log_def demo_visit p kTimerPollMs_def)
qed

lemma demo_logged: "logged demo_kernel demo_served [(0, ''SET a 1''), (0, ''GET a'')]"
proof -
  have "logged demo_kernel demo_admitted ([] @ iteration_log demo_kernel [] demo_start)"
    by (rule logged_step [OF logged_start [OF demo_setup_run] _ _ demo_admit_run])
       (simp_all add: demo_start_def)
  then have "logged demo_kernel demo_admitted []" by (simp add: demo_log)
  then have "logged demo_kernel demo_served ([] @ iteration_log demo_kernel [5] demo_admitted)"
    by (rule logged_step [OF _ _ _ demo_service_run]) (simp_all add: demo_admitted_def)
  then show ?thesis by (simp add: demo_log)
qed

subsection \<open>Properties\<close>

text \<open>
  Property C1. Serializability. Every reachable state comes with the log of its
  run (\<open>logged\<close>, \<open>reachable_iff_logged\<close>): the frames its visits executed, in order,
  with the connections they came from. The shared store is the result of
  executing exactly that log in order from the empty store. On every connection
  ever accepted, also the retired ones, the bytes received are its logged frames
  followed by a rest, and the bytes sent a prefix of the replies to its logged
  frames at their places in the log. On a connected client the rest is the pending
  input (only an unfinished line at the end of the stream is dropped), and the
  bytes sent together with the pending output are exactly those replies. No frame
  is lost, executed twice, invented, reordered within its connection or answered
  to another client, and no effect of a retired client is undone.
\<close>

theorem runs_are_serializable:
  assumes "logged K s log" and "kernel_laws K"
  shows "kv_store s = replay log \<and>
    (\<forall>i. (\<exists>rest. rx_of (trace s) i = join_lines (frames_of i log) @ rest) \<and>
       (\<forall>f\<in>set (frames_of i log). NL \<notin> set f) \<and> prefix (tx_of (trace s) i) (replies_of i log)) \<and>
    (\<forall>fd c. map_of (clients s) fd = Some c \<longrightarrow>
       (\<exists>i rest. conn_of (trace s) fd = Some i \<and>
          rx_of (trace s) i = join_lines (frames_of i log) @ rest \<and>
          (pending_in c = rest \<or> read_eof c \<and> NL \<notin> set rest \<and> pending_in c = []) \<and>
          tx_of (trace s) i @ pending_out c = replies_of i log))"
  using logged_serialized [OF assms] unfolding serialized_def settled_def accounted_def by blast

theorem runs_are_serializable_witness:
  "\<lparr>data_ref = [(''a'', ''1'')]\<rparr> = replay [(0, ''SET a 1''), (0, ''GET a'')] \<and>
   (\<exists>i. conn_of (trace demo_served) 5 = Some i \<and>
      tx_of (trace demo_served) i @ pending_out demo_client = replies_of i [(0, ''SET a 1''), (0, ''GET a'')])"
proof -
  have c: "map_of (clients demo_served) 5 = Some demo_client"
    "kv_store demo_served = \<lparr>data_ref = [(''a'', ''1'')]\<rparr>"
    by (simp_all add: demo_served_def demo_admitted_def)
  from runs_are_serializable [OF demo_logged demo_laws] c show ?thesis by metis
qed




end
