(* ===== verification/Returns.thy ===== *)
theory Returns
  imports Server
begin

text \<open>
  Termination of the server's handlers (\<open>apps/server.cpp\<close>): every loop of an
  iteration has a budget, so the only calls that can fail to return are the retry
  loops of \<open>set_nonblocking\<close>, and they return when the kernel stops interrupting
  \<open>fcntl\<close>.
\<close>

lemma admit_client_total:
  assumes "\<forall>fd. fcntl_settles K fd"
  shows "\<exists>o'. admit_client K fd s = Some o'"
proof -
  obtain r h1 where "set_nonblocking K (ufd_get (UniqueFd fd)) (trace s) = Some (r, h1)"
    using assms set_nonblocking_total by blast
  then show ?thesis
    by (cases r) (auto simp: admit_client_def Let_def case_prod_beta split: sum.split)
qed

lemma accept_loop_total:
  assumes "\<forall>fd. fcntl_settles K fd"
  shows "\<exists>o'. accept_loop K n s = Some o'"
proof (induction n arbitrary: s)
  case (Suc n)
  let ?a = "sys_accept K (ufd_get (listener s)) (trace s)"
  show ?case
  proof (cases "fst ?a")
    case (Inl e)
    with Suc.IH show ?thesis by (simp add: case_prod_beta Let_def)
  next
    case (Inr fd)
    obtain r where r: "admit_client K fd (s\<lparr>trace := snd ?a\<rparr>) = Some r"
      using admit_client_total [OF assms] by blast
    with Inr Suc.IH show ?thesis
      by (cases r) (simp_all add: case_prod_beta Let_def)
  qed
qed simp

lemma event_loop_iteration_total:
  assumes "\<forall>fd. fcntl_settles K fd"
  shows "\<exists>o'. event_loop_iteration K order s = Some o'"
  using accept_loop_total [OF assms]
  by (auto simp: event_loop_iteration_def dispatch_event_def case_prod_beta Let_def
      split: sum.split option.split)

lemma main_setup_total:
  assumes "\<forall>fd. fcntl_settles K fd"
  shows "\<exists>r. main_setup K h = Some r"
proof -
  have settled: "(set_nonblocking K fd h' = None) = False" for fd h'
    using set_nonblocking_total [of K fd h'] assms by auto
  show ?thesis
    unfolding main_setup_def Let_def
    by (auto simp: settled split: sum.split prod.split option.split)
qed

text \<open>
  Property C15. Every iteration of the event loop returns: whatever the kernel
  answers, as long as \<open>fcntl\<close> is not interrupted forever, start-up comes to a
  result, and so does each iteration from any state, in any sweep order.
\<close>

theorem iteration_returns:
  assumes "\<forall>fd. fcntl_settles K fd"
  shows "(\<exists>r. main_setup K h = Some r) \<and> (\<exists>o'. event_loop_iteration K order s = Some o')"
  using main_setup_total [OF assms] event_loop_iteration_total [OF assms] by blast

lemma quiet_settles: "\<forall>fd. fcntl_settles quiet_kernel fd"
  by (auto simp: fcntl_settles_def sys_eqs quiet_kernel_def intro: exI [of _ 0])

theorem iteration_returns_witness:
  "\<exists>r. main_setup quiet_kernel [] = Some r"
  using iteration_returns [OF quiet_settles] by blast

end
