(* ===== verification/Progress.thy ===== *)
theory Progress
  imports Serialization Returns
begin

text \<open>
  What one whole iteration of the event loop (\<open>main\<close> of \<open>apps/server.cpp\<close>)
  guarantees: it polls or sleeps as the sweep's outcome demands, and it executes
  the next frame of every client that had runnable input, or retires that client.
\<close>

subsection \<open>The timeout of the wait\<close>

lemma sweep_runnable:
  assumes "server_inv s" and "kernel_laws K" and "distinct order" and "set order = fst ` set (clients s)"
    and sw: "sweep K order s False = (t, r)"
  shows "r \<longleftrightarrow> (\<exists>fd. runnable_at t fd)"
    and "\<not> r \<Longrightarrow> map_of (clients t) fd = Some c \<Longrightarrow>
      \<exists>m. interest (ep_of t) (trace t) fd = Some m \<and> m \<noteq> 0"
proof -
  have inv: "consistent {} {} t"
    using sweep_server_inv [OF assms(1,2), of order False] sw by (simp add: server_inv_def)
  have "map_of (clients t) fd = None" if "fd \<notin> set order" for fd
    using sweep_flag [OF sw assms(3)] that assms(4) by (simp add: map_of_eq_None_iff)
  then show flag: "r \<longleftrightarrow> (\<exists>fd. runnable_at t fd)"
    using sweep_flag [OF sw assms(3)] by (auto simp: runnable_at_def) fastforce
  show "\<exists>m. interest (ep_of t) (trace t) fd = Some m \<and> m \<noteq> 0"
    if "\<not> r" "map_of (clients t) fd = Some c"
  proof -
    have "\<not> has_runnable_input c" using that flag by (auto simp: runnable_at_def)
    then show ?thesis
      using consistent_client(2) [OF inv that(2)]
      by (auto simp: client_ok_def live_def wanted_def interest_mask_eq_0)
  qed
qed

lemma iteration_waits:
  assumes "server_inv s" and "kernel_laws K" and run: "event_loop_iteration K order s = Some o'"
    and sw: "sweep K order s False = (s1, r)"
  shows "\<exists>a es. trace (outcome_server o') = trace s1 @ Epoll_Wait (ep_of s1) (wait_ms r) a # es"
  using run
proof (cases rule: event_loop_iteration_cases)
  case (event s2 r' ev)
  let ?s2 = "s1\<lparr>trace := trace s1 @ [Epoll_Wait (ep_of s1) (wait_ms r) (Inr (Some ev))]\<rparr>"
  have "server_inv s1"
    using sweep_server_inv [OF assms(1,2), of order False] sw by simp
  then have "server_inv ?s2"
    by (rule server_inv_quiet) (simp add: grows_def)
  moreover have "dispatch_event K (decode_event ev) ?s2 = Some o'"
    using event sw by simp
  ultimately obtain evs where "trace (outcome_server o') = trace ?s2 @ evs"
    using accounts_dispatch [OF _ assms(2)] unfolding accounts_def by blast
  then show ?thesis by simp
qed (use sw in auto)

subsection \<open>The next frame\<close>

lemma visit_conn_of:
  assumes "grows (is_visit ep fd) h h'"
  shows "conn_of h' = conn_of h"
proof -
  obtain es where es: "h' = h @ es" "list_all (is_visit ep fd) es"
    using assms by (auto simp: grows_def)
  have "owner (stream1 \<sigma> e) = owner \<sigma>" if "is_visit ep fd e" for \<sigma> e
    using that by (cases "(\<sigma>, e)" rule: stream1.cases) (auto split: option.split)
  then have "owner (foldl stream1 \<sigma> es) = owner \<sigma>" for \<sigma>
    using es(2) by (induction es arbitrary: \<sigma>) auto
  then show ?thesis by (simp add: es(1) conn_of_def)
qed

text \<open>A visit that leaves fewer frames than there were has executed the first one.\<close>

lemma executed_first:
  assumes run: "service_client K p c ev st h = (reason, c', st', h')"
    and ex: "exchanged fd c st h c' st' h'" and fd: "ufd_get (socket c) = fd"
    and less: "length (frames_in c') < length (frames_in c)"
  shows "\<exists>fs. executed K p c ev st h = hd (frames_in c) # fs"
proof -
  let ?fs = "executed K p c ev st h"
  obtain rest d where d: "pending_in c @ d = join_lines ?fs @ rest" "\<forall>f\<in>set ?fs. NL \<notin> set f"
    "frames_in c' = fst (split_lines rest)"
    using executed_exchange [OF run ex fd] by blast
  have frames: "fst (split_lines (pending_in c @ d)) = ?fs @ frames_in c'"
    unfolding d(1,3) split_lines_append [of "join_lines ?fs"]
    using split_lines_join [OF d(2), of "[]"] by simp
  have more: "fst (split_lines (pending_in c @ d)) =
      frames_in c @ fst (split_lines (snd (split_lines (pending_in c)) @ d))"
    by (simp add: split_lines_append [of "pending_in c"] frames_in_def)
  have "?fs \<noteq> []"
    using less frames more by (cases ?fs) (auto dest: arg_cong [where f = length])
  moreover have "frames_in c \<noteq> []"
    using less by auto
  ultimately have "hd ?fs = hd (frames_in c)"
    using frames more by (metis hd_append2)
  with \<open>?fs \<noteq> []\<close> show ?thesis by (cases ?fs) auto
qed

text \<open>\<open>served_next fd i c es s t\<close>: the client is closed, or its next frame is its first in \<open>es\<close>.\<close>

definition served_next :: "fd \<Rightarrow> nat \<Rightarrow> Connection \<Rightarrow> log \<Rightarrow> server \<Rightarrow> server \<Rightarrow> bool" where
  "served_next fd i c es s t \<longleftrightarrow>
     (\<exists>evs. trace t = trace s @ evs \<and>
        (fd \<in> set (closed evs) \<or> (\<exists>fs. frames_of i es = hd (frames_in c) # fs)))"

lemma served_next_after:
  assumes "served_next fd i c es s t" and "\<exists>evs. trace u = trace t @ evs"
  shows "served_next fd i c (es @ es') s u"
proof -
  obtain evs where evs: "trace t = trace s @ evs"
    "fd \<in> set (closed evs) \<or> (\<exists>fs. frames_of i es = hd (frames_in c) # fs)"
    using assms(1) unfolding served_next_def by blast
  obtain evs' where "trace u = trace t @ evs'" using assms(2) by blast
  with evs show ?thesis
    unfolding served_next_def by (intro exI [of _ "evs @ evs'"]) auto
qed

lemma visit_serves:
  assumes inv: "consistent {} E s" and K: "recv_bounded K" "send_bounded K"
    and c: "map_of (clients s) fd = Some c" "has_runnable_input c" and i: "conn_of (trace s) fd = Some i"
  shows "served_next fd i c (visit_log K fd s) s (fst (visit_client K fd s))"
proof -
  let ?s0 = "s\<lparr>trace := snd (sys_now K (trace s))\<rparr>" and ?t = "fst (visit_client K fd s)"
  have inv0: "consistent {} E ?s0" by (rule now_inv [OF inv])
  have c0: "map_of (clients ?s0) fd = Some c" using c by simp
  from c(1) show ?thesis
  proof (cases rule: visit_client_cases [where K = K])
    case idle
    have "consistent {fd} E ?s0" using inv0 by (auto simp: consistent_def)
    moreover have "fd \<in> set (keys ?s0)" using c0 keys_map_of by blast
    ultimately obtain es where "trace ?t = trace ?s0 @ es @ [Close fd]"
      unfolding idle(2) using consistent_retire(3) by blast
    then show ?thesis
      unfolding served_next_def
      by (intro exI [of _ "Now (k_now K (trace s)) # es @ [Close fd]"]) (simp add: sys_eqs)
  next
    case serve
    obtain es where es: "trace ?t = trace ?s0 @ es"
      using service_entry_inv(3) [OF inv0 c0 K, of no_event] by (auto simp: serve(3) grows_def)
    obtain reason c1 h1 where v:
      "service_client K (poller ?s0) c no_event (kv_store ?s0) (trace ?s0) = (reason, c1, kv_store ?t, h1)"
      "visited (poller ?s0) fd c (kv_store ?s0) (trace ?s0) (reason, c1, kv_store ?t, h1)"
      "if reason = None then trace ?t = h1
       else \<exists>es. trace ?t = h1 @ es @ [Close fd] \<and> quiet_exit (ep_of ?s0) fd es"
      using service_entry_inv(4) [OF inv0 c0 K, of no_event] unfolding served_entry_def serve(3) by blast
    show ?thesis
    proof (cases reason)
      case None
      have "pressure_ok c"
        using consistent_client(2) [OF inv c(1)] by (simp add: client_ok_def)
      then have "length (frames_in c1) < length (frames_in c)"
        and ex: "exchanged fd c (kv_store ?s0) (trace ?s0) c1 (kv_store ?t) h1"
        using v(2) None c(2) by (auto simp: visited_def)
      with executed_first [OF v(1) ex] consistent_client(1) [OF inv c(1)]
      obtain fs where "executed K (poller ?s0) c no_event (kv_store ?s0) (trace ?s0) = hd (frames_in c) # fs"
        by (auto simp: ufd_get_def)
      moreover have "conn_of (trace ?s0) fd = Some i"
        using i by (simp add: sys_eqs conn_of_def)
      ultimately have "frames_of i (visit_log K fd s) = hd (frames_in c) # fs"
        using c serve(2) by (simp add: visit_log_def service_log_def sys_now_def Let_def frames_of_def o_def)
      with es show ?thesis
        unfolding served_next_def by (auto simp: sys_eqs)
    next
      case (Some r)
      obtain gs where gs: "trace ?t = h1 @ gs @ [Close fd]" using v(3) Some by auto
      obtain fs where "h1 = trace ?s0 @ fs"
        using v(2) by (auto simp: visited_def grows_def)
      with gs show ?thesis
        unfolding served_next_def
        by (intro exI [of _ "Now (k_now K (trace s)) # fs @ gs @ [Close fd]"]) (simp add: sys_eqs)
    qed
  next
    case skip
    with c(2) show ?thesis by simp
  qed
qed

lemma visit_log_other:
  assumes "fd' \<noteq> fd" and "conn_of (trace s) fd = Some i"
  shows "frames_of i (visit_log K fd' s) = []"
proof (cases "conn_of (trace s) fd'")
  case (Some j)
  then have "j \<noteq> i" using assms conn_of_inj by blast
  with Some show ?thesis
    by (auto simp: visit_log_def service_log_def sys_now_def Let_def conn_of_def silent_simps [unfolded silent_def]
        split: option.split)
qed (auto simp: visit_log_def service_log_def sys_now_def Let_def conn_of_def
       silent_simps [unfolded silent_def] split: option.split)

lemma sweep_serves:
  assumes "consistent {} E s" and K: "recv_bounded K" "send_bounded K"
    and "map_of (clients s) fd = Some c" and run: "has_runnable_input c" and "conn_of (trace s) fd = Some i"
    and "fd \<in> set fds"
  shows "served_next fd i c (sweep_log K fds s) s (fst (sweep K fds s r))"
  using assms(1,4,6,7)
proof (induction fds arbitrary: s r)
  case (Cons fd' fds)
  let ?s1 = "fst (visit_client K fd' s)"
  let ?t = "fst (sweep K fds ?s1 (r \<or> snd (visit_client K fd' s)))"
  note v = visit_client_inv [OF Cons.prems(1) K, of fd']
  have t: "fst (sweep K (fd' # fds) s r) = ?t" by (simp add: case_prod_beta)
  have "accounts (sweep_log K fds ?s1) ?s1 ?t"
    by (rule accounts_sweep [OF v(1) K])
  then have later: "\<exists>evs. trace ?t = trace ?s1 @ evs" by (simp add: accounts_def)
  show ?case
  proof (cases "fd' = fd")
    case True
    with visit_serves [OF Cons.prems(1) K Cons.prems(2) run Cons.prems(3)]
    have "served_next fd i c (visit_log K fd' s) s ?s1" by simp
    from served_next_after [OF this later] show ?thesis unfolding t by simp
  next
    case False
    have "map_of (clients ?s1) fd = Some c" "conn_of (trace ?s1) fd = Some i"
      using Cons.prems(2,3) False visit_conn_of [OF v(3)] by (simp_all add: visit_client_frame)
    with Cons.IH [OF v(1)] Cons.prems(4) False
    have "served_next fd i c (sweep_log K fds ?s1) ?s1 ?t" by simp
    moreover obtain evs where "trace ?s1 = trace s @ evs" using v(3) by (auto simp: grows_def)
    ultimately show ?thesis
      using visit_log_other [OF False Cons.prems(3)] unfolding t served_next_def by fastforce
  qed
qed simp

lemma iteration_serves:
  assumes inv: "server_inv s" and K: "kernel_laws K" and ser: "serialized log s"
    and run: "event_loop_iteration K order s = Some o'" and order: "set order = fst ` set (clients s)"
    and c: "map_of (clients s) fd = Some c" "has_runnable_input c"
  shows "\<exists>i. conn_of (trace s) fd = Some i \<and>
    served_next fd i c (iteration_log K order s) s (outcome_server o')"
proof -
  have KK: "recv_bounded K" "send_bounded K" and s: "consistent {} {} s"
    using K inv by (simp_all add: kernel_laws_def server_inv_def)
  obtain i where i: "conn_of (trace s) fd = Some i"
    using ser c(1) unfolding serialized_def by blast
  have "fd \<in> set order" using order map_of_SomeD [OF c(1)] by force
  from sweep_serves [OF s KK c i this]
  have "served_next fd i c (sweep_log K order s) s (fst (sweep K order s False))" .
  moreover obtain later where "iteration_log K order s = sweep_log K order s @ later"
    "accounts later (fst (sweep K order s False)) (outcome_server o')"
    using accounts_iteration [OF inv K run] by blast
  ultimately show ?thesis
    using i served_next_after unfolding accounts_def by metis
qed

subsection \<open>Properties\<close>

text \<open>
  Property C6. No lost wake-up: the first thing an iteration does after its sweep
  is to wait for an event, with a zero timeout exactly when some client still has
  runnable input, and with a timeout of one second otherwise; and when it does
  sleep, every client has a non-empty interest registered.
\<close>

theorem no_lost_wakeup:
  assumes "reachable K s" and "kernel_laws K"
    and "distinct order" and "set order = fst ` set (clients s)"
    and "event_loop_iteration K order s = Some o'"
  shows "let t = fst (sweep K order s False); ep = ufd_get (descriptor (poller t));
       busy = (\<exists>fd c. map_of (clients t) fd = Some c \<and> has_runnable_input c) in
     (\<exists>answer es. trace (outcome_server o') =
        trace t @ Epoll_Wait ep (if busy then 0 else 1000) answer # es) \<and>
     (\<not> busy \<longrightarrow> (\<forall>fd c. map_of (clients t) fd = Some c \<longrightarrow>
        (\<exists>m. interest ep (trace t) fd = Some m \<and> m \<noteq> 0)))"
proof -
  obtain t r where sw: "sweep K order s False = (t, r)" by (metis prod.exhaust)
  have inv: "server_inv s" by (rule reachable_inv [OF assms(1,2)])
  note run = sweep_runnable [OF inv assms(2-4) sw]
  have busy: "(\<exists>fd c. map_of (clients t) fd = Some c \<and> has_runnable_input c) = r"
    using run(1) by (simp add: runnable_at_def)
  have wait: "(if r then 0 else 1000) = wait_ms r" by (simp add: wait_ms_def kTimerPollMs_def)
  show ?thesis
    unfolding sw fst_conv Let_def ufd_get_def busy wait
    using iteration_waits [OF inv assms(2,5) sw] run(2) by blast
qed

theorem no_lost_wakeup_witness:
  "\<exists>answer es. trace demo_served =
     (demo_setup_calls @ demo_accept_calls @ [Now 0]) @ Epoll_Wait 4 1000 answer # es"
proof -
  let ?t = "demo_admitted\<lparr>trace := demo_setup_calls @ demo_accept_calls @ [Now 0]\<rparr>"
  have sw: "fst (sweep demo_kernel [5] demo_admitted False) = ?t"
    by (simp add: demo_visit)
  have t: "clients ?t = [(5, demo_client)]" "ufd_get (descriptor (poller ?t)) = 4" "\<not> has_runnable_input demo_client"
    by (simp_all add: demo_admitted_def demo_start_def ufd_get_def demo_client_def connection_run_defs)
  have "set [5] = fst ` set (clients demo_admitted)" by (simp add: demo_admitted_def)
  from no_lost_wakeup [OF demo_admitted_reachable demo_laws _ this demo_service_run] t show ?thesis
    unfolding sw by (auto simp: Let_def split: if_splits)
qed

text \<open>
  Property C7. Every iteration serves every runnable client: whatever the sweep
  order, the other clients, the kernel and the new connections do, the frames an
  iteration executes are exactly accounted for (store, received and sent bytes
  follow the extended log), and for each client that starts the iteration with
  runnable input the first of them is its next pending frame, unless it has been
  retired and its descriptor closed.
\<close>

theorem iteration_serves_runnable:
  assumes "server_inv s" and "kernel_laws K" and "serialized log s"
    and "event_loop_iteration K order s = Some o'"
    and "distinct order" and "set order = fst ` set (clients s)"
  shows "let t = outcome_server o'; es = iteration_log K order s in
     serialized (log @ es) t \<and>
     (\<forall>fd c. map_of (clients s) fd = Some c \<longrightarrow> has_runnable_input c \<longrightarrow>
        (\<exists>i evs. conn_of (trace s) fd = Some i \<and> trace t = trace s @ evs \<and>
           (fd \<in> set (closed evs) \<or> (\<exists>fs. frames_of i es = hd (frames_in c) # fs))))"
proof -
  obtain later where "iteration_log K order s = sweep_log K order s @ later"
    "accounts (sweep_log K order s) s (fst (sweep K order s False))"
    "accounts later (fst (sweep K order s False)) (outcome_server o')"
    using accounts_iteration [OF assms(1,2,4)] by blast
  with assms(3) have "serialized (log @ iteration_log K order s) (outcome_server o')"
    unfolding accounts_def by auto
  then show ?thesis
    using iteration_serves [OF assms(1-4,6)] unfolding Let_def served_next_def by blast
qed

text \<open>The demonstration server with two commands received and not yet run.\<close>

definition demo_pipelined :: server where
  "demo_pipelined = demo_admitted\<lparr>clients := [(5, demo_client\<lparr>input_buffer := demo_commands\<rparr>)],
     trace := demo_setup_calls @ demo_accept_calls @
       [Recv 5 4096 (Inr demo_commands),
        Epoll_Ctl 4 EPOLL_CTL_MOD 5 (Some \<lparr>events = 0, data_fd = 5\<rparr>) (Inr ())]\<rparr>"

lemma demo_pipelined_inv: "server_inv demo_pipelined"
proof -
  let ?c = "demo_client\<lparr>input_buffer := demo_commands\<rparr>"
  have c: "conn_inv ?c" "pressure_ok ?c" "has_runnable_input ?c" "\<not> can_read ?c"
    "\<not> has_pending_output ?c" "fd_ref (socket ?c) = 5"
    by (simp_all add: conn_inv_def pressure_ok_def connection_run_defs demo_client_def demo_commands_def)
  have "open_fds (trace demo_pipelined) = {3, 4, 5}"
    by (auto simp: demo_pipelined_def demo_setup_calls_def demo_accept_calls_def open_fds_def
        simp del: open_fds_append)
  moreover have "interest 4 (trace demo_pipelined) = [3 \<mapsto> listener_mask, 5 \<mapsto> 0]"
    by (simp add: demo_pipelined_def demo_observed listener_mask_def interest_mask_def fun_upd_twist)
  ultimately show ?thesis
    using c
    by (auto simp: server_inv_def consistent_def owned_def keys_def demo_pipelined_def demo_admitted_def
        demo_start_def store_ok_empty client_ok_def live_def wanted_def interest_mask_eq_0
        kMaxClients_def split: if_splits)
qed

lemma demo_pipelined_serialized: "serialized [] demo_pipelined" "conn_of (trace demo_pipelined) 5 = Some 0"
proof -
  have str: "streams_of (trace demo_pipelined) =
      \<lparr>next_id = 1, owner = [5 \<mapsto> 0], inb = (\<lambda>_. [])(0 := demo_commands), outb = \<lambda>_. []\<rparr>"
    by (simp add: demo_pipelined_def demo_setup_calls_def demo_accept_calls_def streams_of_def)
  then show conn: "conn_of (trace demo_pipelined) 5 = Some 0"
    by (simp add: conn_of_def)
  show "serialized [] demo_pipelined"
    unfolding serialized_def settled_def accounted_def streams_defs str
    by (auto simp: demo_pipelined_def demo_admitted_def demo_start_def demo_client_def pending_in_def
        pending_out_def split: if_splits)
qed

lemma demo_settles: "\<forall>fd. fcntl_settles demo_kernel fd"
  by (auto simp: fcntl_settles_def sys_eqs demo_kernel_def quiet_kernel_def intro: exI [of _ 0])

theorem iteration_serves_runnable_witness:
  "\<exists>o' evs. event_loop_iteration demo_kernel [5] demo_pipelined = Some o' \<and>
     trace (outcome_server o') = trace demo_pipelined @ evs \<and>
     serialized (iteration_log demo_kernel [5] demo_pipelined) (outcome_server o') \<and>
     (5 \<in> set (closed evs) \<or>
      (\<exists>fs. frames_of 0 (iteration_log demo_kernel [5] demo_pipelined) = ''SET a 1'' # fs))"
proof -
  let ?c = "demo_client\<lparr>input_buffer := demo_commands\<rparr>"
  obtain o' where run: "event_loop_iteration demo_kernel [5] demo_pipelined = Some o'"
    using event_loop_iteration_total [OF demo_settles] by blast
  have c: "map_of (clients demo_pipelined) 5 = Some ?c" "has_runnable_input ?c"
    by (simp_all add: demo_pipelined_def connection_run_defs demo_client_def demo_commands_def)
  have hd: "hd (frames_in ?c) = ''SET a 1''"
    by (simp add: frames_in_def pending_in_def demo_client_def demo_commands_def)
  have order: "distinct [5 :: fd]" "set [5] = fst ` set (clients demo_pipelined)"
    by (simp_all add: demo_pipelined_def)
  from iteration_serves_runnable [OF demo_pipelined_inv demo_laws demo_pipelined_serialized(1) run order]
    c hd demo_pipelined_serialized(2) run show ?thesis
    unfolding Let_def by fastforce
qed

end
