(* ===== verification/Framing.thy ===== *)
theory Framing
  imports Kernel
begin

text \<open>
  \<open>src/protocol/framing.cpp\<close>: splitting a buffer at newlines, and the blocking
  receive and send loops of the client and of the thread-per-client handler. The
  two loops can go on forever (interrupted calls, a peer that never sends a
  newline), so they are \<open>option\<close>-valued with \<open>None\<close> for no return.
\<close>

definition next_message :: "string \<Rightarrow> string option \<times> string" where
  "next_message buffer =
     (case find_from NL buffer 0 of
        None \<Rightarrow> (None, buffer)
      | Some newline \<Rightarrow> (Some (substr buffer 0 newline), drop (newline + 1) buffer))"

partial_function (option) read_message ::
  "kernel \<Rightarrow> fd \<Rightarrow> string \<Rightarrow> history \<Rightarrow> (string option \<times> string \<times> history) option" where
  "read_message K fd buffer h =
     (case next_message buffer of
        (Some message, buffer') \<Rightarrow> Some (Some message, buffer', h)
      | (None, _) \<Rightarrow>
          (let (received, h1) = sys_recv K fd 4096 h
           in case received of
                Inl e \<Rightarrow> (if e = EINTR then read_message K fd buffer h1 else Some (None, buffer, h1))
              | Inr chunk \<Rightarrow>
                  (if chunk = [] then Some (None, buffer, h1)
                   else read_message K fd (buffer @ chunk) h1)))"

declare read_message.simps [code]

partial_function (option) send_loop ::
  "kernel \<Rightarrow> fd \<Rightarrow> string \<Rightarrow> nat \<Rightarrow> history \<Rightarrow> (bool \<times> history) option" where
  "send_loop K fd message total_sent h =
     (if total_sent < length message
      then let (sent, h1) = sys_send K fd (drop total_sent message) h
           in case sent of
                Inl e \<Rightarrow> (if e = EINTR then send_loop K fd message total_sent h1 else Some (False, h1))
              | Inr bytes \<Rightarrow>
                  (if bytes = 0 then Some (False, h1)
                   else send_loop K fd message (total_sent + bytes) h1)
      else Some (True, h))"

declare send_loop.simps [code]

definition send_all :: "kernel \<Rightarrow> fd \<Rightarrow> string \<Rightarrow> history \<Rightarrow> (bool \<times> history) option" where
  "send_all K fd message h = send_loop K fd message 0 h"

subsection \<open>Splitting off one message\<close>

lemma next_message_None: "fst (next_message b) = None \<longleftrightarrow> NL \<notin> set b"
  by (auto simp: next_message_def find_from_def dest: find_char_mem split: option.splits)

lemma next_message_line [simp]:
  "NL \<notin> set m \<Longrightarrow> next_message (m @ NL # rest) = (Some m, rest)"
  by (simp add: next_message_def find_from_def substr_def)

lemma next_message_no_nl [simp]: "NL \<notin> set b \<Longrightarrow> next_message b = (None, b)"
  by (simp add: next_message_def find_from_def)

lemma next_message_cases:
  obtains (none) "NL \<notin> set b" "next_message b = (None, b)"
  | (some) m rest where "b = m @ NL # rest" "NL \<notin> set m" "next_message b = (Some m, rest)"
proof (cases "NL \<in> set b")
  case True
  then obtain m rest where "b = m @ NL # rest" "NL \<notin> set m"
    by (meson split_list_first)
  with that(2) show ?thesis by simp
next
  case False
  with that(1) show ?thesis by simp
qed

text \<open>Repeated calls until no message is left, as a receiver does.\<close>

fun all_messages :: "nat \<Rightarrow> string \<Rightarrow> string list \<times> string" where
  "all_messages 0 buffer = ([], buffer)"
| "all_messages (Suc n) buffer =
     (case next_message buffer of
        (None, buffer') \<Rightarrow> ([], buffer')
      | (Some m, buffer') \<Rightarrow> (let (ms, rest) = all_messages n buffer' in (m # ms, rest)))"

lemma all_messages_split:
  "length b < n \<Longrightarrow> all_messages n b = split_lines b"
proof (induction n arbitrary: b)
  case 0
  then show ?case by simp
next
  case (Suc n)
  show ?case
  proof (cases b rule: next_message_cases)
    case none
    then show ?thesis by (simp add: split_simps)
  next
    case (some m rest)
    with Suc show ?thesis by (simp add: split_simps case_prod_beta)
  qed
qed

subsection \<open>Effects of the loops\<close>

lemma read_message_effect:
  assumes ret: "read_message K fd b h = Some (m, b', h')"
  shows "\<exists>d. rx fd h' = rx fd h @ d \<and>
     (case m of None \<Rightarrow> b' = b @ d \<and> NL \<notin> set b' | Some l \<Rightarrow> b @ d = l @ NL # b' \<and> NL \<notin> set l)"
proof -
  let ?Q = "\<lambda>fd b h m b' h'. \<exists>d. rx fd h' = rx fd h @ d \<and>
     (case m of None \<Rightarrow> b' = b @ d \<and> NL \<notin> set b' | Some l \<Rightarrow> b @ d = l @ NL # b' \<and> NL \<notin> set l)"
  have "case (m, b', h') of (m, b', h') \<Rightarrow> ?Q fd b h m b' h'"
  proof (rule read_message.raw_induct
      [where P = "\<lambda>K fd b h res. case res of (m, b', h') \<Rightarrow> ?Q fd b h m b' h'", OF _ ret])
    fix f K fd b h res
    assume IH: "\<And>K fd b h res. f K fd b h = Some res \<Longrightarrow> case res of (m, b', h') \<Rightarrow> ?Q fd b h m b' h'"
      and step: "(case next_message b of
        (Some message, buffer') \<Rightarrow> Some (Some message, buffer', h)
      | (None, _) \<Rightarrow>
          (let (received, h1) = sys_recv K fd 4096 h
           in case received of
                Inl e \<Rightarrow> (if e = EINTR then f K fd b h1 else Some (None, b, h1))
              | Inr chunk \<Rightarrow>
                  (if chunk = [] then Some (None, b, h1) else f K fd (b @ chunk) h1))) = Some res"
    show "case res of (m, b', h') \<Rightarrow> ?Q fd b h m b' h'"
    proof (cases b rule: next_message_cases)
      case (some l rest)
      with step show ?thesis by auto
    next
      case none
      let ?r = "k_recv K h fd 4096" and ?h1 = "h @ [Recv fd 4096 (k_recv K h fd 4096)]"
      show ?thesis
      proof (cases ?r)
        case (Inl e)
        then show ?thesis
          using step none IH [of K fd b ?h1 res]
          by (auto simp: sys_eqs split: if_splits prod.splits)
      next
        case (Inr chunk)
        then show ?thesis
          using step none IH [of K fd "b @ chunk" ?h1 res]
          by (fastforce simp: sys_eqs split: if_splits prod.splits option.splits)
      qed
    qed
  qed
  then show ?thesis by simp
qed

lemma send_loop_effect:
  assumes ret: "send_loop K fd msg n h = Some (ok, h')"
  shows "\<exists>d. tx fd h' = tx fd h @ d \<and>
     (if ok then d = drop n msg else \<exists>k. d = take k (drop n msg) \<and> k < length msg - n)"
proof -
  let ?Q = "\<lambda>fd msg n h ok h'. \<exists>d. tx fd h' = tx fd h @ d \<and>
     (if ok then d = drop n msg else \<exists>k. d = take k (drop n msg) \<and> k < length msg - n)"
  have "case (ok, h') of (ok, h') \<Rightarrow> ?Q fd msg n h ok h'"
  proof (rule send_loop.raw_induct
      [where P = "\<lambda>K fd msg n h res. case res of (ok, h') \<Rightarrow> ?Q fd msg n h ok h'", OF _ ret])
    fix f K fd msg n h res
    assume IH: "\<And>K fd msg n h res. f K fd msg n h = Some res \<Longrightarrow>
        case res of (ok, h') \<Rightarrow> ?Q fd msg n h ok h'"
      and step: "(if n < length msg
      then let (sent, h1) = sys_send K fd (drop n msg) h
           in case sent of
                Inl e \<Rightarrow> (if e = EINTR then f K fd msg n h1 else Some (False, h1))
              | Inr bytes \<Rightarrow> (if bytes = 0 then Some (False, h1) else f K fd msg (n + bytes) h1)
      else Some (True, h)) = Some res"
    let ?r = "k_send K h fd (drop n msg)"
    let ?h1 = "h @ [Send fd (drop n msg) ?r]"
    show "case res of (ok, h') \<Rightarrow> ?Q fd msg n h ok h'"
    proof (cases "n < length msg")
      case False
      with step show ?thesis by auto
    next
      case True
      show ?thesis
      proof (cases ?r)
        case (Inl e)
        show ?thesis
        proof (cases "e = EINTR")
          case True
          with Inl step \<open>n < length msg\<close> IH [of K fd msg n ?h1 res] show ?thesis
            by (simp add: sys_eqs split: prod.splits)
        next
          case False
          with Inl step \<open>n < length msg\<close> show ?thesis
            by (auto simp: sys_eqs intro!: exI [of _ 0])
        qed
      next
        case (Inr bytes)
        show ?thesis
        proof (cases "bytes = 0")
          case True
          with Inr step \<open>n < length msg\<close> show ?thesis
            by (auto simp: sys_eqs intro!: exI [of _ 0])
        next
          case False
          then have "f K fd msg (n + bytes) ?h1 = Some res"
            using step True Inr by (simp add: sys_eqs)
          from IH [OF this] obtain ok h' d where res: "res = (ok, h')"
            and tx: "tx fd h' = tx fd h @ take bytes (drop n msg) @ d"
            and d: "if ok then d = drop (n + bytes) msg
              else \<exists>k. d = take k (drop (n + bytes) msg) \<and> k < length msg - (n + bytes)"
            using Inr by (cases res) auto
          have full: "take bytes (drop n msg) @ drop (n + bytes) msg = drop n msg"
            by (metis append_take_drop_id drop_drop add.commute)
          show ?thesis
          proof (cases ok)
            case True
            with res tx d full show ?thesis by simp
          next
            case False
            then obtain k where k: "d = take k (drop (n + bytes) msg)" "k < length msg - (n + bytes)"
              using d by auto
            have "take bytes (drop n msg) @ d = take (bytes + k) (drop n msg)"
              using k by (simp add: take_add add.commute)
            with False res tx k show ?thesis by (auto intro!: exI [of _ "bytes + k"])
          qed
        qed
      qed
    qed
  qed
  then show ?thesis by simp
qed

text \<open>The loops make no other calls: receiving sends nothing and conversely.\<close>

fun is_recv :: "fd \<Rightarrow> sys_event \<Rightarrow> bool" where
  "is_recv fd (Recv fd' _ _) = (fd' = fd)"
| "is_recv fd _ = False"

fun is_send :: "fd \<Rightarrow> sys_event \<Rightarrow> bool" where
  "is_send fd (Send fd' _ _) = (fd' = fd)"
| "is_send fd _ = False"

lemma is_recv_quiet: "is_recv fd e \<Longrightarrow> tx1 fd' e = []"
  by (cases e) simp_all

lemma is_send_quiet: "is_send fd e \<Longrightarrow> rx1 fd' e = []"
  by (cases e) simp_all

lemma read_message_grows:
  assumes ret: "read_message K fd b h = Some (m, b', h')"
  shows "grows (is_recv fd) h h'"
proof -
  have "grows (is_recv fd) h (snd (snd (m, b', h')))"
  proof (rule read_message.raw_induct
      [where P = "\<lambda>K fd b h res. grows (is_recv fd) h (snd (snd res))", OF _ ret])
    fix f K fd b h res
    assume IH: "\<And>K fd b h res. f K fd b h = Some res \<Longrightarrow> grows (is_recv fd) h (snd (snd res))"
      and step: "(case next_message b of
        (Some message, buffer') \<Rightarrow> Some (Some message, buffer', h)
      | (None, _) \<Rightarrow>
          (let (received, h1) = sys_recv K fd 4096 h
           in case received of
                Inl e \<Rightarrow> (if e = EINTR then f K fd b h1 else Some (None, b, h1))
              | Inr chunk \<Rightarrow>
                  (if chunk = [] then Some (None, b, h1) else f K fd (b @ chunk) h1))) = Some res"
    have one: "grows (is_recv fd) h (h @ [Recv fd 4096 (k_recv K h fd 4096)])"
      by (simp add: grows_def)
    show "grows (is_recv fd) h (snd (snd res))"
      using step grows_trans [OF one IH] one
      by (cases b rule: next_message_cases)
         (auto simp: sys_eqs split: sum.splits if_splits)
  qed
  then show ?thesis by simp
qed

lemma send_loop_grows:
  assumes ret: "send_loop K fd msg n h = Some (ok, h')"
  shows "grows (is_send fd) h h'"
proof -
  have "grows (is_send fd) h (snd (ok, h'))"
  proof (rule send_loop.raw_induct
      [where P = "\<lambda>K fd msg n h res. grows (is_send fd) h (snd res)", OF _ ret])
    fix f K fd msg n h res
    assume IH: "\<And>K fd msg n h res. f K fd msg n h = Some res \<Longrightarrow> grows (is_send fd) h (snd res)"
      and step: "(if n < length msg
      then let (sent, h1) = sys_send K fd (drop n msg) h
           in case sent of
                Inl e \<Rightarrow> (if e = EINTR then f K fd msg n h1 else Some (False, h1))
              | Inr bytes \<Rightarrow> (if bytes = 0 then Some (False, h1) else f K fd msg (n + bytes) h1)
      else Some (True, h)) = Some res"
    have one: "grows (is_send fd) h (h @ [Send fd (drop n msg) (k_send K h fd (drop n msg))])"
      by (simp add: grows_def)
    show "grows (is_send fd) h (snd res)"
      using step grows_trans [OF one IH] one
      by (auto simp: sys_eqs split: sum.splits if_splits)
  qed
  then show ?thesis by simp
qed

lemma read_message_tx: "read_message K fd b h = Some (m, b', h') \<Longrightarrow> tx fd' h' = tx fd' h"
  by (intro grows_tx grows_mono [OF read_message_grows] is_recv_quiet)

lemma send_all_rx: "send_all K fd msg h = Some (ok, h') \<Longrightarrow> rx fd' h' = rx fd' h"
  unfolding send_all_def by (intro grows_rx grows_mono [OF send_loop_grows] is_send_quiet)

lemma send_all_effect:
  assumes "send_all K fd msg h = Some (ok, h')"
  shows "\<exists>d. tx fd h' = tx fd h @ d \<and>
     (if ok then d = msg else \<exists>k. d = take k msg \<and> k < length msg)"
  using send_loop_effect [OF assms [unfolded send_all_def]] by (cases ok) simp_all

text \<open>
  Why the loops give up: the last call was answered with an error other than an
  interruption, or moved nothing (end of the stream).
\<close>

definition recv_over :: "fd \<Rightarrow> history \<Rightarrow> bool" where
  "recv_over fd h \<longleftrightarrow>
     (\<exists>h0 r. h = h0 @ [Recv fd 4096 r] \<and> (r = Inr [] \<or> (\<exists>e. r = Inl e \<and> e \<noteq> EINTR)))"

definition send_over :: "fd \<Rightarrow> history \<Rightarrow> bool" where
  "send_over fd h \<longleftrightarrow>
     (\<exists>h0 bs r. h = h0 @ [Send fd bs r] \<and> (r = Inr 0 \<or> (\<exists>e. r = Inl e \<and> e \<noteq> EINTR)))"

lemma read_message_over:
  assumes "read_message K fd b h = Some (None, b', h')"
  shows "recv_over fd h'"
proof -
  have over: "fst res = None \<longrightarrow> recv_over fd (snd (snd res))"
    if ret: "read_message K fd b h = Some res" for res
  proof (rule read_message.raw_induct
      [where P = "\<lambda>K fd b h res. fst res = None \<longrightarrow> recv_over fd (snd (snd res))", OF _ ret])
    fix f K fd b h res
    assume IH: "\<And>K fd b h res. f K fd b h = Some res \<Longrightarrow> fst res = None \<longrightarrow> recv_over fd (snd (snd res))"
      and step: "(case next_message b of
        (Some message, buffer') \<Rightarrow> Some (Some message, buffer', h)
      | (None, _) \<Rightarrow>
          (let (received, h1) = sys_recv K fd 4096 h
           in case received of
                Inl e \<Rightarrow> (if e = EINTR then f K fd b h1 else Some (None, b, h1))
              | Inr chunk \<Rightarrow>
                  (if chunk = [] then Some (None, b, h1) else f K fd (b @ chunk) h1))) = Some res"
    let ?r = "k_recv K h fd 4096"
    show "fst res = None \<longrightarrow> recv_over fd (snd (snd res))"
    proof (cases b rule: next_message_cases)
      case (some l rest)
      with step show ?thesis by auto
    next
      case none
      show ?thesis
      proof (cases ?r)
        case (Inl e)
        with step none IH [of K fd b "h @ [Recv fd 4096 ?r]" res] show ?thesis
          by (auto simp: sys_eqs recv_over_def split: if_splits)
      next
        case (Inr c)
        with step none IH [of K fd "b @ c" "h @ [Recv fd 4096 ?r]" res] show ?thesis
          by (auto simp: sys_eqs recv_over_def split: if_splits)
      qed
    qed
  qed
  from over [OF assms] show ?thesis by simp
qed

lemma send_loop_over:
  assumes "send_loop K fd msg n h = Some (False, h')"
  shows "send_over fd h'"
proof -
  have over: "\<not> fst res \<longrightarrow> send_over fd (snd res)"
    if ret: "send_loop K fd msg n h = Some res" for res
  proof (rule send_loop.raw_induct
      [where P = "\<lambda>K fd msg n h res. \<not> fst res \<longrightarrow> send_over fd (snd res)", OF _ ret])
    fix f K fd msg n h res
    assume IH: "\<And>K fd msg n h res. f K fd msg n h = Some res \<Longrightarrow> \<not> fst res \<longrightarrow> send_over fd (snd res)"
      and step: "(if n < length msg
      then let (sent, h1) = sys_send K fd (drop n msg) h
           in case sent of
                Inl e \<Rightarrow> (if e = EINTR then f K fd msg n h1 else Some (False, h1))
              | Inr bytes \<Rightarrow> (if bytes = 0 then Some (False, h1) else f K fd msg (n + bytes) h1)
      else Some (True, h)) = Some res"
    let ?r = "k_send K h fd (drop n msg)"
    let ?h1 = "h @ [Send fd (drop n msg) ?r]"
    show "\<not> fst res \<longrightarrow> send_over fd (snd res)"
    proof (cases ?r)
      case (Inl e)
      with step IH [of K fd msg n ?h1 res] show ?thesis
        by (auto simp: sys_eqs send_over_def split: if_splits)
    next
      case (Inr k)
      with step IH [of K fd msg "n + k" ?h1 res] show ?thesis
        by (auto simp: sys_eqs send_over_def split: if_splits)
    qed
  qed
  from over [OF assms] show ?thesis by simp
qed

subsection \<open>Termination\<close>

text \<open>
  A measure on histories that every interruption, and every non-empty receive,
  decreases: the peer sends finitely many bytes and signals arrive finitely
  often.
\<close>

definition recv_progress :: "kernel \<Rightarrow> fd \<Rightarrow> (history \<Rightarrow> nat) \<Rightarrow> bool" where
  "recv_progress K fd \<mu> \<longleftrightarrow>
     (\<forall>h. (k_recv K h fd 4096 = Inl EINTR \<or> (\<exists>c. k_recv K h fd 4096 = Inr c \<and> c \<noteq> [])) \<longrightarrow>
        \<mu> (h @ [Recv fd 4096 (k_recv K h fd 4096)]) < \<mu> h)"

definition send_progress :: "kernel \<Rightarrow> fd \<Rightarrow> (history \<Rightarrow> nat) \<Rightarrow> bool" where
  "send_progress K fd \<mu> \<longleftrightarrow>
     (\<forall>h bs. k_send K h fd bs = Inl EINTR \<longrightarrow> \<mu> (h @ [Send fd bs (Inl EINTR)]) < \<mu> h) \<and>
     (\<forall>h bs n. k_send K h fd bs = Inr n \<longrightarrow> \<mu> (h @ [Send fd bs (Inr n)]) \<le> \<mu> h)"

lemma read_message_returns:
  "recv_progress K fd \<mu> \<Longrightarrow>
   \<exists>m b' h'. read_message K fd b h = Some (m, b', h') \<and>
     (m \<noteq> None \<longrightarrow> h' = h \<and> length b' < length b \<or> \<mu> h' < \<mu> h)"
proof (induction "\<mu> h" arbitrary: b h rule: less_induct)
  case less
  let ?r = "k_recv K h fd 4096" and ?h1 = "h @ [Recv fd 4096 (k_recv K h fd 4096)]"
  have retry: "\<mu> ?h1 < \<mu> h \<and> (\<exists>m b' h'. read_message K fd c ?h1 = Some (m, b', h') \<and>
      (m \<noteq> None \<longrightarrow> \<mu> h' < \<mu> h))"
    if "?r = Inl EINTR \<or> (\<exists>c. ?r = Inr c \<and> c \<noteq> [])" for c
  proof -
    have dec: "\<mu> ?h1 < \<mu> h"
      using less.prems that unfolding recv_progress_def by blast
    obtain m b' h' where "read_message K fd c ?h1 = Some (m, b', h')"
      "m \<noteq> None \<longrightarrow> h' = ?h1 \<and> length b' < length c \<or> \<mu> h' < \<mu> ?h1"
      using less.hyps [OF dec less.prems, of c] by blast
    with dec show ?thesis by auto
  qed
  show ?case
  proof (cases b rule: next_message_cases)
    case (some m rest)
    then show ?thesis by (subst read_message.simps) simp
  next
    case none
    show ?thesis
    proof (cases ?r)
      case (Inl e)
      show ?thesis
      proof (cases "e = EINTR")
        case True
        with retry [of b] Inl none show ?thesis
          by (subst read_message.simps) (auto simp add: sys_eqs)
      next
        case False
        with Inl none show ?thesis by (subst read_message.simps) (simp add: sys_eqs)
      qed
    next
      case (Inr c)
      show ?thesis
      proof (cases "c = []")
        case True
        with Inr none show ?thesis by (subst read_message.simps) (simp add: sys_eqs)
      next
        case False
        with retry [of "b @ c"] Inr none show ?thesis
          by (subst read_message.simps) (auto simp add: sys_eqs)
      qed
    qed
  qed
qed

lemma send_loop_returns:
  "send_progress K fd \<mu> \<Longrightarrow>
   \<exists>ok h'. send_loop K fd msg n h = Some (ok, h') \<and> (ok \<longrightarrow> \<mu> h' \<le> \<mu> h)"
proof (induction "\<mu> h + (length msg - n)" arbitrary: n h rule: less_induct)
  case less
  let ?r = "k_send K h fd (drop n msg)"
  show ?case
  proof (cases "n < length msg")
    case False
    then show ?thesis by (subst send_loop.simps) auto
  next
    case True
    show ?thesis
    proof (cases ?r)
      case (Inl e)
      show ?thesis
      proof (cases "e = EINTR")
        case True
        have dec: "\<mu> (h @ [Send fd (drop n msg) (Inl EINTR)]) < \<mu> h"
          using less.prems Inl True by (simp add: send_progress_def)
        then obtain ok h' where "send_loop K fd msg n (h @ [Send fd (drop n msg) (Inl EINTR)]) = Some (ok, h')"
          "ok \<longrightarrow> \<mu> h' \<le> \<mu> (h @ [Send fd (drop n msg) (Inl EINTR)])"
          using less.hyps [of "h @ [Send fd (drop n msg) (Inl EINTR)]" n] less.prems by auto
        with Inl True dec \<open>n < length msg\<close> show ?thesis
          by (subst send_loop.simps) (auto simp add: sys_eqs)
      next
        case False
        with Inl \<open>n < length msg\<close> show ?thesis
          by (subst send_loop.simps) (auto simp add: sys_eqs)
      qed
    next
      case (Inr k)
      show ?thesis
      proof (cases "k = 0")
        case True
        with Inr \<open>n < length msg\<close> show ?thesis
          by (subst send_loop.simps) (auto simp add: sys_eqs)
      next
        case False
        have dec: "\<mu> (h @ [Send fd (drop n msg) (Inr k)]) \<le> \<mu> h"
          using less.prems Inr by (simp add: send_progress_def)
        then obtain ok h' where "send_loop K fd msg (n + k) (h @ [Send fd (drop n msg) (Inr k)]) = Some (ok, h')"
          "ok \<longrightarrow> \<mu> h' \<le> \<mu> (h @ [Send fd (drop n msg) (Inr k)])"
          using less.hyps [of "h @ [Send fd (drop n msg) (Inr k)]" "n + k"] less.prems False
            \<open>n < length msg\<close> by force
        with Inr False dec \<open>n < length msg\<close> show ?thesis
          by (subst send_loop.simps) (auto simp add: sys_eqs)
      qed
    qed
  qed
qed

subsection \<open>Properties\<close>

text \<open>
  Property C25. Framing round trip: taking messages off a buffer until none is
  left yields exactly the newline-free messages that were joined, in order, and
  leaves the unterminated rest in the buffer untouched.
\<close>

theorem next_message_roundtrip:
  assumes "\<forall>f\<in>set fs. NL \<notin> set f" and "NL \<notin> set rest"
    and "length (join_lines fs @ rest) < n"
  shows "all_messages n (join_lines fs @ rest) = (fs, rest)"
  using all_messages_split [OF assms(3)] split_lines_join [OF assms(1,2)] by simp

theorem next_message_roundtrip_witness:
  "all_messages 12 (''a'' @ [NL] @ [NL] @ ''bc'' @ [NL] @ ''tail'') = ([''a'', [], ''bc''], ''tail'')"
  using next_message_roundtrip [of "[''a'', [], ''bc'']" "''tail''" 12] by simp

text \<open>
  Property C26. \<open>read_message\<close> neither loses, duplicates nor reorders bytes: the
  buffer it started with followed by everything received during the call is the
  returned line, its newline and the buffer it leaves; when it gives up (end of
  stream or error) all of it is left in the buffer and holds no complete line.
\<close>

theorem read_message_conserves:
  assumes "read_message K fd b h = Some (m, b', h')"
  shows "\<exists>d. rx fd h' = rx fd h @ d \<and>
     (case m of None \<Rightarrow> b' = b @ d \<and> NL \<notin> set b' | Some l \<Rightarrow> b @ d = l @ NL # b' \<and> NL \<notin> set l)"
  using assms by (rule read_message_effect)

text \<open>A peer that delivers two fragments after an interruption.\<close>

definition fragment_kernel :: kernel where
  "fragment_kernel = quiet_kernel\<lparr>k_recv := \<lambda>h _ _.
     (if length h = 0 then Inl EINTR
      else if length h = 1 then Inr ''lo''
      else if length h = 2 then Inr (NL # ''next'') else Inr [])\<rparr>"

lemma fragment_run:
  "read_message fragment_kernel 5 ''hel'' [] =
     Some (Some ''hello'', ''next'',
       [Recv 5 4096 (Inl EINTR), Recv 5 4096 (Inr ''lo''), Recv 5 4096 (Inr (NL # ''next''))])"
  by (simp add: read_message.simps fragment_kernel_def sys_eqs next_message_def find_from_def
      substr_def)

theorem read_message_conserves_witness:
  "\<exists>d. rx 5 [Recv 5 4096 (Inl EINTR), Recv 5 4096 (Inr ''lo''), Recv 5 4096 (Inr (NL # ''next''))] = d \<and>
     ''hel'' @ d = ''hello'' @ NL # ''next''"
  using read_message_conserves [OF fragment_run] by simp

text \<open>
  Property C27. \<open>send_all\<close> reports success exactly when the kernel accepted the
  whole message, in order and once; a failure leaves a strict prefix accepted.
\<close>

theorem send_all_exact:
  assumes "send_all K fd message h = Some (ok, h')"
  shows "\<exists>d. tx fd h' = tx fd h @ d \<and>
     (if ok then d = message else \<exists>k. d = take k message \<and> k < length message)"
  using send_loop_effect [OF assms [unfolded send_all_def]] by (cases ok) simp_all

text \<open>A kernel that interrupts once and accepts at most two bytes per call.\<close>

definition slow_kernel :: kernel where
  "slow_kernel = quiet_kernel\<lparr>k_send := \<lambda>h _ bs.
     (if h = [] then Inl EINTR else Inr (min 2 (length bs)))\<rparr>"

lemma slow_run:
  "send_all slow_kernel 5 ''abc'' [] =
     Some (True, [Send 5 ''abc'' (Inl EINTR), Send 5 ''abc'' (Inr 2), Send 5 ''c'' (Inr 1)])"
  by (simp add: send_all_def send_loop.simps slow_kernel_def sys_eqs)

theorem send_all_exact_witness:
  "tx 5 [Send 5 ''abc'' (Inl EINTR), Send 5 ''abc'' (Inr 2), Send 5 ''c'' (Inr 1)] = ''abc''"
  using send_all_exact [OF slow_run] by simp

text \<open>
  Property C28. The blocking loops return: if interruptions and received bytes
  are finite in number, \<open>read_message\<close> and \<open>send_all\<close> come back with a result.
\<close>

theorem blocking_loops_return:
  assumes "recv_progress K fd \<mu>" and "send_progress K fd \<nu>"
  shows "(\<exists>r. read_message K fd b h = Some r) \<and> (\<exists>r. send_all K fd message h = Some r)"
  using read_message_returns [OF assms(1), of b h] send_loop_returns [OF assms(2), of message 0 h]
  unfolding send_all_def by blast

theorem blocking_loops_return_witness:
  "(\<exists>r. read_message quiet_kernel 5 [] [] = Some r) \<and> (\<exists>r. send_all quiet_kernel 5 ''x'' [] = Some r)"
proof (rule blocking_loops_return)
  show "recv_progress quiet_kernel 5 (\<lambda>_. 0)"
    by (simp add: recv_progress_def quiet_kernel_def)
  show "send_progress quiet_kernel 5 (\<lambda>_. 0)"
    by (simp add: send_progress_def quiet_kernel_def)
qed

end
