(* ===== verification/Client.thy ===== *)
theory Client
  imports Framing Executor Socket
begin

text \<open>
  The command-line client (\<open>apps/client.cpp\<close>) and the parser playground
  (\<open>apps/playground.cpp\<close>). Name resolution is a library call: its answer, an
  error or the list of addresses, is an argument of \<open>client_main\<close>. The socket
  address behind \<open>ai_addr\<close> is opaque, a number.
\<close>

record addrinfo =
  ai_family :: int
  ai_socktype :: int
  ai_protocol :: int
  ai_addr :: nat

text \<open>
  The loop over the addresses, with the current \<open>socket_fd\<close>: \<open>break\<close> on the
  first successful \<open>connect\<close>.
\<close>

fun connect_loop :: "kernel \<Rightarrow> addrinfo list \<Rightarrow> unique_fd \<Rightarrow> history \<Rightarrow> unique_fd \<times> history" where
  "connect_loop K [] socket_fd h = (socket_fd, h)"
| "connect_loop K (addr # rest) socket_fd h =
     (case create_socket K (ai_family addr) (ai_socktype addr) (ai_protocol addr) h of
        (Inl e, h1) \<Rightarrow> connect_loop K rest socket_fd h1
      | (Inr result, h1) \<Rightarrow>
          (let (socket_fd1, result1, h2) = ufd_assign socket_fd result h1;
               (connected, h3) = sys_connect K (ufd_get socket_fd1) (ai_addr addr) h2;
               h4 = ufd_destroy result1 h3
           in case connected of
                Inr _ \<Rightarrow> (socket_fd1, h4)
              | Inl e \<Rightarrow> connect_loop K rest socket_fd1 h4))"

text \<open>The request-reply loop; \<open>None\<close> when a call never returns.\<close>

partial_function (option) client_loop :: "kernel \<Rightarrow> fd \<Rightarrow> string \<Rightarrow> history \<Rightarrow> history option" where
  "client_loop K fd response_buffer h =
     (let (line, h1) = sys_getline K h
      in case line of
           None \<Rightarrow> Some h1
         | Some message \<Rightarrow>
             (case send_all K fd (message @ [NL]) h1 of
                None \<Rightarrow> None
              | Some (sent, h2) \<Rightarrow>
                  (if \<not> sent then Some (h2 @ [Stderr ''send failed!''])
                   else
                     case read_message K fd response_buffer h2 of
                       None \<Rightarrow> None
                     | Some (None, _, h3) \<Rightarrow> Some (h3 @ [Stdout ''server disconnected''])
                     | Some (Some response, buffer', h3) \<Rightarrow>
                         client_loop K fd buffer' (h3 @ [Stdout (''Server: '' @ response)]))))"

declare client_loop.simps [code]

definition client_main ::
  "kernel \<Rightarrow> errno + addrinfo list \<Rightarrow> history \<Rightarrow> (int \<times> history) option" where
  "client_main K resolved h =
     (case resolved of
        Inl status \<Rightarrow> Some (1, h @ [Report ''getaddrinfo()'' status])
      | Inr results \<Rightarrow>
          (let (socket_fd, h1) = connect_loop K results UniqueFd_default h
           in if \<not> ufd_valid socket_fd
              then Some (1, ufd_destroy socket_fd (h1 @ [Stderr ''connect() failed'']))
              else
                case client_loop K (ufd_get socket_fd) [] (h1 @ [Stdout ''connected to server'']) of
                  None \<Rightarrow> None
                | Some h2 \<Rightarrow> Some (0, ufd_destroy socket_fd h2)))"

subsection \<open>The playground\<close>

definition run_command :: "string \<Rightarrow> KeyValueStore \<Rightarrow> history \<Rightarrow> KeyValueStore \<times> history" where
  "run_command input store h =
     (let h1 = h @ [Stdout (''> '' @ input)] in
      case parse_command input of
        None \<Rightarrow> (store, h1 @ [Stdout ''INVALID_COMMAND''])
      | Some command \<Rightarrow>
          (let (reply, store') = execute_command command store in (store', h1 @ [Stdout reply])))"

text \<open>
  The second \<open>if\<close> of \<open>main\<close> tests \<open>command\<close>, not \<open>command_get\<close>; \<open>None\<close> is the
  undefined behaviour of dereferencing an empty optional.
\<close>

definition playground_main :: "history \<Rightarrow> history option" where
  "playground_main h =
     (let command = parse_command ''SET name James'';
          (store, h1) =
            (case command of
               None \<Rightarrow> (empty_store, h)
             | Some c \<Rightarrow>
                 (let (reply, store') = execute_command c empty_store
                  in (store', h @ [Stdout reply])));
          command_get = parse_command ''GET name''
      in if command \<noteq> None
         then (case command_get of
                 None \<Rightarrow> None
               | Some c \<Rightarrow> Some (h1 @ [Stdout (fst (execute_command c store))]))
         else Some h1)"

subsection \<open>Connecting\<close>

text \<open>The descriptors on which a \<open>connect\<close> succeeded.\<close>

definition connected_fds :: "history \<Rightarrow> fd set" where
  "connected_fds h = {fd. \<exists>a u. Connect fd a (Inr u) \<in> set h}"

text \<open>
  One address for which a socket is created: the previous socket is closed, the
  new one is owned by \<open>socket_fd\<close>, and a \<open>connect\<close> is tried on it.
\<close>

lemma connect_loop_step:
  assumes "k_socket K h (ai_family addr) (ai_socktype addr) (ai_protocol addr) = Inr fd"
    and "h2 = ufd_destroy u (h @ [Socket (ai_family addr) (ai_socktype addr) (ai_protocol addr) (Inr fd)])"
  shows "connect_loop K (addr # rest) u h =
    (case k_connect K h2 fd (ai_addr addr) of
       Inr x \<Rightarrow> (\<lparr>fd_ref = fd\<rparr>, h2 @ [Connect fd (ai_addr addr) (Inr x)])
     | Inl e \<Rightarrow> connect_loop K rest \<lparr>fd_ref = fd\<rparr> (h2 @ [Connect fd (ai_addr addr) (Inl e)]))"
  using assms
  by (simp add: create_socket_def sys_eqs ufd_defs Let_def split: sum.split)

lemma connect_loop_skip:
  assumes "k_socket K h (ai_family addr) (ai_socktype addr) (ai_protocol addr) = Inl e"
  shows "connect_loop K (addr # rest) u h =
    connect_loop K rest u (h @ [Socket (ai_family addr) (ai_socktype addr) (ai_protocol addr) (Inl e)])"
  using assms by (simp add: create_socket_def sys_eqs)

declare connect_loop.simps(2) [simp del]


text \<open>
  \<open>socket_fd\<close> owns at most one descriptor, and it is the only one opened since
  the start that is still open.
\<close>

definition holds_one :: "fd set \<Rightarrow> unique_fd \<Rightarrow> history \<Rightarrow> bool" where
  "holds_one B u h \<longleftrightarrow> fd_ref u \<notin> B \<and>
     open_fds h = (if ufd_valid u then insert (fd_ref u) B else B)"

lemma connect_loop_holds:
  assumes "fresh_fds K" and "holds_one B u h" and "-1 \<notin> B"
  shows "holds_one B (fst (connect_loop K as u h)) (snd (connect_loop K as u h))"
  using assms(2)
proof (induction as arbitrary: u h)
  case Nil
  then show ?case by simp
next
  case (Cons addr as)
  let ?sock = "k_socket K h (ai_family addr) (ai_socktype addr) (ai_protocol addr)"
  show ?case
  proof (cases ?sock)
    case (Inl e)
    have "holds_one B u (h @ [Socket (ai_family addr) (ai_socktype addr) (ai_protocol addr) (Inl e)])"
      using Cons.prems by (simp add: holds_one_def)
    from Cons.IH [OF this] show ?thesis
      by (simp add: connect_loop_skip [OF Inl])
  next
    case (Inr fd)
    define h2 where
      "h2 = ufd_destroy u (h @ [Socket (ai_family addr) (ai_socktype addr) (ai_protocol addr) (Inr fd)])"
    have fd: "0 \<le> fd" "fd \<notin> open_fds h"
      using assms(1) Inr unfolding fresh_fds_def by blast+
    then have one: "holds_one B \<lparr>fd_ref = fd\<rparr> (h2 @ [Connect fd (ai_addr addr) r])" for r
      using Cons.prems assms(3)
      by (auto simp: holds_one_def h2_def ufd_defs sys_close_def split: if_splits)
    show ?thesis
      using Cons.IH [OF one] one connect_loop_step [OF Inr h2_def]
      by (auto split: sum.split)
  qed
qed

text \<open>What was written to the error stream.\<close>

definition complaints :: "history \<Rightarrow> string set" where
  "complaints h = {m. Stderr m \<in> set h}"

text \<open>
  When every \<open>connect\<close> fails, the last socket created is still owned, and the
  loop says nothing.
\<close>

lemma connect_loop_last:
  assumes "\<And>h fd a. \<exists>e. k_connect K h fd a = Inl e" and "fresh_fds K"
    and "ufd_valid u \<or> (\<exists>addr\<in>set as. \<forall>h. \<exists>fd.
          k_socket K h (ai_family addr) (ai_socktype addr) (ai_protocol addr) = Inr fd)"
  shows "ufd_valid (fst (connect_loop K as u h)) \<and>
    connected_fds (snd (connect_loop K as u h)) = connected_fds h \<and>
    complaints (snd (connect_loop K as u h)) = complaints h"
  using assms(3)
proof (induction as arbitrary: u h)
  case Nil
  then show ?case by simp
next
  case (Cons addr as)
  let ?sock = "k_socket K h (ai_family addr) (ai_socktype addr) (ai_protocol addr)"
  show ?case
  proof (cases ?sock)
    case (Inl e)
    have "ufd_valid u \<or> (\<exists>addr\<in>set as. \<forall>h. \<exists>fd.
        k_socket K h (ai_family addr) (ai_socktype addr) (ai_protocol addr) = Inr fd)"
    proof -
      have "\<not> (\<forall>h. \<exists>fd. k_socket K h (ai_family addr) (ai_socktype addr) (ai_protocol addr) = Inr fd)"
        using Inl by (metis Inl_Inr_False)
      with Cons.prems show ?thesis by auto
    qed
    from Cons.IH [OF this] show ?thesis
      by (simp add: connect_loop_skip [OF Inl] connected_fds_def complaints_def)
  next
    case (Inr fd)
    define h2 where
      "h2 = ufd_destroy u (h @ [Socket (ai_family addr) (ai_socktype addr) (ai_protocol addr) (Inr fd)])"
    obtain e where e: "k_connect K h2 fd (ai_addr addr) = Inl e"
      using assms(1) by blast
    have "0 \<le> fd"
      using assms(2) Inr unfolding fresh_fds_def by blast
    then have "ufd_valid \<lparr>fd_ref = fd\<rparr>"
      by (simp add: ufd_valid_def)
    moreover have "connected_fds (h2 @ [Connect fd (ai_addr addr) (Inl e)]) = connected_fds h"
      "complaints (h2 @ [Connect fd (ai_addr addr) (Inl e)]) = complaints h"
      by (auto simp: connected_fds_def complaints_def h2_def ufd_destroy_def sys_close_def)
    ultimately show ?thesis
      using Cons.IH [of "\<lparr>fd_ref = fd\<rparr>" "h2 @ [Connect fd (ai_addr addr) (Inl e)]"]
      by (simp add: connect_loop_step [OF Inr h2_def] e)
  qed
qed

subsection \<open>The session\<close>

text \<open>The lines typed and the replies shown.\<close>

fun typed1 :: "sys_event \<Rightarrow> string list" where
  "typed1 (Getline (Some l)) = [l]"
| "typed1 _ = []"

fun shown1 :: "sys_event \<Rightarrow> string list" where
  "shown1 (Stdout s) = (if take 8 s = ''Server: '' then [drop 8 s] else [])"
| "shown1 _ = []"

definition typed :: "history \<Rightarrow> string list" where "typed h = concat (map typed1 h)"
definition shown :: "history \<Rightarrow> string list" where "shown h = concat (map shown1 h)"

lemma typed_shown_append [simp]:
  "typed (h @ h') = typed h @ typed h'" "shown (h @ h') = shown h @ shown h'"
  "typed [] = []" "shown [] = []" "typed (e # h) = typed1 e @ typed h"
  "shown (e # h) = shown1 e @ shown h"
  by (simp_all add: typed_def shown_def)

fun is_session :: "sys_event \<Rightarrow> bool" where
  "is_session (Connect _ _ _) = False"
| "is_session (Socket _ _ _ _) = False"
| "is_session (Close _) = False"
| "is_session (Accept _ _) = False"
| "is_session (Epoll_Create _) = False"
| "is_session _ = True"

lemma is_session_quiet: "is_session e \<Longrightarrow> open1 A e = A"
  by (cases e) simp_all

lemma grows_io_session:
  "grows (is_send fd) h h' \<or> grows (is_recv fd) h h' \<Longrightarrow>
   typed h' = typed h \<and> shown h' = shown h \<and> grows is_session h h'"
proof -
  have "typed es = [] \<and> shown es = [] \<and> list_all is_session es"
    if "list_all (is_send fd) es \<or> list_all (is_recv fd) es" for es
    using that by (induction es) (auto elim!: is_send.elims is_recv.elims)
  then show "grows (is_send fd) h h' \<or> grows (is_recv fd) h h' \<Longrightarrow>
      typed h' = typed h \<and> shown h' = shown h \<and> grows is_session h h'"
    unfolding grows_def by auto
qed

text \<open>
  What a session did: the lines \<open>ls\<close> were typed, the replies \<open>rs\<close> received and
  shown in order; all lines but possibly the last were sent whole.
\<close>

definition session :: "fd \<Rightarrow> string \<Rightarrow> history \<Rightarrow> history \<Rightarrow> bool" where
  "session fd b h h' \<longleftrightarrow>
     (\<exists>ls rs rest d k. typed h' = typed h @ ls \<and> shown h' = shown h @ rs \<and>
        rx fd h' = rx fd h @ d \<and> b @ d = join_lines rs @ rest \<and> (\<forall>r\<in>set rs. NL \<notin> set r) \<and>
        tx fd h' = tx fd h @ take k (join_lines ls) \<and>
        length (join_lines (take (length rs) ls)) \<le> k \<and>
        length ls \<in> {length rs, length rs + 1}) \<and>
     grows is_session h h'"


lemma session_frame:
  assumes "session fd b h h'"
  shows "open_fds h' = open_fds h" "connected_fds h' = connected_fds h"
    "set h \<subseteq> set h'"
proof -
  have g: "grows is_session h h'" using assms by (simp add: session_def)
  show "open_fds h' = open_fds h"
    by (rule grows_open, rule grows_mono [OF g]) (simp add: is_session_quiet)
  obtain es where es: "h' = h @ es" "\<And>e. e \<in> set es \<Longrightarrow> is_session e"
    using g by (auto simp: grows_def list_all_iff)
  have "Connect fd a r \<notin> set es" for fd a r
    using es(2) [of "Connect fd a r"] by auto
  then show "connected_fds h' = connected_fds h" "set h \<subseteq> set h'"
    by (auto simp: es(1) connected_fds_def)
qed

text \<open>Before the first line, and after each kind of failed exchange.\<close>

lemma session_quit: "session fd b h (h @ [Getline None])"
  unfolding session_def
  by (intro conjI exI [of _ "[] :: string list"] exI [of _ b] exI [of _ "[]"] exI [of _ 0]) auto

lemma session_send_failed:
  assumes "send_all K fd (l @ [NL]) (h @ [Getline (Some l)]) = Some (False, h2)"
  shows "session fd b h (h2 @ [Stderr msg])"
proof -
  obtain k where k: "tx fd h2 = tx fd h @ take k (l @ [NL])"
    using send_all_effect [OF assms] by auto
  have g: "typed h2 = typed h @ [l]" "shown h2 = shown h" "grows is_session h h2"
    using grows_io_session [of fd "h @ [Getline (Some l)]" h2] send_loop_grows [OF assms [unfolded send_all_def]]
    by (auto simp: grows_def)
  have "rx fd h2 = rx fd h"
    using send_all_rx [OF assms] by simp
  with k g show ?thesis
    unfolding session_def
    by (intro conjI exI [of _ "[l]"] exI [of _ "[] :: string list"] exI [of _ b] exI [of _ "[]"]
        exI [of _ k]) auto
qed

lemma session_exchange:
  assumes "send_all K fd (l @ [NL]) (h @ [Getline (Some l)]) = Some (True, h2)"
    and "read_message K fd b h2 = Some (m, b', h3)"
  shows "typed h3 = typed h @ [l]" "shown h3 = shown h" "grows is_session h h3"
    "tx fd h3 = tx fd h @ l @ [NL]"
    "\<exists>d. rx fd h3 = rx fd h @ d \<and>
       (case m of None \<Rightarrow> b' = b @ d \<and> NL \<notin> set b' | Some r \<Rightarrow> b @ d = r @ NL # b' \<and> NL \<notin> set r)"
proof -
  note s = grows_io_session [OF disjI1 [OF send_loop_grows [OF assms(1) [unfolded send_all_def]]]]
  note r = grows_io_session [OF disjI2 [OF read_message_grows [OF assms(2)]]]
  show "typed h3 = typed h @ [l]" "shown h3 = shown h"
    using s r by auto
  have "grows is_session h (h @ [Getline (Some l)])" by auto
  then have "grows is_session h h2" by (rule grows_trans) (use s in blast)
  then show "grows is_session h h3" by (rule grows_trans) (use r in blast)
  show "tx fd h3 = tx fd h @ l @ [NL]"
    using send_all_effect [OF assms(1)] read_message_tx [OF assms(2), of fd] by auto
  show "\<exists>d. rx fd h3 = rx fd h @ d \<and>
       (case m of None \<Rightarrow> b' = b @ d \<and> NL \<notin> set b' | Some r \<Rightarrow> b @ d = r @ NL # b' \<and> NL \<notin> set r)"
    using read_message_effect [OF assms(2)] send_all_rx [OF assms(1), of fd] by simp
qed

lemma session_disconnect:
  assumes "send_all K fd (l @ [NL]) (h @ [Getline (Some l)]) = Some (True, h2)"
    and "read_message K fd b h2 = Some (None, b', h3)"
  shows "session fd b h (h3 @ [Stdout ''server disconnected''])"
proof -
  note x = session_exchange [OF assms]
  obtain d where d: "rx fd h3 = rx fd h @ d" "b' = b @ d"
    using x(5) by auto
  show ?thesis
    unfolding session_def
    using x(1-4) d
    by (intro conjI exI [of _ "[l]"] exI [of _ "[] :: string list"] exI [of _ b'] exI [of _ d]
        exI [of _ "Suc (length l)"]) auto
qed

lemma session_step:
  assumes "send_all K fd (l @ [NL]) (h @ [Getline (Some l)]) = Some (True, h2)"
    and "read_message K fd b h2 = Some (Some r, b', h3)"
    and rest: "session fd b' (h3 @ [Stdout (''Server: '' @ r)]) h'"
  shows "session fd b h h'"
proof -
  let ?h4 = "h3 @ [Stdout (''Server: '' @ r)]"
  note x = session_exchange [OF assms(1,2)]
  obtain d where d: "rx fd h3 = rx fd h @ d" "b @ d = r @ NL # b'" "NL \<notin> set r"
    using x(5) by auto
  obtain ls rs tail d' k where y: "typed h' = typed ?h4 @ ls" "shown h' = shown ?h4 @ rs"
    "rx fd h' = rx fd ?h4 @ d'" "b' @ d' = join_lines rs @ tail" "\<forall>r\<in>set rs. NL \<notin> set r"
    "tx fd h' = tx fd ?h4 @ take k (join_lines ls)"
    "length (join_lines (take (length rs) ls)) \<le> k" "length ls \<in> {length rs, length rs + 1}"
    "grows is_session ?h4 h'"
    using rest unfolding session_def by blast
  have "tx fd h' = tx fd h @ take (Suc (length l) + k) (join_lines (l # ls))"
    using x(4) y(6) by simp
  moreover have "b @ d @ d' = join_lines (r # rs) @ tail"
    using arg_cong [OF d(2), of "\<lambda>x. x @ d'"] y(4) by simp
  moreover have "typed h' = typed h @ (l # ls)" "shown h' = shown h @ (r # rs)"
    "rx fd h' = rx fd h @ (d @ d')"
    using x(1,2) y(1-3) d(1) by simp_all
  moreover have "length (join_lines (take (length (r # rs)) (l # ls))) \<le> Suc (length l) + k"
    using y(7) by simp
  moreover have "grows is_session h h'"
    using x(3) y(9) by (auto simp: grows_def)
  moreover have "\<forall>q\<in>set (r # rs). NL \<notin> set q" "length (l # ls) \<in> {length (r # rs), length (r # rs) + 1}"
    using d(3) y(5,8) by auto
  ultimately show ?thesis
    unfolding session_def
    by (intro conjI exI [of _ "l # ls"] exI [of _ "r # rs"] exI [of _ tail] exI [of _ "d @ d'"]
        exI [of _ "Suc (length l) + k"]) assumption+
qed

lemma client_loop_session:
  assumes ret: "client_loop K fd b h = Some h'"
  shows "session fd b h h'"
proof (rule client_loop.raw_induct
    [where P = "\<lambda>K fd b h res. session fd b h res", OF _ ret])
  fix f K fd b h res
  assume IH: "\<And>K fd b h res. f K fd b h = Some res \<Longrightarrow> session fd b h res"
    and step: "(let (line, h1) = sys_getline K h
      in case line of
           None \<Rightarrow> Some h1
         | Some message \<Rightarrow>
             (case send_all K fd (message @ [NL]) h1 of
                None \<Rightarrow> None
              | Some (sent, h2) \<Rightarrow>
                  (if \<not> sent then Some (h2 @ [Stderr ''send failed!''])
                   else
                     case read_message K fd b h2 of
                       None \<Rightarrow> None
                     | Some (None, _, h3) \<Rightarrow> Some (h3 @ [Stdout ''server disconnected''])
                     | Some (Some response, buffer', h3) \<Rightarrow>
                         f K fd buffer' (h3 @ [Stdout (''Server: '' @ response)])))) = Some res"
  show "session fd b h res"
  proof (cases "k_getline K h")
    case None
    with step session_quit show ?thesis by (auto simp: sys_eqs)
  next
    case (Some l)
    let ?h1 = "h @ [Getline (Some l)]"
    obtain sent h2 where send: "send_all K fd (l @ [NL]) ?h1 = Some (sent, h2)"
      using step Some by (cases "send_all K fd (l @ [NL]) ?h1") (auto simp: sys_eqs)
    show ?thesis
    proof (cases sent)
      case False
      with send session_send_failed [of K fd l h h2] step Some show ?thesis
        by (auto simp: sys_eqs)
    next
      case True
      obtain m b' h3 where read: "read_message K fd b h2 = Some (m, b', h3)"
        using step Some send True by (cases "read_message K fd b h2") (auto simp: sys_eqs)
      show ?thesis
      proof (cases m)
        case None
        with send read True session_disconnect [of K fd l h h2 b b' h3] step Some show ?thesis
          by (auto simp: sys_eqs)
      next
        case (Some r)
        then have "f K fd b' (h3 @ [Stdout (''Server: '' @ r)]) = Some res"
          using step \<open>k_getline K h = Some l\<close> send read True by (simp add: sys_eqs)
        from session_step [OF _ _ IH [OF this]] send read True Some
        show ?thesis by simp
      qed
    qed
  qed
qed


subsection \<open>Properties\<close>

text \<open>
  Property C39. The address loop leaks nothing: sockets of failed attempts are
  closed by the next assignment, and at most the descriptor owned by
  \<open>socket_fd\<close>, a new one, is open in addition to what was open before.
\<close>

theorem connect_loop_owns:
  assumes "fresh_fds K" and "-1 \<notin> open_fds h"
    and "connect_loop K results UniqueFd_default h = (socket_fd, h')"
  shows "open_fds h' = open_fds h \<union> (if ufd_valid socket_fd then {ufd_get socket_fd} else {}) \<and>
    ufd_get socket_fd \<notin> open_fds h"
proof -
  have "holds_one (open_fds h) UniqueFd_default h"
    using assms(2) by (simp add: holds_one_def UniqueFd_default_def ufd_valid_def)
  from connect_loop_holds [OF assms(1) this assms(2), of results] assms(3) show ?thesis
    by (simp add: holds_one_def ufd_get_def)
qed

text \<open>A machine that refuses every connection, and one whose second address works.\<close>

definition refusing_kernel :: kernel where
  "refusing_kernel = quiet_kernel\<lparr>
     k_socket := \<lambda>h _ _ _. Inr (if 3 \<in> open_fds h then 1 + Max (open_fds h) else 3),
     k_epoll_create := \<lambda>_. Inl 24, k_connect := \<lambda>_ _ _. Inl 111\<rparr>"

definition demo_addrs :: "addrinfo list" where
  "demo_addrs = [\<lparr>ai_family = 10, ai_socktype = 1, ai_protocol = 6, ai_addr = 0\<rparr>,
     \<lparr>ai_family = 2, ai_socktype = 1, ai_protocol = 6, ai_addr = 1\<rparr>]"

definition second_kernel :: kernel where
  "second_kernel = refusing_kernel\<lparr>k_connect := \<lambda>_ _ a. (if a = 1 then Inr () else Inl 111)\<rparr>"

lemma finite_open [simp]: "finite (open_fds h)"
proof -
  have "finite A \<Longrightarrow> finite (open1 A e)" for A e
    by (induction A e rule: open1.induct) auto
  then have "finite A \<Longrightarrow> finite (foldl open1 A h)" for A
    by (induction h arbitrary: A) auto
  then show ?thesis by (simp add: open_fds_def)
qed

lemma refusing_fresh: "fresh_fds (refusing_kernel\<lparr>k_connect := f\<rparr>)"
proof -
  have "1 + Max (open_fds h) \<notin> open_fds h" for h
    using Max_ge [OF finite_open, of "1 + Max (open_fds h)" h] by auto
  moreover have "0 \<le> 1 + Max (open_fds h)" if "3 \<in> open_fds h" for h
    using Max_ge [OF finite_open that] by simp
  ultimately show ?thesis
    by (auto simp: fresh_fds_def refusing_kernel_def quiet_kernel_def)
qed

lemma second_run:
  "connect_loop second_kernel demo_addrs UniqueFd_default [] =
     (\<lparr>fd_ref = 4\<rparr>, [Socket 10 1 6 (Inr 3), Connect 3 0 (Inl 111), Socket 2 1 6 (Inr 4), Close 3,
        Connect 4 1 (Inr ())])"
  by (simp add: connect_loop.simps create_socket_def sys_eqs ufd_defs demo_addrs_def
      second_kernel_def refusing_kernel_def quiet_kernel_def open_fds_def Let_def
      del: open_fds_append)

theorem connect_loop_owns_witness:
  "open_fds [Socket 10 1 6 (Inr 3), Connect 3 0 (Inl 111), Socket 2 1 6 (Inr 4), Close 3,
     Connect 4 1 (Inr ())] = {4}"
  using connect_loop_owns [OF refusing_fresh [of "k_connect second_kernel"], of "[]" demo_addrs
      "\<lparr>fd_ref = 4\<rparr>"] second_run
  by (simp add: second_kernel_def ufd_defs)

text \<open>
  Property C38. A client that ends has closed everything it opened, whichever way
  it ends.
\<close>

theorem client_main_releases:
  assumes "fresh_fds K" and "-1 \<notin> open_fds h" and "client_main K resolved h = Some (code, h')"
  shows "open_fds h' = open_fds h"
proof (cases resolved)
  case (Inl status)
  with assms(3) show ?thesis by (auto simp: client_main_def)
next
  case (Inr results)
  obtain s h1 where loop: "connect_loop K results UniqueFd_default h = (s, h1)"
    by (metis prod.exhaust)
  have "holds_one (open_fds h) UniqueFd_default h"
    using assms(2) by (simp add: holds_one_def UniqueFd_default_def ufd_valid_def)
  from connect_loop_holds [OF assms(1) this assms(2), of results]
  have one: "holds_one (open_fds h) s h1"
    by (simp add: loop)
  show ?thesis
  proof (cases "ufd_valid s")
    case False
    then have "h' = h1 @ [Stderr ''connect() failed'']"
      using assms(3) Inr loop by (simp add: client_main_def ufd_destroy_def ufd_valid_def)
    with one False show ?thesis
      by (simp add: holds_one_def)
  next
    case True
    have body: "(case client_loop K (ufd_get s) [] (h1 @ [Stdout ''connected to server'']) of
        None \<Rightarrow> None | Some h2 \<Rightarrow> Some (0, ufd_destroy s h2)) = Some (code, h')"
      using assms(3) Inr loop True by (simp add: client_main_def)
    then obtain h2 where
      h2: "client_loop K (ufd_get s) [] (h1 @ [Stdout ''connected to server'']) = Some h2"
        "h' = ufd_destroy s h2"
      by (auto split: option.splits)
    have "open_fds h2 = open_fds h1"
      using session_frame(1) [OF client_loop_session [OF h2(1)]] by simp
    with h2(2) one True show ?thesis
      by (simp add: holds_one_def ufd_destroy_def ufd_valid_def sys_close_def)
  qed
qed

lemma refusing_run:
  "client_main refusing_kernel (Inr demo_addrs) [] = Some (0,
     [Socket 10 1 6 (Inr 3), Connect 3 0 (Inl 111), Socket 2 1 6 (Inr 4), Close 3,
      Connect 4 1 (Inl 111), Stdout ''connected to server'', Getline None, Close 4])"
  by (simp add: client_main_def connect_loop.simps client_loop.simps create_socket_def sys_eqs
      ufd_defs demo_addrs_def refusing_kernel_def quiet_kernel_def open_fds_def Let_def
      del: open_fds_append)

theorem client_main_releases_witness:
  "open_fds [Socket 10 1 6 (Inr 3), Connect 3 0 (Inl 111), Socket 2 1 6 (Inr 4), Close 3,
      Connect 4 1 (Inl 111), Stdout ''connected to server'', Getline None, Close 4] = {}"
  using client_main_releases [OF refusing_fresh [of "k_connect refusing_kernel"], of "[]"] refusing_run
  by simp

text \<open>
  Property C40. The check after the address loop does not detect a failure to
  connect: when every \<open>connect\<close> is refused but some address yields a socket, the
  client announces a connection, writes nothing to its error stream and, if the
  user ends the input without typing a line, exits with status 0. (A line typed
  would be sent on the unconnected socket, which raises \<open>SIGPIPE\<close>; signals are
  outside the model, so the statement is about the user who types none.)
\<close>

theorem client_announces_refused_connection:
  assumes "fresh_fds K" and "\<And>h fd a. \<exists>e. k_connect K h fd a = Inl e"
    and "\<exists>addr\<in>set results. \<forall>h. \<exists>fd.
      k_socket K h (ai_family addr) (ai_socktype addr) (ai_protocol addr) = Inr fd"
    and "\<And>h. k_getline K h = None"
  shows "\<exists>h1 fd. client_main K (Inr results) [] =
      Some (0, h1 @ [Stdout ''connected to server'', Getline None, Close fd]) \<and>
    (\<forall>fd a u. Connect fd a (Inr u) \<notin> set h1) \<and> (\<forall>m. Stderr m \<notin> set h1)"
proof -
  obtain s h1 where loop: "connect_loop K results UniqueFd_default [] = (s, h1)"
    by (metis prod.exhaust)
  have s: "ufd_valid s" "connected_fds h1 = {}" "complaints h1 = {}"
    using connect_loop_last [OF assms(2,1) disjI2 [OF assms(3)], of UniqueFd_default "[]"]
    by (simp_all add: loop connected_fds_def complaints_def)
  have "client_main K (Inr results) [] =
      Some (0, h1 @ [Stdout ''connected to server'', Getline None, Close (fd_ref s)])"
    using s(1) assms(4)
    by (simp add: client_main_def loop client_loop.simps sys_eqs ufd_destroy_def ufd_valid_def)
  with s(2,3) show ?thesis
    by (intro exI [of _ h1] exI [of _ "fd_ref s"]) (simp add: connected_fds_def complaints_def)
qed

theorem client_announces_refused_connection_witness:
  "\<exists>h1 fd. client_main refusing_kernel (Inr demo_addrs) [] =
      Some (0, h1 @ [Stdout ''connected to server'', Getline None, Close fd]) \<and>
    Connect 4 1 (Inr ()) \<notin> set h1 \<and> Stderr ''connect() failed'' \<notin> set h1"
proof -
  have "fresh_fds refusing_kernel"
    using refusing_fresh [of "k_connect refusing_kernel"] by simp
  moreover have "\<exists>addr\<in>set demo_addrs. \<forall>h. \<exists>fd. k_socket refusing_kernel h (ai_family addr)
      (ai_socktype addr) (ai_protocol addr) = Inr fd"
    by (simp add: refusing_kernel_def demo_addrs_def) blast
  ultimately show ?thesis
    using client_announces_refused_connection [of refusing_kernel demo_addrs]
    by (simp add: refusing_kernel_def quiet_kernel_def) blast
qed

text \<open>
  Property C37. The session is a lock-step dialogue: the lines typed are sent in
  order, each with its newline, all but possibly the last one whole; the received
  bytes split into the replies shown, in order, one per line.
\<close>

theorem client_session_lockstep:
  assumes "client_loop K fd response_buffer h = Some h'"
  shows "\<exists>lines replies rest received k.
     typed h' = typed h @ lines \<and> shown h' = shown h @ replies \<and>
     rx fd h' = rx fd h @ received \<and> response_buffer @ received = join_lines replies @ rest \<and>
     (\<forall>r\<in>set replies. NL \<notin> set r) \<and>
     tx fd h' = tx fd h @ take k (join_lines lines) \<and>
     length (join_lines (take (length replies) lines)) \<le> k \<and>
     length lines \<in> {length replies, length replies + 1}"
  using client_loop_session [OF assms] by (simp add: session_def)

text \<open>A user who types one command and leaves after the reply.\<close>

definition dialogue_kernel :: kernel where
  "dialogue_kernel = quiet_kernel\<lparr>
     k_getline := \<lambda>h. (if typed h = [] then Some ''COUNT'' else None),
     k_send := \<lambda>_ _ bs. Inr (length bs), k_recv := \<lambda>_ _ _. Inr (''0'' @ [NL])\<rparr>"

lemma dialogue_run:
  "client_loop dialogue_kernel 3 [] [] = Some [Getline (Some ''COUNT''),
     Send 3 (''COUNT'' @ [NL]) (Inr 6), Recv 3 4096 (Inr (''0'' @ [NL])), Stdout ''Server: 0'',
     Getline None]"
  by (simp add: client_loop.simps send_all_def send_loop.simps read_message.simps next_message_def
      find_from_def substr_def sys_eqs dialogue_kernel_def quiet_kernel_def)

theorem client_session_lockstep_witness:
  "\<exists>lines replies. lines = [''COUNT''] \<and> replies = [''0''] \<and>
     length lines \<in> {length replies, length replies + 1}"
  using client_session_lockstep [OF dialogue_run] by simp

text \<open>The playground program prints its two replies and returns.\<close>

lemma playground_replies: "playground_main h = Some (h @ [Stdout ''OK'', Stdout ''James''])"
proof -
  have "parse_command ''SET name James'' =
      Some \<lparr>cmd_type = Set, cmd_key = ''name'', cmd_value = ''James''\<rparr>"
    "parse_command ''GET name'' = Some \<lparr>cmd_type = Get, cmd_key = ''name'', cmd_value = []\<rparr>"
    by (simp_all add: parse_command_def open_stream_def extract_word_def is_space_def)
  then show ?thesis
    by (simp add: playground_main_def execute_command.simps store_defs)
qed

end
