(* ===== verification/Client_Handler.thy ===== *)
theory Client_Handler
  imports Framing Executor Unique_Fd
begin

text \<open>
  \<open>tcp::server::handle_client\<close> (\<open>src/server/client_handler.cpp\<close>,
  \<open>include/tcp/server/client_handler.hpp\<close>): the blocking, one-client loop of
  read, parse, execute, send. The theory shows that it is a faithful server of
  \<open>serve\<close>, the sequential meaning of a stream of frames.
\<close>

partial_function (option) handle_loop ::
  "kernel \<Rightarrow> fd \<Rightarrow> string \<Rightarrow> KeyValueStore \<Rightarrow> history \<Rightarrow> (KeyValueStore \<times> history) option" where
  "handle_loop K fd message_buffer store h =
     (case read_message K fd message_buffer h of
        None \<Rightarrow> None
      | Some (message, buffer', h1) \<Rightarrow>
          (case message of
             None \<Rightarrow> Some (store, h1 @ [Stdout ''client disconnected''])
           | Some m \<Rightarrow>
               (case parse_command m of
                  None \<Rightarrow>
                    (case send_all K fd (''INVALID COMMAND MESSAGE'' @ [NL]) h1 of
                       None \<Rightarrow> None
                     | Some (sent, h2) \<Rightarrow>
                         (if \<not> sent then Some (store, h2 @ [Stderr ''send failed''])
                          else handle_loop K fd buffer' store h2))
                | Some command \<Rightarrow>
                    (let (response, store') = execute_command command store
                     in case send_all K fd (response @ [NL]) h1 of
                          None \<Rightarrow> None
                        | Some (sent, h2) \<Rightarrow>
                            (if \<not> sent then Some (store', h2 @ [Stderr ''send failed''])
                             else handle_loop K fd buffer' store' h2)))))"

declare handle_loop.simps [code]

text \<open>The handler owns the descriptor: it is closed when the handler returns.\<close>

definition handle_client ::
  "kernel \<Rightarrow> unique_fd \<Rightarrow> KeyValueStore \<Rightarrow> history \<Rightarrow> (KeyValueStore \<times> history) option" where
  "handle_client K clientFd store h =
     (case handle_loop K (ufd_get clientFd) [] store (h @ [Stdout ''client connected'']) of
        None \<Rightarrow> None
      | Some (store', h') \<Rightarrow> Some (store', ufd_destroy clientFd h'))"

text \<open>One frame answered, whatever the parser says.\<close>

lemma handle_loop_message:
  "handle_loop K fd b store h =
     (case read_message K fd b h of
        None \<Rightarrow> None
      | Some (None, b', h1) \<Rightarrow> Some (store, h1 @ [Stdout ''client disconnected''])
      | Some (Some m, b', h1) \<Rightarrow>
          (case send_all K fd (fst (respond m store)) h1 of
             None \<Rightarrow> None
           | Some (sent, h2) \<Rightarrow>
               (if \<not> sent then Some (snd (respond m store), h2 @ [Stderr ''send failed''])
                else handle_loop K fd b' (snd (respond m store)) h2)))"
  by (subst handle_loop.simps)
     (auto simp: respond_def invalid_reply_def case_prod_beta split: option.splits)

text \<open>
  What a run of the loop did: the received bytes are complete frames \<open>fs\<close> and a
  rest, and the store is the one after serving \<open>fs\<close>. Either the peer was done,
  then every frame received is served and every reply was sent; or a send failed
  in the reply to the last frame served, then the replies before it and a strict
  prefix of it were sent.
\<close>

definition all_sent :: "fd \<Rightarrow> string list \<Rightarrow> string \<Rightarrow> KeyValueStore \<Rightarrow> string \<Rightarrow> history \<Rightarrow> bool" where
  "all_sent fd fs rest store out h' \<longleftrightarrow>
     NL \<notin> set rest \<and> out = fst (serve fs store) \<and>
     (\<exists>h0. h' = h0 @ [Stdout ''client disconnected''] \<and> recv_over fd h0)"

definition send_cut :: "fd \<Rightarrow> string list \<Rightarrow> KeyValueStore \<Rightarrow> string \<Rightarrow> history \<Rightarrow> bool" where
  "send_cut fd fs store out h' \<longleftrightarrow>
     (\<exists>gs f k. fs = gs @ [f] \<and>
        out = fst (serve gs store) @ take k (fst (respond f (snd (serve gs store)))) \<and>
        k < length (fst (respond f (snd (serve gs store)))) \<and>
        (\<exists>h0. h' = h0 @ [Stderr ''send failed''] \<and> send_over fd h0))"

definition handled ::
  "fd \<Rightarrow> string \<Rightarrow> KeyValueStore \<Rightarrow> history \<Rightarrow> KeyValueStore \<times> history \<Rightarrow> bool" where
  "handled fd b store h res \<longleftrightarrow>
     (\<exists>fs rest d out. rx fd (snd res) = rx fd h @ d \<and> tx fd (snd res) = tx fd h @ out \<and>
        b @ d = join_lines fs @ rest \<and> (\<forall>f\<in>set fs. NL \<notin> set f) \<and>
        fst res = snd (serve fs store) \<and>
        (all_sent fd fs rest store out (snd res) \<or> send_cut fd fs store out (snd res)))"

lemma handled_disconnect:
  assumes "read_message K fd b h = Some (None, b', h1)"
  shows "handled fd b store h (store, h1 @ [Stdout ''client disconnected''])"
proof -
  obtain d where d: "rx fd h1 = rx fd h @ d" "b' = b @ d" "NL \<notin> set b'"
    using read_message_effect [OF assms] by auto
  have "all_sent fd [] b' store [] (h1 @ [Stdout ''client disconnected''])"
    using d(3) read_message_over [OF assms] by (simp add: all_sent_def)
  with d show ?thesis
    unfolding handled_def using read_message_tx [OF assms, of fd]
    by (intro exI [of _ "[] :: string list"] exI [of _ b'] exI [of _ d] exI [of _ "[]"]) simp
qed

lemma handled_send_failed:
  assumes "read_message K fd b h = Some (Some m, b', h1)"
    and "send_all K fd (fst (respond m store)) h1 = Some (False, h2)"
  shows "handled fd b store h (snd (respond m store), h2 @ [Stderr ''send failed''])"
proof -
  obtain d where d: "rx fd h1 = rx fd h @ d" "b @ d = m @ NL # b'" "NL \<notin> set m"
    using read_message_effect [OF assms(1)] by auto
  obtain k where k: "tx fd h2 = tx fd h1 @ take k (fst (respond m store))"
    "k < length (fst (respond m store))"
    using send_all_effect [OF assms(2)] by auto
  have "send_cut fd [m] store (take k (fst (respond m store))) (h2 @ [Stderr ''send failed''])"
    using k(2) send_loop_over [OF assms(2) [unfolded send_all_def]]
    unfolding send_cut_def by (intro exI [of _ "[]"] exI [of _ m] exI [of _ k]) simp
  moreover have "rx fd h2 = rx fd h @ d" "tx fd h2 = tx fd h @ take k (fst (respond m store))"
    using d(1) k(1) send_all_rx [OF assms(2)] read_message_tx [OF assms(1)] by simp_all
  ultimately show ?thesis
    unfolding handled_def using d(2,3)
    by (intro exI [of _ "[m]"] exI [of _ b'] exI [of _ d] exI) (auto simp: case_prod_beta)
qed

text \<open>One more frame, answered in full, in front.\<close>

lemma all_sent_Cons:
  "all_sent fd fs rest (snd (respond m store)) out h' \<Longrightarrow>
   all_sent fd (m # fs) rest store (fst (respond m store) @ out) h'"
  by (simp add: all_sent_def case_prod_beta)

lemma send_cut_Cons:
  assumes "send_cut fd fs (snd (respond m store)) out h'"
  shows "send_cut fd (m # fs) store (fst (respond m store) @ out) h'"
proof -
  let ?s = "snd (respond m store)"
  obtain gs f k where g: "fs = gs @ [f]"
    "out = fst (serve gs ?s) @ take k (fst (respond f (snd (serve gs ?s))))"
    "k < length (fst (respond f (snd (serve gs ?s))))"
    "\<exists>h0. h' = h0 @ [Stderr ''send failed''] \<and> send_over fd h0"
    using assms unfolding send_cut_def by blast
  then show ?thesis
    unfolding send_cut_def
    by (intro exI [of _ "m # gs"] exI [of _ f] exI [of _ k]) (simp add: case_prod_beta)
qed

lemma handled_step:
  assumes "read_message K fd b h = Some (Some m, b', h1)"
    and "send_all K fd (fst (respond m store)) h1 = Some (True, h2)"
    and "handled fd b' (snd (respond m store)) h2 res"
  shows "handled fd b store h res"
proof -
  let ?r = "fst (respond m store)" and ?store1 = "snd (respond m store)"
  obtain d where d: "rx fd h1 = rx fd h @ d" "b @ d = m @ NL # b'" "NL \<notin> set m"
    using read_message_effect [OF assms(1)] by auto
  have h2: "rx fd h2 = rx fd h @ d" "tx fd h2 = tx fd h @ ?r"
    using d(1) send_all_rx [OF assms(2)] read_message_tx [OF assms(1)] send_all_effect [OF assms(2)]
    by auto
  obtain fs rest d' out where r: "rx fd (snd res) = rx fd h2 @ d'" "tx fd (snd res) = tx fd h2 @ out"
    "b' @ d' = join_lines fs @ rest" "\<forall>f\<in>set fs. NL \<notin> set f"
    "fst res = snd (serve fs ?store1)"
    and out: "all_sent fd fs rest ?store1 out (snd res) \<or> send_cut fd fs ?store1 out (snd res)"
    using assms(3) unfolding handled_def by blast
  have "all_sent fd (m # fs) rest store (?r @ out) (snd res) \<or>
      send_cut fd (m # fs) store (?r @ out) (snd res)"
    using out all_sent_Cons send_cut_Cons by blast
  moreover have "b @ d @ d' = join_lines (m # fs) @ rest"
    using d(2) r(3) by (metis append.assoc append_Cons join_lines_simps(2))
  ultimately show ?thesis
    unfolding handled_def using h2 r d(3)
    by (intro exI [of _ "m # fs"] exI [of _ rest] exI [of _ "d @ d'"] exI [of _ "?r @ out"])
       (simp add: case_prod_beta)
qed

lemma handle_loop_handled:
  assumes ret: "handle_loop K fd b store h = Some res"
  shows "handled fd b store h res"
proof (rule handle_loop.raw_induct
    [where P = "\<lambda>K fd b store h res. handled fd b store h res", OF _ ret])
  fix f K fd b store h res
  assume IH: "\<And>K fd b store h res. f K fd b store h = Some res \<Longrightarrow> handled fd b store h res"
    and step: "(case read_message K fd b h of
        None \<Rightarrow> None
      | Some (message, buffer', h1) \<Rightarrow>
          (case message of
             None \<Rightarrow> Some (store, h1 @ [Stdout ''client disconnected''])
           | Some m \<Rightarrow>
               (case parse_command m of
                  None \<Rightarrow>
                    (case send_all K fd (''INVALID COMMAND MESSAGE'' @ [NL]) h1 of
                       None \<Rightarrow> None
                     | Some (sent, h2) \<Rightarrow>
                         (if \<not> sent then Some (store, h2 @ [Stderr ''send failed''])
                          else f K fd buffer' store h2))
                | Some command \<Rightarrow>
                    (let (response, store') = execute_command command store
                     in case send_all K fd (response @ [NL]) h1 of
                          None \<Rightarrow> None
                        | Some (sent, h2) \<Rightarrow>
                            (if \<not> sent then Some (store', h2 @ [Stderr ''send failed''])
                             else f K fd buffer' store' h2))))) = Some res"
  show "handled fd b store h res"
  proof (cases "read_message K fd b h")
    case None
    with step show ?thesis by simp
  next
    case (Some r)
    obtain message b' h1 where r: "r = (message, b', h1)" by (cases r)
    show ?thesis
    proof (cases message)
      case None
      with Some r step show ?thesis
        using handled_disconnect [of K fd b h b' h1] by auto
    next
      case (Some m)
      note read = \<open>read_message K fd b h = Some r\<close> [unfolded r Some]
      have "(case send_all K fd (fst (respond m store)) h1 of
             None \<Rightarrow> None
           | Some (sent, h2) \<Rightarrow>
               (if \<not> sent then Some (snd (respond m store), h2 @ [Stderr ''send failed''])
                else f K fd b' (snd (respond m store)) h2)) = Some res"
        using step read
        by (auto simp: respond_def invalid_reply_def case_prod_beta split: option.splits if_splits)
      then obtain sent h2 where send: "send_all K fd (fst (respond m store)) h1 = Some (sent, h2)"
        and rest: "(if \<not> sent then Some (snd (respond m store), h2 @ [Stderr ''send failed''])
                else f K fd b' (snd (respond m store)) h2) = Some res"
        by (auto split: option.splits)
      show ?thesis
      proof (cases sent)
        case True
        with rest IH have "handled fd b' (snd (respond m store)) h2 res" by simp
        with handled_step [OF read] send True show ?thesis by simp
      next
        case False
        with handled_send_failed [OF read] send rest show ?thesis by auto
      qed
    qed
  qed
qed

text \<open>
  Each frame either was already buffered, and the buffer shrinks, or cost a
  receive, and the measure of the peer's remaining input shrinks.
\<close>

lemma handle_loop_returns:
  assumes "recv_progress K fd \<mu>" and "send_progress K fd \<mu>"
  shows "\<exists>res. handle_loop K fd b store h = Some res"
proof (induction "(\<mu> h, length b)" arbitrary: b store h
    rule: wf_induct_rule [OF wf_lex_prod [OF wf_less_than wf_less_than]])
  case (1 b h store)
  obtain m b' h1 where read: "read_message K fd b h = Some (m, b', h1)"
    and dec: "m \<noteq> None \<longrightarrow> h1 = h \<and> length b' < length b \<or> \<mu> h1 < \<mu> h"
    using read_message_returns [OF assms(1)] by blast
  show ?case
  proof (cases m)
    case None
    with read show ?thesis by (simp add: handle_loop_message)
  next
    case (Some l)
    obtain sent h2 where send: "send_all K fd (fst (respond l store)) h1 = Some (sent, h2)"
      and le: "sent \<longrightarrow> \<mu> h2 \<le> \<mu> h1"
      using send_loop_returns [OF assms(2)] unfolding send_all_def by blast
    show ?thesis
    proof (cases sent)
      case False
      with read Some send show ?thesis by (subst handle_loop_message) simp
    next
      case True
      have "((\<mu> h2, length b'), (\<mu> h, length b)) \<in> less_than <*lex*> less_than"
        using dec le True Some by auto
      from 1 [OF this] read Some send True show ?thesis
        by (subst handle_loop_message) simp
    qed
  qed
qed

subsection \<open>Properties\<close>

text \<open>
  Property C18. The blocking handler serves its client: when \<open>handle_client\<close>
  returns, the bytes received split into complete frames and a rest, and the store
  is the one after executing exactly those frames in order. Either the last
  receive met the end of the stream or an error, and then all complete frames were
  executed and the bytes sent are exactly their replies, in order; or the last
  send failed, and then all replies but the last were sent whole and of the last
  one a strict prefix. In both cases closing the descriptor is the last act.
\<close>

theorem handle_client_serves:
  assumes "handle_client K u store h = Some (store', h')" and "ufd_get u \<noteq> -1"
  shows "\<exists>fs rest d out h0. rx (ufd_get u) h' = rx (ufd_get u) h @ d \<and>
     tx (ufd_get u) h' = tx (ufd_get u) h @ out \<and>
     d = join_lines fs @ rest \<and> (\<forall>f\<in>set fs. NL \<notin> set f) \<and> store' = snd (serve fs store) \<and>
     (NL \<notin> set rest \<and> out = fst (serve fs store) \<and>
        h' = h0 @ [Stdout ''client disconnected'', Close (ufd_get u)] \<and> recv_over (ufd_get u) h0 \<or>
      (\<exists>gs f k. fs = gs @ [f] \<and>
        out = fst (serve gs store) @ take k (fst (respond f (snd (serve gs store)))) \<and>
        k < length (fst (respond f (snd (serve gs store)))) \<and>
        h' = h0 @ [Stderr ''send failed'', Close (ufd_get u)] \<and> send_over (ufd_get u) h0))"
proof -
  let ?fd = "ufd_get u"
  obtain h1 where run: "handle_loop K ?fd [] store (h @ [Stdout ''client connected'']) = Some (store', h1)"
    and h': "h' = h1 @ [Close ?fd]"
    using assms by (auto simp: handle_client_def ufd_destroy_def ufd_get_def sys_close_def
        split: option.splits)
  obtain fs rest d out where x: "rx ?fd h1 = rx ?fd h @ d" "tx ?fd h1 = tx ?fd h @ out"
    "d = join_lines fs @ rest" "\<forall>f\<in>set fs. NL \<notin> set f" "store' = snd (serve fs store)"
    and e: "all_sent ?fd fs rest store out h1 \<or> send_cut ?fd fs store out h1"
    using handle_loop_handled [OF run] unfolding handled_def by auto
  from e obtain h0 where "NL \<notin> set rest \<and> out = fst (serve fs store) \<and>
        h1 = h0 @ [Stdout ''client disconnected''] \<and> recv_over ?fd h0 \<or>
      (\<exists>gs f k. fs = gs @ [f] \<and>
        out = fst (serve gs store) @ take k (fst (respond f (snd (serve gs store)))) \<and>
        k < length (fst (respond f (snd (serve gs store)))) \<and>
        h1 = h0 @ [Stderr ''send failed''] \<and> send_over ?fd h0)"
    unfolding all_sent_def send_cut_def by blast
  with x show ?thesis
    unfolding h'
    by (intro exI [of _ fs] exI [of _ rest] exI [of _ d] exI [of _ out] exI [of _ h0]) auto
qed

text \<open>A client that sends two commands in one segment and closes.\<close>

definition session_kernel :: kernel where
  "session_kernel = quiet_kernel\<lparr>
     k_recv := \<lambda>h _ _. (if length h = 1 then Inr (''SET a b'' @ [NL] @ ''GET a'' @ [NL]) else Inr []),
     k_send := \<lambda>_ _ bs. Inr (length bs)\<rparr>"

lemma session_run:
  "handle_client session_kernel \<lparr>fd_ref = 5\<rparr> empty_store [] =
     Some (\<lparr>data_ref = [(''a'', ''b'')]\<rparr>,
       [Stdout ''client connected'',
        Recv 5 4096 (Inr (''SET a b'' @ [NL] @ ''GET a'' @ [NL])),
        Send 5 (''OK'' @ [NL]) (Inr 3), Send 5 (''b'' @ [NL]) (Inr 2),
        Recv 5 4096 (Inr []), Stdout ''client disconnected'', Close 5])"
proof -
  have "parse_command ''SET a b'' = Some \<lparr>cmd_type = Set, cmd_key = ''a'', cmd_value = ''b''\<rparr>"
    "parse_command ''GET a'' = Some \<lparr>cmd_type = Get, cmd_key = ''a'', cmd_value = []\<rparr>"
    by (simp_all add: parse_command_def open_stream_def extract_word_def is_space_def)
  then show ?thesis
    by (simp add: handle_client_def handle_loop.simps read_message.simps next_message_def
        find_from_def substr_def session_kernel_def sys_eqs ufd_defs send_all_def send_loop.simps
        execute_command.simps store_defs)
qed

theorem handle_client_serves_witness:
  "\<exists>fs rest. ''SET a b'' @ [NL] @ ''GET a'' @ [NL] = join_lines fs @ rest \<and>
     snd (serve fs empty_store) = \<lparr>data_ref = [(''a'', ''b'')]\<rparr> \<and>
     fst (serve fs empty_store) = ''OK'' @ [NL] @ ''b'' @ [NL]"
proof -
  have "ufd_get \<lparr>fd_ref = 5\<rparr> \<noteq> -1" by (simp add: ufd_defs)
  from handle_client_serves [OF session_run this] show ?thesis
    by (simp add: ufd_defs) metis
qed

text \<open>
  Property C19. The blocking handler ends: if the peer's input and the
  interruptions of its calls are finite, \<open>handle_client\<close> comes back, with the
  descriptor closed as its last act, whatever was received.
\<close>

theorem handle_client_returns:
  assumes "recv_progress K (ufd_get u) \<mu>" and "send_progress K (ufd_get u) \<mu>" and "ufd_get u \<noteq> -1"
  shows "\<exists>store' h'. handle_client K u store h = Some (store', h' @ [Close (ufd_get u)])"
proof -
  obtain store' h' where
    "handle_loop K (ufd_get u) [] store (h @ [Stdout ''client connected'']) = Some (store', h')"
    using handle_loop_returns [OF assms(1,2)] by (metis surj_pair)
  with assms(3) show ?thesis
    by (simp add: handle_client_def ufd_destroy_def ufd_get_def sys_close_def)
qed

theorem handle_client_returns_witness:
  "\<exists>store' h'. handle_client session_kernel \<lparr>fd_ref = 5\<rparr> empty_store [] =
     Some (store', h' @ [Close 5])"
proof -
  let ?u = "\<lparr>fd_ref = 5\<rparr>" and ?mu = "\<lambda>h. 2 - length h"
  have "recv_progress session_kernel (ufd_get ?u) ?mu" "send_progress session_kernel (ufd_get ?u) ?mu"
    by (auto simp: recv_progress_def send_progress_def session_kernel_def)
  from handle_client_returns [OF this] show ?thesis by (simp add: ufd_defs)
qed

end
