(* ===== verification/Spec2Isabelle.thy ===== *)
theory Spec2Isabelle
  imports Server_Run Serialization Progress Returns Client Client_Handler
begin

text \<open>
  A verification library for a small epoll key-value server (C++23): one event
  loop, a table of buffered client connections, a line protocol
  (\<open>SET\<close>/\<open>GET\<close>/\<open>DELETE\<close>/\<open>EXISTS\<close>/\<open>COUNT\<close>), an in-memory store, a blocking
  handler, a command-line client and a playground program. Paths below are
  relative to \<open>src/\<close>.

  \<^bold>\<open>The outside world.\<close> The operating system, the peers and the clock are not part
  of the repository. They are the parameter \<open>K :: kernel\<close> (theory \<open>Kernel\<close>): each
  call is answered by an arbitrary function of the history of all calls so far,
  and the call with its answer is appended to that history. So a theorem for all
  \<open>K\<close> covers every schedule and every answer, errors, short reads and short writes
  included. Bytes sent and received, descriptors open and closed, and the interest
  registered with epoll are read off the history. What the code relies on is
  stated as named hypotheses: \<open>recv_bounded\<close>, \<open>send_bounded\<close> (a call moves no more
  bytes than asked), \<open>fresh_fds\<close> (a new descriptor is not one still open), together
  \<open>kernel_laws\<close>; \<open>epoll_honest\<close> (only registered descriptors and bits are reported)
  where it matters. \<open>Scenario\<close> gives a kernel that satisfies all of them and
  computes a run of the server on it.

  \<^bold>\<open>The theories\<close>, in the order in which the code is layered.

  \<^item> \<open>Prelude\<close>: newline framing, \<open>std::string\<close> searches, \<open>std::size_t\<close> subtraction,
    decimal printing, the locale \<open>invariant_system\<close> of a step relation with an
    invariant.
  \<^item> \<open>Unique_Fd\<close> (\<open>net/unique_fd\<close>): the move-only owner; objects at addresses, so
    that self-assignment is covered; single ownership and absence of leaks.
  \<^item> \<open>Socket\<close> (\<open>net/socket\<close>), \<open>Event_Poller\<close> (\<open>net/event_poller\<close>): nonblocking mode
    with its retry loops; interest masks, registration and event decoding on
    32-bit words.
  \<^item> \<open>Store\<close> (\<open>store\<close>), \<open>Parser\<close> (\<open>protocol/parser\<close>, \<open>protocol/command\<close>), \<open>Executor\<close>
    (\<open>protocol/executor\<close>): the data structure behind its interface
    \<open>kv_interface\<close>, the parser against a grammar on words, the executor as a
    refinement of a specification on mathematical maps (\<open>command_service\<close>), and
    \<open>serve\<close>, the sequential meaning of a list of frames.
  \<^item> \<open>Framing\<close> (\<open>protocol/framing\<close>), \<open>Client_Handler\<close> (\<open>server/client_handler\<close>): the
    blocking path: what was executed and what was sent is \<open>serve\<close> on the received
    frames, cut short only by a failed \<open>send\<close>.
  \<^item> \<open>Connection\<close> (\<open>server/connection\<close>): the buffered state of one client. \<open>conn_inv\<close>
    holds the cursor and size bounds, \<open>pressure_ok\<close> the hysteresis of backpressure,
    \<open>ran\<close> that frames were served in order.
  \<^item> \<open>Server\<close> (\<open>apps/server.cpp\<close>): the program itself, one definition per block of
    the source; \<open>Visit\<close> gives the contract of one service visit, \<open>Server_Cases\<close> the
    inversion rules of the other handlers (how each can end), \<open>Server_Invariant\<close>
    the invariant \<open>server_inv\<close> and its preservation by every handler,
    \<open>Server_Run\<close> start-up, exit and the properties of reachable servers.
  \<^item> \<open>Serialization\<close>: the equivalence of a run with one sequential log.
    \<open>iteration_log\<close> computes from the model's visits which frames an iteration
    executes, \<open>logged\<close> carries their concatenation along a run, and \<open>serialized\<close>
    says that the shared store is the sequential execution of that log and that the
    streams of every connection ever accepted, retired ones included, are its
    logged frames and their replies. Descriptors are reused, so connections are
    numbered in the order of \<open>accept\<close> (\<open>conn_of\<close>, \<open>rx_of\<close>, \<open>tx_of\<close>).
  \<^item> \<open>Progress\<close>: the timeout each iteration passes to \<open>epoll_wait\<close>, and that it
    executes the next frame of every runnable client; \<open>Returns\<close>: start-up and each
    iteration come to a result unless \<open>fcntl\<close> is interrupted forever
    (\<open>fcntl_settles\<close>).
  \<^item> \<open>Client\<close> (\<open>apps/client.cpp\<close>, \<open>apps/playground.cpp\<close>).

  \<^bold>\<open>Interfaces.\<close> \<open>kv_interface\<close> is what the executor relies on, interpreted on the
  store's operations (\<open>kv\<close>); \<open>command_service\<close> is what connection and handler rely
  on, interpreted on \<open>execute_command\<close> (\<open>svc\<close>); \<open>invariant_system\<close> is interpreted on
  the moves of descriptors (\<open>ufd\<close>) and on the steps of the event loop (\<open>loop\<close>).

  \<^bold>\<open>Loops, bounds and fuel.\<close> The budgeted loops of the code (commands, reads,
  writes, accepts) recurse on the remaining budget and need no fuel. The loops
  without a bound, \<open>retry_eintr\<close>, \<open>read_message\<close>, \<open>send_loop\<close>, \<open>handle_loop\<close> and
  \<open>client_loop\<close>, are \<open>partial_function (option)\<close> with \<open>None\<close> for a call that never
  returns; \<open>set_nonblocking_returns\<close>, \<open>blocking_loops_return\<close> and
  \<open>handle_client_returns\<close> give conditions under which they return. The event loop
  of \<open>main\<close> is the step relation \<open>loop_step\<close>, one iteration per step, with the unspecified iteration order of
  \<open>std::unordered_map\<close> as a choice of the step. \<open>std::size_t\<close> is \<open>nat\<close> with the
  wrap-around of subtraction written out (\<open>size_sub\<close>); \<open>count()\<close> is a 64-bit word.

  \<^bold>\<open>Not modelled.\<close> Memory exhaustion and the exceptions of the containers; the
  effect of \<open>SIGPIPE\<close>: \<open>send_all\<close> passes no \<open>MSG_NOSIGNAL\<close>, so a blocking \<open>send\<close> on a
  broken or never connected socket ends the client program or the process of the
  blocking handler, where \<open>send_loop\<close> has an error answer like any other (the event
  loop does pass the flag); the texts of \<open>strerror\<close> and of the log
  lines that \<open>kLogConnections\<close> (false) disables; the tests and benchmarks.
\<close>

end
